(* ===== verification/Prelude.thy ===== *)
theory Prelude
  imports Main "HOL-Library.Word" "HOL-Library.Multiset"
begin

text \<open>
  Shared vocabulary of the development: the failures a C++ statement can end in, checked
  32-bit \<open>int\<close> arithmetic and the conversions between \<open>int\<close> and \<open>size_t\<close>,
  the ordered containers \<open>std::set\<close> and \<open>std::map\<close> as key-sorted lists, and
  invariants of step relations.
\<close>

named_theorems cpp_arith \<open>definitions of checked machine arithmetic\<close>

section \<open>Failures and sequencing\<close>

text \<open>
  The exceptions the sources throw, and the undefined behaviours their statements can
  run into. A statement that may fail returns \<open>Inl\<close> of the failure.
\<close>

datatype cpp_error =
    BadAlloc          \<comment> \<open>\<open>std::bad_alloc\<close>\<close>
  | OutOfRange        \<comment> \<open>\<open>std::out_of_range\<close>\<close>
  | InvalidArgument   \<comment> \<open>\<open>std::invalid_argument\<close>\<close>
  | LengthError       \<comment> \<open>\<open>std::length_error\<close>\<close>
  | SystemError       \<comment> \<open>\<open>boost::system::system_error\<close>\<close>
  | SignedOverflow    \<comment> \<open>undefined: overflow of a signed operation\<close>
  | BadShift          \<comment> \<open>undefined: shift by at least the width\<close>
  | OutOfBounds       \<comment> \<open>undefined: access outside an array\<close>
  | DerefEnd          \<comment> \<open>undefined: dereference of an \<open>end()\<close> iterator\<close>
  | MemcpyOverlap     \<comment> \<open>undefined: \<open>memcpy\<close> between overlapping regions\<close>
  | Uninitialised     \<comment> \<open>undefined: use of a variable that was never set\<close>
  | UseAfterFree      \<comment> \<open>undefined: use or second release of released memory\<close>

type_synonym 'a result = "cpp_error + 'a"

definition bindE :: "'a result \<Rightarrow> ('a \<Rightarrow> 'b result) \<Rightarrow> 'b result" where
  "bindE m f = (case m of Inl e \<Rightarrow> Inl e | Inr x \<Rightarrow> f x)"

lemma bindE_simps [simp]:
  "bindE (Inl e) f = Inl e"
  "bindE (Inr x) f = f x"
  by (simp_all add: bindE_def)

lemma bindE_cong [fundef_cong]:
  "m = m' \<Longrightarrow> (\<And>x. m' = Inr x \<Longrightarrow> f x = g x) \<Longrightarrow> bindE m f = bindE m' g"
  by (cases m') auto

lemma bindE_Inr_iff: "bindE m f = Inr y \<longleftrightarrow> (\<exists>x. m = Inr x \<and> f x = Inr y)"
  by (cases m) auto

lemma bindE_Inl_iff: "bindE m f = Inl e \<longleftrightarrow> m = Inl e \<or> (\<exists>x. m = Inr x \<and> f x = Inl e)"
  by (cases m) auto

section \<open>Machine integers\<close>

type_synonym byte = "8 word"
type_synonym u32 = "32 word"

definition in_int :: "int \<Rightarrow> bool" where
  "in_int z \<longleftrightarrow> - (2 ^ 31) \<le> z \<and> z < 2 ^ 31"

definition int_check :: "int \<Rightarrow> int result" where
  "int_check z = (if in_int z then Inr z else Inl SignedOverflow)"

text \<open>\<open>static_cast<int>\<close> and \<open>static_cast<size_t>\<close>: reduction modulo the width.\<close>

definition to_int32 :: "int \<Rightarrow> int" where
  "to_int32 z = (z + 2 ^ 31) mod 2 ^ 32 - 2 ^ 31"

definition to_size :: "int \<Rightarrow> nat" where
  "to_size z = nat (z mod 2 ^ 64)"

lemma to_int32_id [simp]: "in_int z \<Longrightarrow> to_int32 z = z"
  by (simp add: to_int32_def in_int_def)

lemma to_int32_mod: "to_int32 (z mod 2 ^ 32) = to_int32 z"
  by (simp add: to_int32_def mod_add_left_eq)

lemma to_size_of_nat [simp]: "n < 2 ^ 64 \<Longrightarrow> to_size (int n) = n"
  by (simp add: to_size_def)

lemma to_size_lt: "to_size z < 2 ^ 64"
  by (simp add: to_size_def nat_less_iff)

lemma int_check_Inr_iff: "int_check z = Inr y \<longleftrightarrow> y = z \<and> in_int z"
  by (auto simp: int_check_def)

lemma unat_u32_less: "unat (n :: u32) < 2 ^ 32"
  using unsigned_less [of n, where ?'a = nat] by simp

declare in_int_def [cpp_arith] int_check_def [cpp_arith]

section \<open>Ordered containers\<close>

text \<open>
  \<open>std::set\<close> with a comparator on a key, and \<open>std::map\<close>, are lists strictly
  increasing in the key; an iterator is the suffix that starts at its element, with
  \<open>[]\<close> for \<open>end()\<close>.
\<close>

fun oset_insert :: "('a \<Rightarrow> 'k::linorder) \<Rightarrow> 'a \<Rightarrow> 'a list \<Rightarrow> 'a list" where
  "oset_insert key x [] = [x]"
| "oset_insert key x (y # ys) =
     (if key x < key y then x # y # ys
      else if key x = key y then y # ys
      else y # oset_insert key x ys)"

definition oset_lower_bound :: "('a \<Rightarrow> 'k::linorder) \<Rightarrow> 'k \<Rightarrow> 'a list \<Rightarrow> 'a list" where
  "oset_lower_bound key k xs = dropWhile (\<lambda>x. key x < k) xs"

definition oset_erase :: "('a \<Rightarrow> 'k::linorder) \<Rightarrow> 'k \<Rightarrow> 'a list \<Rightarrow> 'a list" where
  "oset_erase key k xs = filter (\<lambda>x. key x \<noteq> k) xs"

definition oset_inv :: "('a \<Rightarrow> 'k::linorder) \<Rightarrow> 'a list \<Rightarrow> bool" where
  "oset_inv key xs \<longleftrightarrow> sorted_wrt (<) (map key xs)"

text \<open>The contract of the ordered containers that the components rely on.\<close>

locale ordered_container =
  fixes key :: "'a \<Rightarrow> 'k::linorder"
    and ins :: "'a \<Rightarrow> 'c \<Rightarrow> 'c"
    and ers :: "'k \<Rightarrow> 'c \<Rightarrow> 'c"
    and lower :: "'k \<Rightarrow> 'c \<Rightarrow> 'a option"
    and elems :: "'c \<Rightarrow> 'a set"
    and inv :: "'c \<Rightarrow> bool"
  assumes inv_ins: "inv c \<Longrightarrow> inv (ins x c)"
    and inv_ers: "inv c \<Longrightarrow> inv (ers k c)"
    and key_inj: "inv c \<Longrightarrow> inj_on key (elems c)"
    and elems_ins: "inv c \<Longrightarrow>
      elems (ins x c) = (if key x \<in> key ` elems c then elems c else insert x (elems c))"
    and elems_ers: "inv c \<Longrightarrow> elems (ers k c) = {x \<in> elems c. key x \<noteq> k}"
    and lower_None: "inv c \<Longrightarrow> lower k c = None \<longleftrightarrow> (\<forall>x \<in> elems c. key x < k)"
    and lower_Some: "inv c \<Longrightarrow> lower k c = Some x \<Longrightarrow>
      x \<in> elems c \<and> k \<le> key x \<and> (\<forall>y \<in> elems c. k \<le> key y \<longrightarrow> key x \<le> key y)"
begin

lemma lower_present:
  assumes "inv c" and "x \<in> elems c"
  shows "lower (key x) c = Some x"
proof (cases "lower (key x) c")
  case None
  with lower_None [OF assms(1)] assms(2) show ?thesis by auto
next
  case (Some y)
  from lower_Some [OF assms(1) Some] assms(2) have "y \<in> elems c" and "key y = key x"
    by (auto intro: antisym)
  with key_inj [OF assms(1)] assms(2) Some show ?thesis by (auto dest: inj_onD)
qed

lemma erase_inserted:
  assumes "inv c" and "key x \<notin> key ` elems c"
  shows "elems (ers (key x) (ins x c)) = elems c"
  using assms by (auto simp: elems_ins elems_ers inv_ins) (metis imageI)

lemma insert_present:
  assumes "inv c" and "x \<in> elems c"
  shows "elems (ins x c) = elems c"
  using assms by (auto simp: elems_ins)

end

lemma set_oset_insert:
  "oset_inv key xs \<Longrightarrow>
   set (oset_insert key x xs) = (if key x \<in> key ` set xs then set xs else insert x (set xs))"
  by (induction xs) (auto simp: oset_inv_def)

lemma oset_insert_key_bound:
  "\<lbrakk>y \<in> set (oset_insert key x xs); k < key x; \<forall>z \<in> set xs. k < key z\<rbrakk> \<Longrightarrow> k < key y"
  by (induction xs) (auto split: if_splits)

lemma oset_inv_insert [intro]: "oset_inv key xs \<Longrightarrow> oset_inv key (oset_insert key x xs)"
proof (induction xs)
  case Nil
  then show ?case by (simp add: oset_inv_def)
next
  case (Cons y ys)
  then show ?case
    by (auto simp: oset_inv_def intro: oset_insert_key_bound)
qed

lemma oset_inv_filter: "oset_inv key xs \<Longrightarrow> oset_inv key (filter P xs)"
  by (induction xs) (auto simp: oset_inv_def)

lemma oset_inv_erase [intro]: "oset_inv key xs \<Longrightarrow> oset_inv key (oset_erase key k xs)"
  by (simp add: oset_erase_def oset_inv_filter)

lemma oset_inv_inj: "oset_inv key xs \<Longrightarrow> inj_on key (set xs)"
  by (simp add: oset_inv_def strict_sorted_iff distinct_map)

lemma oset_lower_bound_Nil:
  "oset_lower_bound key k xs = [] \<longleftrightarrow> (\<forall>x \<in> set xs. key x < k)"
  by (simp add: oset_lower_bound_def)

lemma oset_lower_bound_Cons:
  assumes "oset_inv key xs" and "oset_lower_bound key k xs = x # r"
  shows "x \<in> set xs" and "k \<le> key x" and "\<forall>y \<in> set xs. k \<le> key y \<longrightarrow> key x \<le> key y"
proof -
  have 1: "oset_inv key xs \<Longrightarrow> dropWhile (\<lambda>x. key x < k) xs = x # r \<Longrightarrow>
    x \<in> set xs \<and> k \<le> key x \<and> (\<forall>y \<in> set xs. k \<le> key y \<longrightarrow> key x \<le> key y)"
    by (induction xs) (auto simp: oset_inv_def split: if_splits)
  with assms show "x \<in> set xs" "k \<le> key x" "\<forall>y \<in> set xs. k \<le> key y \<longrightarrow> key x \<le> key y"
    by (auto simp: oset_lower_bound_def)
qed

text \<open>The element an iterator points to.\<close>

definition oset_find :: "('a \<Rightarrow> 'k::linorder) \<Rightarrow> 'k \<Rightarrow> 'a list \<Rightarrow> 'a option" where
  "oset_find key k xs = (case oset_lower_bound key k xs of [] \<Rightarrow> None | x # _ \<Rightarrow> Some x)"

interpretation oset: ordered_container key "oset_insert key" "oset_erase key"
  "oset_find key" set "oset_inv key" for key :: "'a \<Rightarrow> 'k::linorder"
proof unfold_locales
  fix c :: "'a list" and k and x
  assume inv: "oset_inv key c"
  show "oset_inv key (oset_insert key x c)" using inv by blast
  show "oset_inv key (oset_erase key k c)" using inv by blast
  show "inj_on key (set c)" using inv by (rule oset_inv_inj)
  show "set (oset_insert key x c) =
      (if key x \<in> key ` set c then set c else insert x (set c))"
    using inv by (rule set_oset_insert)
  show "set (oset_erase key k c) = {x \<in> set c. key x \<noteq> k}"
    by (auto simp: oset_erase_def)
  show "(oset_find key k c = None) = (\<forall>x \<in> set c. key x < k)"
    by (auto simp: oset_find_def oset_lower_bound_Nil [symmetric] split: list.splits)
  show "x \<in> set c \<and> k \<le> key x \<and> (\<forall>y \<in> set c. k \<le> key y \<longrightarrow> key x \<le> key y)"
    if "oset_find key k c = Some x"
    using that oset_lower_bound_Cons [OF inv, of k x]
    by (auto simp: oset_find_def split: list.splits)
qed

section \<open>Invariants of step relations\<close>

text \<open>Threads are lists of program counters; a step changes one entry, and weights are summed over the list.\<close>

lemma sum_list_weight_update:
  fixes f :: "'a \<Rightarrow> nat"
  shows "t < length xs \<Longrightarrow> sum_list (map f (xs[t := y])) + f (xs ! t) = sum_list (map f xs) + f y"
  by (induction xs arbitrary: t) (auto simp: nth_Cons split: nat.splits)

lemma weight_le_sum_list:
  fixes f :: "'a \<Rightarrow> nat"
  shows "t < length xs \<Longrightarrow> f (xs ! t) \<le> sum_list (map f xs)"
  by (induction xs arbitrary: t) (auto simp: nth_Cons split: nat.splits intro: trans_le_add2)

text \<open>An invariant that every start state has and every step keeps holds in every reachable state.\<close>

locale inductive_invariant =
  fixes step :: "'s \<Rightarrow> 's \<Rightarrow> bool"
    and init :: "'s \<Rightarrow> bool"
    and holds :: "'s \<Rightarrow> bool"
  assumes holds_init: "init s \<Longrightarrow> holds s"
    and holds_step: "step s t \<Longrightarrow> holds s \<Longrightarrow> holds t"
begin

lemma holds_reachable: "step\<^sup>*\<^sup>* s t \<Longrightarrow> init s \<Longrightarrow> holds t"
  by (induction rule: rtranclp_induct) (auto intro: holds_init holds_step)

end

text \<open>A lock whose owner is the only one in its critical section.\<close>

locale lock_protocol = inductive_invariant step init holds
  for step :: "'s \<Rightarrow> 's \<Rightarrow> bool" and init :: "'s \<Rightarrow> bool" and holds :: "'s \<Rightarrow> bool" +
  fixes owner :: "'s \<Rightarrow> 't option"
    and critical :: "'t \<Rightarrow> 's \<Rightarrow> bool"
  assumes critical_owner: "holds s \<Longrightarrow> critical t s \<Longrightarrow> owner s = Some t"
begin

lemma mutual_exclusion:
  assumes "step\<^sup>*\<^sup>* s s'" "init s" "critical t s'" "critical u s'"
  shows "t = u"
proof -
  have "holds s'" using assms(1,2) by (rule holds_reachable)
  from critical_owner [OF this assms(3)] critical_owner [OF this assms(4)] show ?thesis by simp
qed

end

text \<open>Runs are finite when every step from an invariant state decreases a measure.\<close>

locale bounded_run = inductive_invariant step init holds
  for step :: "'s \<Rightarrow> 's \<Rightarrow> bool" and init :: "'s \<Rightarrow> bool" and holds :: "'s \<Rightarrow> bool" +
  fixes remaining :: "'s \<Rightarrow> nat"
  assumes decreases: "step s s' \<Longrightarrow> holds s \<Longrightarrow> remaining s' < remaining s"
begin

lemma run_length: "(step ^^ k) s s' \<Longrightarrow> init s \<Longrightarrow> k + remaining s' \<le> remaining s \<and> holds s'"
proof (induction k arbitrary: s')
  case (Suc k)
  then obtain t where t: "(step ^^ k) s t" "step t s'" by auto
  from Suc.IH [OF t(1) Suc.prems(2)] have "k + remaining t \<le> remaining s" "holds t" by auto
  with decreases [OF t(2)] holds_step [OF t(2)] show ?case by auto
qed (auto intro: holds_init)

end

text \<open>From every good state a goal can be reached when some good step always leads closer to it.\<close>

locale possible_end = inductive_invariant step init holds
  for step :: "'s \<Rightarrow> 's \<Rightarrow> bool" and init :: "'s \<Rightarrow> bool" and holds :: "'s \<Rightarrow> bool" +
  fixes good :: "'s \<Rightarrow> bool"
    and goal :: "'s \<Rightarrow> bool"
    and distance :: "'s \<Rightarrow> nat"
  assumes advance: "holds s \<Longrightarrow> good s \<Longrightarrow> \<not> goal s \<Longrightarrow> \<exists>s'. step s s' \<and> good s' \<and> distance s' < distance s"
begin

lemma goal_from_invariant: "holds s \<Longrightarrow> good s \<Longrightarrow> \<exists>t. step\<^sup>*\<^sup>* s t \<and> good t \<and> goal t"
proof (induction "distance s" arbitrary: s rule: less_induct)
  case less
  show ?case
  proof (cases "goal s")
    case False
    then obtain s' where s': "step s s'" "good s'" "distance s' < distance s" using advance less.prems by blast
    then have "\<exists>t. step\<^sup>*\<^sup>* s' t \<and> good t \<and> goal t" using less.hyps less.prems holds_step by blast
    with s'(1) show ?thesis by (meson converse_rtranclp_into_rtranclp)
  qed (use less.prems in auto)
qed

lemma goal_possible: "step\<^sup>*\<^sup>* s\<^sub>0 s \<Longrightarrow> init s\<^sub>0 \<Longrightarrow> good s \<Longrightarrow> \<exists>t. step\<^sup>*\<^sup>* s t \<and> good t \<and> goal t"
  using goal_from_invariant holds_reachable by blast

end

end
