(* ===== verification/Allocator.thy ===== *)
theory Allocator
  imports Prelude
begin

text \<open>
  The fixed-buffer allocator of \<open>containers_allocators/allocator.cpp\<close>: the class
  \<open>SmallAllocator\<close> with its blocks, its three operations and the test program of
  \<open>main\<close>. Addresses are 64-bit values; the set of occupied blocks is ordered by the
  negated start index, so that \<open>lower_bound\<close> finds the last block that starts at or
  before an index.
\<close>

section \<open>Blocks\<close>

record memory_block =
  start :: int
  block_size :: nat

definition MAX_BUFFER_SIZE :: nat where
  "MAX_BUFFER_SIZE = 262144"

definition MemoryBlock :: "nat \<Rightarrow> nat \<Rightarrow> memory_block" where
  "MemoryBlock start_index sz =
     \<lparr>start = to_int32 (- to_int32 (int start_index)), block_size = sz\<rparr>"

text \<open>
  The constructor negates an \<open>int\<close>: undefined when the index converts to the least one. What it stores then has a
  defined negation, so that \<open>GetStart\<close> never overflows.
\<close>

definition block_defined :: "nat \<Rightarrow> bool" where
  "block_defined start_index \<longleftrightarrow> in_int (- to_int32 (int start_index))"

definition GetStart :: "memory_block \<Rightarrow> nat" where
  "GetStart b = to_size (to_int32 (- start b))"

definition GetEnd :: "memory_block \<Rightarrow> nat" where
  "GetEnd b = (GetStart b + block_size b) mod 2 ^ 64"

section \<open>The allocator\<close>

text \<open>
  \<open>buffer_addr\<close> is the address of the member \<open>buffer\<close>; the bytes of the buffer
  are indexed from it. The comparator \<open>memory_blocks_comparator\<close> orders by \<open>start\<close>.
\<close>

record small_allocator =
  buffer_addr :: nat
  buffer :: "nat \<Rightarrow> byte"
  first_free_index :: nat
  occupied_blocks :: "memory_block list"

definition SmallAllocator :: "nat \<Rightarrow> small_allocator" where
  "SmallAllocator addr =
     \<lparr>buffer_addr = addr, buffer = (\<lambda>_. 0), first_free_index = 0, occupied_blocks = []\<rparr>"

definition memory_blocks_comparator :: "memory_block \<Rightarrow> memory_block \<Rightarrow> bool" where
  "memory_blocks_comparator first second \<longleftrightarrow> start first < start second"

text \<open>The search loop of \<open>Alloc\<close>: the index it settles on, or the exception thrown after it breaks out.\<close>

function alloc_loop :: "memory_block list \<Rightarrow> u32 \<Rightarrow> nat \<Rightarrow> nat result" where
  "alloc_loop occupied Size current_index =
     (let new_block = MemoryBlock current_index (unat Size) in
      if \<not> block_defined current_index then Inl SignedOverflow
      else if GetEnd new_block \<ge> MAX_BUFFER_SIZE then Inl BadAlloc
      else case oset_lower_bound start (start new_block) occupied of
             [] \<Rightarrow> Inr current_index
           | it # _ \<Rightarrow>
               if GetEnd it \<le> current_index then Inr current_index
               else alloc_loop occupied Size (GetEnd it))"
  by pat_completeness auto
termination
proof (relation "measure (\<lambda>(occupied, Size, current_index). 2 ^ 64 - current_index)")
  fix occupied :: "memory_block list" and Size :: u32 and current_index :: nat
    and nb it r
  assume "\<not> GetEnd it \<le> current_index"
  moreover have "GetEnd it < 2 ^ 64" by (simp add: GetEnd_def)
  ultimately show "((occupied, Size, GetEnd it), (occupied, Size, current_index))
    \<in> measure (\<lambda>(occupied, Size, current_index). 2 ^ 64 - current_index)" by auto
qed simp

declare alloc_loop.simps [simp del]

definition Alloc :: "small_allocator \<Rightarrow> u32 \<Rightarrow> (small_allocator \<times> nat) result" where
  "Alloc A Size =
     bindE (alloc_loop (occupied_blocks A) Size (first_free_index A)) (\<lambda>current_index.
          let new_block = MemoryBlock current_index (unat Size) in
          Inr (A\<lparr>first_free_index :=
                  (if first_free_index A = current_index then GetEnd new_block
                   else first_free_index A),
                 occupied_blocks := oset_insert start new_block (occupied_blocks A)\<rparr>,
               (buffer_addr A + current_index) mod 2 ^ 64))"

definition pointer_index :: "small_allocator \<Rightarrow> nat \<Rightarrow> nat" where
  "pointer_index A pointer = to_size (int pointer - int (buffer_addr A))"

text \<open>The iterator: the blocks from it on, none when it is \<open>end()\<close>.\<close>

definition find_occupied_block :: "small_allocator \<Rightarrow> nat \<Rightarrow> memory_block list result" where
  "find_occupied_block A pointer =
     (if block_defined (pointer_index A pointer) then
        Inr (oset_lower_bound start (start (MemoryBlock (pointer_index A pointer) 1)) (occupied_blocks A))
      else Inl SignedOverflow)"

definition Free :: "small_allocator \<Rightarrow> nat \<Rightarrow> small_allocator result" where
  "Free A Pointer =
     bindE (find_occupied_block A Pointer) (\<lambda>iterator.
      case iterator of
        [] \<Rightarrow> Inl DerefEnd
      | it # _ \<Rightarrow>
          Inr (A\<lparr>first_free_index := min (GetStart it) (first_free_index A),
                 occupied_blocks := oset_erase start (start it) (occupied_blocks A)\<rparr>))"

text \<open>
  \<open>std::memcpy\<close> inside the buffer: defined only when both ranges lie in the buffer and
  do not overlap.
\<close>

definition buffer_memcpy :: "small_allocator \<Rightarrow> nat \<Rightarrow> nat \<Rightarrow> nat \<Rightarrow> small_allocator result" where
  "buffer_memcpy A dst src n =
     (if MAX_BUFFER_SIZE < dst + n \<or> MAX_BUFFER_SIZE < src + n then Inl OutOfBounds
      else if 0 < n \<and> dst < src + n \<and> src < dst + n then Inl MemcpyOverlap
      else Inr (A\<lparr>buffer := (\<lambda>j. if dst \<le> j \<and> j < dst + n then buffer A (src + (j - dst))
                                   else buffer A j)\<rparr>))"

definition ReAlloc :: "small_allocator \<Rightarrow> nat \<Rightarrow> u32 \<Rightarrow> (small_allocator \<times> nat) result" where
  "ReAlloc A Pointer Size =
     bindE (find_occupied_block A Pointer) (\<lambda>iterator.
      case iterator of
        [] \<Rightarrow> Inl DerefEnd
      | it # _ \<Rightarrow>
          bindE (Alloc A Size) (\<lambda>(A1, new_pointer).
          bindE (buffer_memcpy A1 (pointer_index A new_pointer) (pointer_index A Pointer)
                   (min (unat Size) (block_size it))) (\<lambda>A2.
          bindE (Free A2 Pointer) (\<lambda>A3. Inr (A3, new_pointer)))))"

section \<open>The test program\<close>

text \<open>
  Accesses through \<open>int *\<close> pointers into the buffer: four bytes, least significant first.
\<close>

definition write_int :: "nat \<Rightarrow> nat \<Rightarrow> int \<Rightarrow> small_allocator \<Rightarrow> small_allocator result" where
  "write_int p i v A =
     (let k = pointer_index A p + 4 * i in
      if MAX_BUFFER_SIZE < k + 4 then Inl OutOfBounds
      else Inr (A\<lparr>buffer := (buffer A)
                   (k := word_of_int v,
                    k + 1 := word_of_int (v div 2 ^ 8),
                    k + 2 := word_of_int (v div 2 ^ 16),
                    k + 3 := word_of_int (v div 2 ^ 24))\<rparr>))"

definition read_int :: "nat \<Rightarrow> nat \<Rightarrow> small_allocator \<Rightarrow> int result" where
  "read_int p i A =
     (let k = pointer_index A p + 4 * i; b = (\<lambda>j. uint (buffer A (k + j))) in
      if MAX_BUFFER_SIZE < k + 4 then Inl OutOfBounds
      else Inr (to_int32 (b 0 + 2 ^ 8 * b 1 + 2 ^ 16 * b 2 + 2 ^ 24 * b 3)))"

text \<open>\<open>for (unsigned int i = lo; i < hi; i++) P[i] = v(i);\<close>\<close>

fun write_loop :: "nat \<Rightarrow> (nat \<Rightarrow> int) \<Rightarrow> nat list \<Rightarrow> small_allocator \<Rightarrow> small_allocator result" where
  "write_loop p v [] A = Inr A"
| "write_loop p v (i # is) A = bindE (write_int p i (v i) A) (write_loop p v is)"

text \<open>\<open>for (unsigned int i = lo; i < hi; i++) if(P[i] != v(i)) std::cout << msg << std::endl;\<close>\<close>

fun check_loop :: "nat \<Rightarrow> (nat \<Rightarrow> int) \<Rightarrow> string \<Rightarrow> nat list \<Rightarrow> small_allocator \<Rightarrow> string result" where
  "check_loop p v msg [] A = Inr []"
| "check_loop p v msg (i # is) A =
     bindE (read_int p i A) (\<lambda>x.
     bindE (check_loop p v msg is A) (\<lambda>out.
     Inr ((if x \<noteq> v i then msg @ [CHR 0x0A] else []) @ out)))"

text \<open>
  \<open>main\<close>, for allocators at addresses \<open>a1\<close> and \<open>a2\<close>: what it prints, and the two
  allocators at the end.
\<close>

definition allocator_main :: "nat \<Rightarrow> nat \<Rightarrow> (string \<times> small_allocator \<times> small_allocator) result" where
  "allocator_main a1 a2 =
     bindE (Alloc (SmallAllocator a1) 4) (\<lambda>(A1, A1_P1).
     bindE (ReAlloc A1 A1_P1 (2 * 4)) (\<lambda>(A1, A1_P1).
     bindE (Free A1 A1_P1) (\<lambda>A1.
     bindE (Alloc (SmallAllocator a2) (10 * 4)) (\<lambda>(A2, A2_P1).
     bindE (write_loop A2_P1 int [0..<10] A2) (\<lambda>A2.
     bindE (check_loop A2_P1 int ''ERROR 1'' [0..<10] A2) (\<lambda>o1.
     bindE (Alloc A2 (10 * 4)) (\<lambda>(A2, A2_P2).
     bindE (write_loop A2_P2 (\<lambda>_. -1) [0..<10] A2) (\<lambda>A2.
     bindE (check_loop A2_P1 int ''ERROR 2'' [0..<10] A2) (\<lambda>o2.
     bindE (check_loop A2_P2 (\<lambda>_. -1) ''ERROR 3'' [0..<10] A2) (\<lambda>o3.
     bindE (ReAlloc A2 A2_P1 (20 * 4)) (\<lambda>(A2, A2_P1).
     bindE (write_loop A2_P1 int [10..<20] A2) (\<lambda>A2.
     bindE (check_loop A2_P1 int ''ERROR 4'' [0..<20] A2) (\<lambda>o4.
     bindE (check_loop A2_P2 (\<lambda>_. -1) ''ERROR 5'' [0..<10] A2) (\<lambda>o5.
     bindE (ReAlloc A2 A2_P1 (5 * 4)) (\<lambda>(A2, A2_P1).
     bindE (check_loop A2_P1 int ''ERROR 6'' [0..<5] A2) (\<lambda>o6.
     bindE (check_loop A2_P2 (\<lambda>_. -1) ''ERROR 7'' [0..<10] A2) (\<lambda>o7.
     bindE (Free A2 A2_P1) (\<lambda>A2.
     bindE (Free A2 A2_P2) (\<lambda>A2.
     Inr (o1 @ o2 @ o3 @ o4 @ o5 @ o6 @ o7, A1, A2))))))))))))))))))))"

section \<open>Well-formed allocators\<close>

definition valid_block :: "memory_block \<Rightarrow> bool" where
  "valid_block b \<longleftrightarrow> start b \<le> 0 \<and> nat (- start b) + block_size b < MAX_BUFFER_SIZE"

definition alloc_inv :: "small_allocator \<Rightarrow> bool" where
  "alloc_inv A \<longleftrightarrow> oset_inv start (occupied_blocks A) \<and>
     (\<forall>b \<in> set (occupied_blocks A). valid_block b) \<and>
     first_free_index A < MAX_BUFFER_SIZE \<and>
     buffer_addr A + MAX_BUFFER_SIZE \<le> 2 ^ 64"

definition covered :: "small_allocator \<Rightarrow> nat \<Rightarrow> bool" where
  "covered A j \<longleftrightarrow> (\<exists>b \<in> set (occupied_blocks A). GetStart b \<le> j \<and> j < GetEnd b)"

definition apart :: "memory_block \<Rightarrow> memory_block \<Rightarrow> bool" where
  "apart b c \<longleftrightarrow> GetEnd b \<le> GetStart c \<or> GetEnd c \<le> GetStart b"

definition blocks_disjoint :: "small_allocator \<Rightarrow> bool" where
  "blocks_disjoint A \<longleftrightarrow>
     (\<forall>b \<in> set (occupied_blocks A). \<forall>c \<in> set (occupied_blocks A). b \<noteq> c \<longrightarrow> apart b c)"

definition blocks_positive :: "small_allocator \<Rightarrow> bool" where
  "blocks_positive A \<longleftrightarrow> (\<forall>b \<in> set (occupied_blocks A). 0 < block_size b)"

definition prefix_full :: "small_allocator \<Rightarrow> bool" where
  "prefix_full A \<longleftrightarrow> (\<forall>j < first_free_index A. covered A j)"

definition packed :: "small_allocator \<Rightarrow> bool" where
  "packed A \<longleftrightarrow> (\<forall>b \<in> set (occupied_blocks A). GetEnd b \<le> first_free_index A)"

definition first_free_byte :: "small_allocator \<Rightarrow> nat \<Rightarrow> bool" where
  "first_free_byte A i \<longleftrightarrow> \<not> covered A i \<and> (\<forall>j < i. covered A j)"

named_theorems block_simps \<open>reading blocks that lie in the buffer\<close>

lemma MemoryBlock_sel [block_simps]:
  assumes "i < MAX_BUFFER_SIZE"
  shows "start (MemoryBlock i n) = - int i" and "block_size (MemoryBlock i n) = n"
proof -
  have "in_int (int i)" "in_int (- int i)"
    using assms by (auto simp: in_int_def MAX_BUFFER_SIZE_def)
  then show "start (MemoryBlock i n) = - int i" and "block_size (MemoryBlock i n) = n"
    by (simp_all add: MemoryBlock_def)
qed

lemma block_defined_buffer [simp]: "i < MAX_BUFFER_SIZE \<Longrightarrow> block_defined i"
  by (simp add: block_defined_def in_int_def MAX_BUFFER_SIZE_def)

text \<open>The negation in \<open>GetStart\<close> is defined on every block the constructor can make.\<close>

lemma GetStart_defined: "block_defined i \<Longrightarrow> in_int (- start (MemoryBlock i n))"
  using pos_mod_bound [of "2 ^ 32" "int i + 2 ^ 31"] pos_mod_sign [of "2 ^ 32" "int i + 2 ^ 31"]
  by (simp add: block_defined_def MemoryBlock_def) (simp add: in_int_def to_int32_def)

lemma GetStart_valid: "valid_block b \<Longrightarrow> GetStart b = nat (- start b)"
proof -
  assume v: "valid_block b"
  then have "in_int (- start b)"
    by (auto simp: valid_block_def MAX_BUFFER_SIZE_def in_int_def)
  moreover have "- start b = int (nat (- start b))" "nat (- start b) < 2 ^ 64"
    using v by (auto simp: valid_block_def MAX_BUFFER_SIZE_def)
  ultimately show ?thesis by (metis GetStart_def to_int32_id to_size_of_nat)
qed

lemma GetEnd_valid: "valid_block b \<Longrightarrow> GetEnd b = GetStart b + block_size b"
  by (auto simp: GetEnd_def GetStart_valid valid_block_def MAX_BUFFER_SIZE_def)

lemma GetEnd_valid_less: "valid_block b \<Longrightarrow> GetEnd b < MAX_BUFFER_SIZE"
  by (simp add: GetEnd_valid GetStart_valid valid_block_def)

lemma start_valid: "valid_block b \<Longrightarrow> start b = - int (GetStart b)"
  by (simp add: GetStart_valid valid_block_def)

lemma GetStart_MemoryBlock [block_simps]:
  assumes "i < MAX_BUFFER_SIZE"
  shows "GetStart (MemoryBlock i n) = i"
proof -
  have "in_int (int i)" using assms by (simp add: in_int_def MAX_BUFFER_SIZE_def)
  moreover have "i < 2 ^ 64" using assms by (simp add: MAX_BUFFER_SIZE_def)
  ultimately show ?thesis by (simp add: GetStart_def MemoryBlock_sel [OF assms])
qed

lemma GetEnd_MemoryBlock [block_simps]:
  assumes "i < MAX_BUFFER_SIZE"
  shows "GetEnd (MemoryBlock i (unat (n :: u32))) = i + unat n"
proof -
  have "i + unat n < 2 ^ 64" using assms unat_u32_less [of n] by (simp add: MAX_BUFFER_SIZE_def)
  then show ?thesis
    by (simp add: GetEnd_def GetStart_MemoryBlock [OF assms] MemoryBlock_sel(2) [OF assms])
qed

lemma valid_MemoryBlock:
  "i < MAX_BUFFER_SIZE \<Longrightarrow> valid_block (MemoryBlock i n) \<longleftrightarrow> i + n < MAX_BUFFER_SIZE"
  by (simp add: valid_block_def block_simps)

lemma memory_blocks_comparator_order:
  "oset_inv start bs \<longleftrightarrow> sorted_wrt memory_blocks_comparator bs"
  by (simp add: oset_inv_def sorted_wrt_map memory_blocks_comparator_def [abs_def])

lemma alloc_invD:
  assumes "alloc_inv A"
  shows "oset_inv start (occupied_blocks A)"
    and "b \<in> set (occupied_blocks A) \<Longrightarrow> valid_block b"
    and "first_free_index A < MAX_BUFFER_SIZE"
    and "buffer_addr A + MAX_BUFFER_SIZE \<le> 2 ^ 64"
  using assms by (auto simp: alloc_inv_def)

text \<open>Two live blocks that start at the same index are the same block.\<close>

lemma block_eqI:
  assumes "alloc_inv A" "b \<in> set (occupied_blocks A)" "c \<in> set (occupied_blocks A)"
    and "GetStart b = GetStart c"
  shows "b = c"
proof -
  have "start b = start c"
    using assms start_valid alloc_invD(2) by metis
  with oset_inv_inj [OF alloc_invD(1) [OF assms(1)]] assms(2,3) show ?thesis
    by (auto dest: inj_onD)
qed

subsection \<open>Looking blocks up\<close>

text \<open>
  On a well-formed allocator, \<open>lower_bound\<close> finds the live block with the greatest start
  not beyond the index.
\<close>

lemma lower_bound_None:
  assumes "alloc_inv A" "i < MAX_BUFFER_SIZE"
  shows "oset_lower_bound start (start (MemoryBlock i n)) (occupied_blocks A) = [] \<longleftrightarrow>
    (\<forall>b \<in> set (occupied_blocks A). i < GetStart b)"
  using assms(1)
  by (auto simp: oset_lower_bound_Nil MemoryBlock_sel [OF assms(2)] start_valid alloc_invD)

lemma lower_bound_Some:
  assumes "alloc_inv A" "i < MAX_BUFFER_SIZE"
    and "oset_lower_bound start (start (MemoryBlock i n)) (occupied_blocks A) = it # r"
  shows "it \<in> set (occupied_blocks A)" and "GetStart it \<le> i"
    and "\<forall>b \<in> set (occupied_blocks A). GetStart b \<le> i \<longrightarrow> GetStart b \<le> GetStart it"
proof -
  note lb = oset_lower_bound_Cons [OF alloc_invD(1) [OF assms(1)] assms(3)]
  show it: "it \<in> set (occupied_blocks A)" by (rule lb(1))
  note v = alloc_invD(2) [OF assms(1)]
  show "GetStart it \<le> i" using lb(2) start_valid [OF v [OF it]]
    by (simp add: MemoryBlock_sel [OF assms(2)])
  show "\<forall>b \<in> set (occupied_blocks A). GetStart b \<le> i \<longrightarrow> GetStart b \<le> GetStart it"
    using lb(3) start_valid [OF v [OF it]] start_valid [OF v]
    by (fastforce simp: MemoryBlock_sel [OF assms(2)])
qed

lemma pointer_index_id:
  assumes "alloc_inv A" "i < MAX_BUFFER_SIZE"
  shows "(buffer_addr A + i) mod 2 ^ 64 = buffer_addr A + i"
    and "pointer_index A (buffer_addr A + i) = i"
proof -
  have "buffer_addr A + i < 2 ^ 64" using alloc_invD(4) [OF assms(1)] assms(2) by simp
  then show "(buffer_addr A + i) mod 2 ^ 64 = buffer_addr A + i" by simp
  have "i < 2 ^ 64" using assms(2) by (simp add: MAX_BUFFER_SIZE_def)
  then show "pointer_index A (buffer_addr A + i) = i" by (simp add: pointer_index_def)
qed

lemma find_live_block:
  assumes "alloc_inv A" "b \<in> set (occupied_blocks A)"
  shows "\<exists>r. find_occupied_block A (buffer_addr A + GetStart b) = Inr (b # r)"
proof -
  have i: "GetStart b < MAX_BUFFER_SIZE"
    using alloc_invD(2) [OF assms] GetEnd_valid_less GetEnd_valid by fastforce
  let ?lb = "oset_lower_bound start (start (MemoryBlock (GetStart b) 1)) (occupied_blocks A)"
  have "?lb \<noteq> []" using lower_bound_None [OF assms(1) i] assms(2) by auto
  then obtain it r where lb: "?lb = it # r" by (cases ?lb) auto
  note s = lower_bound_Some [OF assms(1) i lb]
  have "GetStart it = GetStart b" using s(2,3) assms(2) by (auto intro: antisym)
  with block_eqI [OF assms(1) s(1) assms(2)] lb show ?thesis
    by (simp add: find_occupied_block_def pointer_index_id [OF assms(1) i] i)
qed

section \<open>The search for a free index\<close>

lemma alloc_loop_unfold:
  assumes "alloc_inv A" "cur < MAX_BUFFER_SIZE"
  shows "alloc_loop (occupied_blocks A) Size cur =
     (if MAX_BUFFER_SIZE \<le> cur + unat Size then Inl BadAlloc
      else case oset_lower_bound start (start (MemoryBlock cur (unat Size))) (occupied_blocks A) of
             [] \<Rightarrow> Inr cur
           | it # _ \<Rightarrow> if GetEnd it \<le> cur then Inr cur
                      else alloc_loop (occupied_blocks A) Size (GetEnd it))"
  by (subst alloc_loop.simps) (simp add: Let_def GetEnd_MemoryBlock [OF assms(2)] assms(2))

text \<open>
  The search moves forward over covered bytes only, and what it returns leaves room for
  the block.
\<close>

lemma alloc_loop_bounds:
  assumes "alloc_inv A" "cur < MAX_BUFFER_SIZE"
    and "alloc_loop (occupied_blocks A) Size cur = Inr i"
  shows "cur \<le> i \<and> i + unat Size < MAX_BUFFER_SIZE \<and> (\<forall>j. cur \<le> j \<and> j < i \<longrightarrow> covered A j) \<and>
    (\<forall>b \<in> set (occupied_blocks A). GetStart b = i \<longrightarrow> GetEnd b \<le> i)"
  using assms(2,3)
proof (induction "occupied_blocks A" Size cur rule: alloc_loop.induct)
  case (1 Size cur)
  let ?lb = "oset_lower_bound start (start (MemoryBlock cur (unat Size))) (occupied_blocks A)"
  note unf = alloc_loop_unfold [OF assms(1) "1.prems"(1), of Size]
  from unf "1.prems"(2) have fits: "cur + unat Size < MAX_BUFFER_SIZE"
    by (auto split: if_splits)
  show ?case
  proof (cases "\<exists>it r. ?lb = it # r \<and> cur < GetEnd it")
    case False
    with unf "1.prems"(2) fits have "i = cur"
      by (auto split: if_splits list.splits)
    moreover have "GetEnd b \<le> cur" if b: "b \<in> set (occupied_blocks A)" "GetStart b = cur" for b
    proof -
      obtain it r where lb: "?lb = it # r"
        using lower_bound_None [OF assms(1) "1.prems"(1), of "unat Size"] b by (cases ?lb) auto
      note it = lower_bound_Some [OF assms(1) "1.prems"(1) lb]
      have "it = b" using block_eqI [OF assms(1) it(1) b(1)] it(2,3) b by (metis antisym order_refl)
      with lb False show ?thesis by (auto simp: not_less)
    qed
    ultimately show ?thesis using fits by auto
  next
    case True
    then obtain it r where lb: "?lb = it # r" and less: "cur < GetEnd it" by blast
    note it = lower_bound_Some [OF assms(1) "1.prems"(1) lb]
    have e: "GetEnd it < MAX_BUFFER_SIZE"
      using alloc_invD(2) [OF assms(1) it(1)] by (rule GetEnd_valid_less)
    have "alloc_loop (occupied_blocks A) Size (GetEnd it) = Inr i"
      using unf "1.prems"(2) fits lb less by simp
    with "1.hyps" [OF refl _ _ lb _ e] fits less "1.prems"(1)
    have IH: "GetEnd it \<le> i \<and> i + unat Size < MAX_BUFFER_SIZE \<and>
      (\<forall>j. GetEnd it \<le> j \<and> j < i \<longrightarrow> covered A j) \<and>
      (\<forall>b \<in> set (occupied_blocks A). GetStart b = i \<longrightarrow> GetEnd b \<le> i)"
      by (simp add: GetEnd_MemoryBlock)
    moreover have "covered A j" if "cur \<le> j" "j < GetEnd it" for j
      using that it(1,2) by (meson covered_def le_trans)
    ultimately show ?thesis using less by (meson le_trans less_imp_le not_le)
  qed
qed

text \<open>
  On disjoint blocks the search is exact: it stops at the first byte no live block covers.
\<close>

lemma lower_bound_covering:
  assumes "alloc_inv A" "blocks_disjoint A" "cur < MAX_BUFFER_SIZE"
    and "c \<in> set (occupied_blocks A)" "GetStart c \<le> cur" "cur < GetEnd c"
  shows "\<exists>r. oset_lower_bound start (start (MemoryBlock cur n)) (occupied_blocks A) = c # r"
proof -
  let ?lb = "oset_lower_bound start (start (MemoryBlock cur n)) (occupied_blocks A)"
  have "?lb \<noteq> []" using lower_bound_None [OF assms(1,3)] assms(4,5) leD by blast
  then obtain it r where lb: "?lb = it # r" by (cases ?lb) auto
  note s = lower_bound_Some [OF assms(1,3) lb]
  have "it = c"
  proof (rule ccontr)
    assume "it \<noteq> c"
    with assms(2,4) s(1) have "apart it c" by (auto simp: blocks_disjoint_def)
    moreover have "GetStart c \<le> GetStart it" using s(3) assms(4,5) by blast
    moreover have "GetStart it \<le> GetEnd it"
      using GetEnd_valid [OF alloc_invD(2) [OF assms(1) s(1)]] by simp
    ultimately have "GetStart it = GetStart c" using s(2) assms(6) by (auto simp: apart_def)
    with block_eqI [OF assms(1) s(1) assms(4)] \<open>it \<noteq> c\<close> show False by blast
  qed
  with lb show ?thesis by blast
qed

lemma alloc_loop_first_free:
  assumes "alloc_inv A" "blocks_disjoint A" "first_free_byte A i" "i < MAX_BUFFER_SIZE"
    and "cur \<le> i"
  shows "alloc_loop (occupied_blocks A) Size cur =
    (if MAX_BUFFER_SIZE \<le> i + unat Size then Inl BadAlloc else Inr i)"
  using assms(5)
proof (induction "occupied_blocks A" Size cur rule: alloc_loop.induct)
  case (1 Size cur)
  let ?lb = "oset_lower_bound start (start (MemoryBlock cur (unat Size))) (occupied_blocks A)"
  have cur: "cur < MAX_BUFFER_SIZE" using "1.prems" assms(4) by simp
  note unf = alloc_loop_unfold [OF assms(1) cur, of Size]
  show ?case
  proof (cases "cur = i")
    case True
    have "GetEnd it \<le> i" if "?lb = it # r" for it r
      using lower_bound_Some(1,2) [OF assms(1) cur that] assms(3) True
      by (auto simp: first_free_byte_def covered_def not_less)
    with unf True show ?thesis by (auto split: list.splits)
  next
    case False
    with "1.prems" assms(3) have "covered A cur" by (simp add: first_free_byte_def)
    then obtain c where c: "c \<in> set (occupied_blocks A)" "GetStart c \<le> cur" "cur < GetEnd c"
      by (auto simp: covered_def)
    from lower_bound_covering [OF assms(1,2) cur c] obtain r where lb: "?lb = c # r" by blast
    have "GetEnd c \<le> i"
      using assms(3) c(1,2) "1.prems" by (force simp: first_free_byte_def covered_def)
    with "1.hyps" [OF refl _ _ lb] c(3) cur unf lb "1.prems" show ?thesis
      by (auto simp: GetEnd_MemoryBlock)
  qed
qed

section \<open>The operations\<close>

lemma Alloc_InrE:
  assumes "alloc_inv A" "Alloc A Size = Inr (A', p)"
  obtains i where "p = buffer_addr A + i" "i + unat Size < MAX_BUFFER_SIZE"
    "first_free_index A \<le> i" "\<forall>j. first_free_index A \<le> j \<and> j < i \<longrightarrow> covered A j"
    "\<forall>b \<in> set (occupied_blocks A). GetStart b = i \<longrightarrow> GetEnd b \<le> i"
    "alloc_loop (occupied_blocks A) Size (first_free_index A) = Inr i"
    "A' = A\<lparr>first_free_index := (if first_free_index A = i then i + unat Size
                                   else first_free_index A),
            occupied_blocks := oset_insert start (MemoryBlock i (unat Size)) (occupied_blocks A)\<rparr>"
proof -
  obtain i where i: "alloc_loop (occupied_blocks A) Size (first_free_index A) = Inr i"
    using assms(2) by (auto simp: Alloc_def bindE_Inr_iff)
  note b = alloc_loop_bounds [OF assms(1) alloc_invD(3) [OF assms(1)] i]
  then have lt: "i < MAX_BUFFER_SIZE" by simp
  from assms(2) i pointer_index_id(1) [OF assms(1) lt] GetEnd_MemoryBlock [OF lt, of Size]
  have "p = buffer_addr A + i"
    "A' = A\<lparr>first_free_index := (if first_free_index A = i then i + unat Size
                                   else first_free_index A),
            occupied_blocks := oset_insert start (MemoryBlock i (unat Size)) (occupied_blocks A)\<rparr>"
    by (auto simp: Alloc_def Let_def)
  with b i that show ?thesis by blast
qed

lemma Free_InrE:
  assumes "alloc_inv A" "Free A p = Inr A'"
  obtains it where "it \<in> set (occupied_blocks A)"
    "A' = A\<lparr>first_free_index := min (GetStart it) (first_free_index A),
            occupied_blocks := oset_erase start (start it) (occupied_blocks A)\<rparr>"
proof -
  obtain it r where lb: "find_occupied_block A p = Inr (it # r)"
    and A': "A' = A\<lparr>first_free_index := min (GetStart it) (first_free_index A),
            occupied_blocks := oset_erase start (start it) (occupied_blocks A)\<rparr>"
    using assms(2) by (cases "find_occupied_block A p") (auto simp: Free_def split: list.splits)
  have "it \<in> set (occupied_blocks A)"
    using oset_lower_bound_Cons(1) [OF alloc_invD(1) [OF assms(1)]] lb
    by (simp add: find_occupied_block_def split: if_splits)
  with A' that show ?thesis by blast
qed

lemma Free_live:
  assumes "alloc_inv A" "b \<in> set (occupied_blocks A)"
  shows "Free A (buffer_addr A + GetStart b) =
    Inr (A\<lparr>first_free_index := min (GetStart b) (first_free_index A),
           occupied_blocks := oset_erase start (start b) (occupied_blocks A)\<rparr>)"
  using find_live_block [OF assms] by (auto simp: Free_def)

lemma buffer_memcpy_InrE:
  assumes "buffer_memcpy A dst src n = Inr A'"
  obtains f where "A' = A\<lparr>buffer := f\<rparr>"
    "\<forall>k < n. f (dst + k) = buffer A (src + k)" "\<forall>j. j < dst \<or> dst + n \<le> j \<longrightarrow> f j = buffer A j"
  using assms by (auto simp: buffer_memcpy_def split: if_splits)

lemma alloc_inv_buffer [simp]: "alloc_inv (A\<lparr>buffer := f\<rparr>) = alloc_inv A"
  and blocks_positive_buffer [simp]: "blocks_positive (A\<lparr>buffer := f\<rparr>) = blocks_positive A"
  and prefix_full_buffer [simp]: "prefix_full (A\<lparr>buffer := f\<rparr>) = prefix_full A"
  by (simp_all add: alloc_inv_def blocks_positive_def prefix_full_def covered_def)

lemma ReAlloc_InrE:
  assumes "ReAlloc A p Size = Inr (A', q)"
  obtains A1 f where "Alloc A Size = Inr (A1, q)" "Free (A1\<lparr>buffer := f\<rparr>) p = Inr A'"
  using assms by (cases "find_occupied_block A p")
    (auto simp: ReAlloc_def bindE_Inr_iff split: list.splits elim!: buffer_memcpy_InrE)

subsection \<open>Every operation keeps the allocator well-formed\<close>

lemma set_insert_block:
  assumes "alloc_inv A" "i + n < MAX_BUFFER_SIZE"
  shows "set (oset_insert start (MemoryBlock i n) (occupied_blocks A))
    \<subseteq> insert (MemoryBlock i n) (set (occupied_blocks A))"
  using oset.elems_ins [OF alloc_invD(1) [OF assms(1)], of "MemoryBlock i n"] by auto

lemma Alloc_alloc_inv:
  assumes "alloc_inv A" "Alloc A Size = Inr (A', p)"
  shows "alloc_inv A'"
proof -
  obtain i where i: "i + unat Size < MAX_BUFFER_SIZE" and
    A': "A' = A\<lparr>first_free_index := (if first_free_index A = i then i + unat Size
                                      else first_free_index A),
            occupied_blocks := oset_insert start (MemoryBlock i (unat Size)) (occupied_blocks A)\<rparr>"
    using assms by (rule Alloc_InrE)
  have "valid_block (MemoryBlock i (unat Size))" using i by (simp add: valid_MemoryBlock)
  with set_insert_block [OF assms(1) i] i assms(1) show ?thesis
    by (auto simp: alloc_inv_def A')
qed

lemma Free_alloc_inv:
  assumes "alloc_inv A" "Free A p = Inr A'"
  shows "alloc_inv A'"
proof -
  obtain it where "A' = A\<lparr>first_free_index := min (GetStart it) (first_free_index A),
            occupied_blocks := oset_erase start (start it) (occupied_blocks A)\<rparr>"
    using assms by (rule Free_InrE)
  with assms(1) show ?thesis
    by (auto simp: alloc_inv_def oset_erase_def oset_inv_filter)
qed

lemma ReAlloc_alloc_inv:
  assumes "alloc_inv A" "ReAlloc A p Size = Inr (A', q)"
  shows "alloc_inv A'"
proof -
  obtain A1 f where 1: "Alloc A Size = Inr (A1, q)" "Free (A1\<lparr>buffer := f\<rparr>) p = Inr A'"
    using assms(2) by (rule ReAlloc_InrE)
  have "alloc_inv (A1\<lparr>buffer := f\<rparr>)" using Alloc_alloc_inv [OF assms(1) 1(1)] by simp
  then show ?thesis using 1(2) by (rule Free_alloc_inv)
qed

text \<open>What \<open>Alloc\<close> and \<open>Free\<close> do to the set of live blocks.\<close>

lemma Alloc_blocks:
  assumes "alloc_inv A" "blocks_positive A" "Alloc A Size = Inr (A', p)"
  obtains i where "p = buffer_addr A + i" "i + unat Size < MAX_BUFFER_SIZE"
    "\<forall>j. first_free_index A \<le> j \<and> j < i \<longrightarrow> covered A j"
    "\<forall>b \<in> set (occupied_blocks A). GetStart b \<noteq> i"
    "set (occupied_blocks A') = insert (MemoryBlock i (unat Size)) (set (occupied_blocks A))"
    "first_free_index A' = (if first_free_index A = i then i + unat Size else first_free_index A)"
    "buffer_addr A' = buffer_addr A" "buffer A' = buffer A"
proof -
  obtain i where i: "p = buffer_addr A + i" "i + unat Size < MAX_BUFFER_SIZE"
    "\<forall>j. first_free_index A \<le> j \<and> j < i \<longrightarrow> covered A j"
    "\<forall>b \<in> set (occupied_blocks A). GetStart b = i \<longrightarrow> GetEnd b \<le> i" and
    A': "A' = A\<lparr>first_free_index := (if first_free_index A = i then i + unat Size
                                      else first_free_index A),
            occupied_blocks := oset_insert start (MemoryBlock i (unat Size)) (occupied_blocks A)\<rparr>"
    using assms(1,3) by (rule Alloc_InrE)
  have lt: "i < MAX_BUFFER_SIZE" using i(2) by simp
  have new: "GetStart b \<noteq> i" if b: "b \<in> set (occupied_blocks A)" for b
  proof -
    have "GetEnd b = GetStart b + block_size b" "0 < block_size b"
      using GetEnd_valid [OF alloc_invD(2) [OF assms(1) b]] assms(2) b
      by (auto simp: blocks_positive_def)
    with i(4) b show ?thesis by (metis less_add_same_cancel1 not_le)
  qed
  have "start b \<noteq> start (MemoryBlock i (unat Size))" if b: "b \<in> set (occupied_blocks A)" for b
    using new [OF b] start_valid [OF alloc_invD(2) [OF assms(1) b]]
    by (simp add: MemoryBlock_sel [OF lt])
  then have "start (MemoryBlock i (unat Size)) \<notin> start ` set (occupied_blocks A)" by force
  then have "set (occupied_blocks A') = insert (MemoryBlock i (unat Size)) (set (occupied_blocks A))"
    by (simp add: A' oset.elems_ins [OF alloc_invD(1) [OF assms(1)]])
  with i new A' that show ?thesis by auto
qed

lemma Free_blocks:
  assumes "alloc_inv A" "Free A p = Inr A'"
  obtains it where "it \<in> set (occupied_blocks A)"
    "set (occupied_blocks A') = set (occupied_blocks A) - {it}"
    "first_free_index A' = min (GetStart it) (first_free_index A)"
    "buffer_addr A' = buffer_addr A" "buffer A' = buffer A"
proof -
  obtain it where it: "it \<in> set (occupied_blocks A)" and
    A': "A' = A\<lparr>first_free_index := min (GetStart it) (first_free_index A),
            occupied_blocks := oset_erase start (start it) (occupied_blocks A)\<rparr>"
    using assms by (rule Free_InrE)
  have "set (occupied_blocks A') = set (occupied_blocks A) - {it}"
    using oset.key_inj [OF alloc_invD(1) [OF assms(1)]] it
    by (auto simp: A' oset.elems_ers [OF alloc_invD(1) [OF assms(1)]] dest: inj_onD)
  with it A' that show ?thesis by auto
qed

lemma Alloc_positive:
  assumes "alloc_inv A" "blocks_positive A" "0 < Size" "Alloc A Size = Inr (A', p)"
  shows "blocks_positive A'"
proof -
  obtain i where "i + unat Size < MAX_BUFFER_SIZE"
    "set (occupied_blocks A') = insert (MemoryBlock i (unat Size)) (set (occupied_blocks A))"
    using assms(1,2,4) by (rule Alloc_blocks)
  moreover have "0 < unat Size" using assms(3) by (simp add: word_less_nat_alt)
  ultimately show ?thesis using assms(2) by (auto simp: blocks_positive_def MemoryBlock_sel)
qed

lemma Alloc_prefix_full:
  assumes "alloc_inv A" "blocks_positive A" "prefix_full A" "Alloc A Size = Inr (A', p)"
  shows "prefix_full A'"
proof -
  obtain i where i: "i + unat Size < MAX_BUFFER_SIZE"
    "set (occupied_blocks A') = insert (MemoryBlock i (unat Size)) (set (occupied_blocks A))"
    "first_free_index A' = (if first_free_index A = i then i + unat Size else first_free_index A)"
    using assms(1,2,4) by (rule Alloc_blocks)
  have old: "covered A' j" if "j < first_free_index A" for j
    using assms(3) that i(2) by (auto simp: prefix_full_def covered_def)
  have new: "covered A' j" if "i \<le> j" "j < i + unat Size" for j
    using that i by (auto simp: covered_def GetStart_MemoryBlock GetEnd_MemoryBlock)
  show ?thesis
    unfolding prefix_full_def i(3) using old new by (metis not_le)
qed

lemma Free_positive:
  assumes "alloc_inv A" "blocks_positive A" "Free A p = Inr A'"
  shows "blocks_positive A'"
  using Free_blocks [OF assms(1,3)] assms(2) unfolding blocks_positive_def by (metis DiffD1)

lemma Free_prefix_full:
  assumes "alloc_inv A" "prefix_full A" "Free A p = Inr A'"
  shows "prefix_full A'"
proof -
  obtain it where it: "set (occupied_blocks A') = set (occupied_blocks A) - {it}"
    "first_free_index A' = min (GetStart it) (first_free_index A)"
    using assms(1,3) by (rule Free_blocks)
  have "covered A' j" if j: "j < GetStart it" "j < first_free_index A" for j
  proof -
    obtain b where "b \<in> set (occupied_blocks A)" "GetStart b \<le> j" "j < GetEnd b"
      using assms(2) j(2) by (auto simp: prefix_full_def covered_def)
    with j(1) it(1) show ?thesis by (auto simp: covered_def)
  qed
  with it(2) show ?thesis by (simp add: prefix_full_def)
qed

section \<open>Reachable allocators\<close>

text \<open>A client that requests non-empty blocks and frees or reallocates any pointer.\<close>

inductive alloc_step :: "small_allocator \<Rightarrow> small_allocator \<Rightarrow> bool" where
  alloc: "0 < Size \<Longrightarrow> Alloc A Size = Inr (A', p) \<Longrightarrow> alloc_step A A'"
| realloc: "0 < Size \<Longrightarrow> ReAlloc A p Size = Inr (A', q) \<Longrightarrow> alloc_step A A'"
| free: "Free A p = Inr A' \<Longrightarrow> alloc_step A A'"

definition alloc_wf :: "small_allocator \<Rightarrow> bool" where
  "alloc_wf A \<longleftrightarrow> alloc_inv A \<and> blocks_positive A \<and> prefix_full A"

lemma alloc_wf_Alloc:
  "alloc_wf A \<Longrightarrow> 0 < Size \<Longrightarrow> Alloc A Size = Inr (A', p) \<Longrightarrow> alloc_wf A'"
  by (auto simp: alloc_wf_def intro: Alloc_alloc_inv Alloc_positive Alloc_prefix_full)

lemma alloc_wf_Free: "alloc_wf A \<Longrightarrow> Free A p = Inr A' \<Longrightarrow> alloc_wf A'"
  by (auto simp: alloc_wf_def intro: Free_alloc_inv Free_positive Free_prefix_full)

lemma alloc_wf_buffer [simp]: "alloc_wf (A\<lparr>buffer := f\<rparr>) = alloc_wf A"
  by (simp add: alloc_wf_def)

lemma alloc_wf_step: "alloc_step A A' \<Longrightarrow> alloc_wf A \<Longrightarrow> alloc_wf A'"
proof (induction rule: alloc_step.induct)
  case (realloc Size A p A' q)
  obtain A1 f where "Alloc A Size = Inr (A1, q)" "Free (A1\<lparr>buffer := f\<rparr>) p = Inr A'"
    using realloc.hyps(2) by (rule ReAlloc_InrE)
  with realloc show ?case using alloc_wf_Alloc alloc_wf_Free alloc_wf_buffer by metis
qed (auto intro: alloc_wf_Alloc alloc_wf_Free)

lemma alloc_wf_fresh: "a + MAX_BUFFER_SIZE \<le> 2 ^ 64 \<Longrightarrow> alloc_wf (SmallAllocator a)"
  by (simp add: alloc_wf_def alloc_inv_def SmallAllocator_def blocks_positive_def
      prefix_full_def oset_inv_def MAX_BUFFER_SIZE_def)

definition fresh_allocator :: "small_allocator \<Rightarrow> bool" where
  "fresh_allocator A \<longleftrightarrow> (\<exists>a. a + MAX_BUFFER_SIZE \<le> 2 ^ 64 \<and> A = SmallAllocator a)"

interpretation alloc_run: inductive_invariant alloc_step fresh_allocator alloc_wf
  by unfold_locales (auto intro: alloc_wf_step alloc_wf_fresh simp: fresh_allocator_def)

section \<open>The abstract heap\<close>

text \<open>The map from the start index of each live block to its size.\<close>

definition live :: "small_allocator \<Rightarrow> nat \<rightharpoonup> nat" where
  "live A = map_of (map (\<lambda>b. (GetStart b, block_size b)) (occupied_blocks A))"

lemma inj_GetStart: "alloc_inv A \<Longrightarrow> inj_on GetStart (set (occupied_blocks A))"
  by (auto intro!: inj_onI block_eqI)

lemma live_Some_iff:
  assumes "alloc_inv A"
  shows "live A i = Some n \<longleftrightarrow> (\<exists>b \<in> set (occupied_blocks A). GetStart b = i \<and> block_size b = n)"
proof -
  have "distinct (map start (occupied_blocks A))"
    using alloc_invD(1) [OF assms] by (simp add: oset_inv_def strict_sorted_iff)
  then have "distinct (occupied_blocks A)" by (simp add: distinct_map)
  with inj_GetStart [OF assms] have "distinct (map GetStart (occupied_blocks A))"
    by (simp add: distinct_map)
  then show ?thesis by (auto simp: live_def map_of_eq_Some_iff comp_def)
qed

lemma live_cong:
  assumes "alloc_inv A" "alloc_inv B"
    and "set (occupied_blocks A) = set (occupied_blocks B)"
  shows "live A = live B"
proof
  fix i
  show "live A i = live B i"
    using assms by (metis live_Some_iff not_Some_eq)
qed

lemma live_Alloc:
  assumes "alloc_wf A" "0 < Size" "Alloc A Size = Inr (A', p)"
  obtains i where "p = buffer_addr A + i" "i + unat Size < MAX_BUFFER_SIZE" "live A i = None"
    "live A' = (live A)(i \<mapsto> unat Size)" "buffer_addr A' = buffer_addr A"
    "MemoryBlock i (unat Size) \<in> set (occupied_blocks A')"
    "set (occupied_blocks A') = insert (MemoryBlock i (unat Size)) (set (occupied_blocks A))"
    "\<forall>b \<in> set (occupied_blocks A). GetStart b \<noteq> i"
proof -
  have inv: "alloc_inv A" "alloc_inv A'" and pos: "blocks_positive A"
    using assms alloc_wf_Alloc [OF assms] by (auto simp: alloc_wf_def)
  obtain i where i: "p = buffer_addr A + i" "i + unat Size < MAX_BUFFER_SIZE"
    "\<forall>b \<in> set (occupied_blocks A). GetStart b \<noteq> i"
    "set (occupied_blocks A') = insert (MemoryBlock i (unat Size)) (set (occupied_blocks A))"
    "buffer_addr A' = buffer_addr A"
    using inv(1) pos assms(3) by (rule Alloc_blocks)
  have none: "live A i = None" using i(3) live_Some_iff [OF inv(1)] by (metis not_Some_eq)
  have "live A' = (live A)(i \<mapsto> unat Size)"
  proof
    fix k
    have "live A' k = Some n \<longleftrightarrow> ((live A)(i \<mapsto> unat Size)) k = Some n" for n
      using i none by (auto simp: live_Some_iff inv block_simps)
    then show "live A' k = ((live A)(i \<mapsto> unat Size)) k" by (metis not_Some_eq)
  qed
  with i none that show ?thesis by blast
qed

lemma live_Free:
  assumes "alloc_wf A" "live A i = Some n"
  obtains A' where "Free A (buffer_addr A + i) = Inr A'" "live A' = (live A)(i := None)"
    "buffer_addr A' = buffer_addr A" "buffer A' = buffer A"
proof -
  have inv: "alloc_inv A" using assms(1) by (simp add: alloc_wf_def)
  obtain b where b: "b \<in> set (occupied_blocks A)" "GetStart b = i"
    using assms(2) by (auto simp: live_Some_iff [OF inv])
  obtain A' where A': "Free A (buffer_addr A + i) = Inr A'"
    and eq: "A' = A\<lparr>first_free_index := min (GetStart b) (first_free_index A),
           occupied_blocks := oset_erase start (start b) (occupied_blocks A)\<rparr>"
    using Free_live [OF inv b(1)] b(2) by simp
  have inv': "alloc_inv A'" using Free_alloc_inv [OF inv A'] .
  have set': "set (occupied_blocks A') = set (occupied_blocks A) - {b}"
    using oset.key_inj [OF alloc_invD(1) [OF inv]] b(1)
    by (auto simp: eq oset.elems_ers [OF alloc_invD(1) [OF inv]] dest: inj_onD)
  have "live A' = (live A)(i := None)"
  proof
    fix k
    have "live A' k = Some m \<longleftrightarrow> ((live A)(i := None)) k = Some m" for m
      using b inj_GetStart [OF inv] by (auto simp: live_Some_iff inv inv' set' dest: inj_onD)
    then show "live A' k = ((live A)(i := None)) k" by (metis not_Some_eq)
  qed
  with A' eq that show ?thesis by simp
qed

section \<open>Stack discipline\<close>

text \<open>A client that frees blocks in the reverse order of their allocation.\<close>

inductive lifo_step :: "small_allocator \<Rightarrow> small_allocator \<Rightarrow> bool" where
  push: "0 < Size \<Longrightarrow> Alloc A Size = Inr (A', p) \<Longrightarrow> lifo_step A A'"
| pop: "occupied_blocks A = b # bs \<Longrightarrow> Free A (buffer_addr A + GetStart b) = Inr A' \<Longrightarrow>
     lifo_step A A'"

definition lifo_wf :: "small_allocator \<Rightarrow> bool" where
  "lifo_wf A \<longleftrightarrow> alloc_wf A \<and> packed A \<and> blocks_disjoint A"

lemma packed_alloc_loop:
  assumes "alloc_inv A" "packed A"
    and "alloc_loop (occupied_blocks A) Size (first_free_index A) = Inr i"
  shows "i = first_free_index A"
  using assms(3) alloc_loop_unfold [OF assms(1) alloc_invD(3) [OF assms(1)], of Size]
    lower_bound_Some(1) [OF assms(1) alloc_invD(3) [OF assms(1)], of "unat Size"] assms(2)
  by (auto simp: packed_def split: if_splits list.splits)

lemma lifo_push:
  assumes "lifo_wf A" "0 < Size" "Alloc A Size = Inr (A', p)"
  shows "lifo_wf A'"
proof -
  have wf: "alloc_wf A" "alloc_inv A" "blocks_positive A" "packed A" "blocks_disjoint A"
    using assms(1) by (auto simp: lifo_wf_def alloc_wf_def)
  obtain i where i: "i + unat Size < MAX_BUFFER_SIZE" "p = buffer_addr A + i"
    "set (occupied_blocks A') = insert (MemoryBlock i (unat Size)) (set (occupied_blocks A))"
    "first_free_index A' = (if first_free_index A = i then i + unat Size else first_free_index A)"
    using wf(2,3) assms(3) by (rule Alloc_blocks)
  have "alloc_loop (occupied_blocks A) Size (first_free_index A) = Inr i"
    using Alloc_InrE [OF wf(2) assms(3)] i(2) by (metis add_left_cancel)
  then have ff: "i = first_free_index A" using wf packed_alloc_loop by blast
  with i wf have "packed A'" by (fastforce simp: packed_def block_simps)
  moreover have "blocks_disjoint A'"
    using i ff wf(4,5) by (fastforce simp: blocks_disjoint_def packed_def apart_def block_simps)
  ultimately show ?thesis using alloc_wf_Alloc [OF wf(1) assms(2,3)] by (simp add: lifo_wf_def)
qed

lemma lifo_pop:
  assumes "lifo_wf A" "occupied_blocks A = b # bs" "Free A (buffer_addr A + GetStart b) = Inr A'"
  shows "lifo_wf A'"
proof -
  have wf: "alloc_wf A" "alloc_inv A" "packed A" "blocks_disjoint A" "blocks_positive A"
    using assms(1) by (auto simp: lifo_wf_def alloc_wf_def)
  have b: "b \<in> set (occupied_blocks A)" using assms(2) by simp
  have A': "A' = A\<lparr>first_free_index := min (GetStart b) (first_free_index A),
           occupied_blocks := oset_erase start (start b) (occupied_blocks A)\<rparr>"
    using Free_live [OF wf(2) b] assms(3) by simp
  have sub: "set (occupied_blocks A') \<subseteq> set bs"
    by (auto simp: A' oset_erase_def assms(2))
  have "GetEnd c \<le> GetStart b" if c: "c \<in> set bs" for c
  proof -
    have c': "c \<in> set (occupied_blocks A)" using c assms(2) by simp
    have "start b < start c" using alloc_invD(1) [OF wf(2)] c assms(2) by (auto simp: oset_inv_def)
    then have "GetStart c < GetStart b" "b \<noteq> c"
      using start_valid [OF alloc_invD(2) [OF wf(2) b]] start_valid [OF alloc_invD(2) [OF wf(2) c']]
      by auto
    moreover have "apart b c" using wf(4) b c' calculation(2) by (simp add: blocks_disjoint_def)
    ultimately show ?thesis
      using GetEnd_valid [OF alloc_invD(2) [OF wf(2) b]] by (auto simp: apart_def)
  qed
  moreover have "GetEnd c \<le> first_free_index A" if "c \<in> set bs" for c
    using wf(3) that assms(2) by (simp add: packed_def)
  ultimately have "packed A'" using sub by (auto simp: packed_def A')
  moreover have "blocks_disjoint A'"
    using wf(4) sub assms(2) by (auto simp: blocks_disjoint_def subset_iff)
  ultimately show ?thesis using alloc_wf_Free [OF wf(1) assms(3)] by (simp add: lifo_wf_def)
qed

lemma lifo_wf_fresh: "a + MAX_BUFFER_SIZE \<le> 2 ^ 64 \<Longrightarrow> lifo_wf (SmallAllocator a)"
  using alloc_wf_fresh
  by (simp add: lifo_wf_def packed_def blocks_disjoint_def SmallAllocator_def)

interpretation lifo_run: inductive_invariant lifo_step fresh_allocator lifo_wf
proof unfold_locales
  show "lifo_wf A" if "fresh_allocator A" for A
    using that lifo_wf_fresh by (auto simp: fresh_allocator_def)
  show "lifo_wf B" if "lifo_step A B" "lifo_wf A" for A B
    using that by (cases rule: lifo_step.cases) (auto intro: lifo_push lifo_pop)
qed

section \<open>The test program prints nothing\<close>

text \<open>Evaluation of the operations on concrete blocks.\<close>

lemmas alloc_eval = block_defined_def in_int_def Alloc_def ReAlloc_def Free_def find_occupied_block_def pointer_index_def
  buffer_memcpy_def alloc_loop.simps oset_lower_bound_def oset_erase_def MemoryBlock_def
  GetEnd_def GetStart_def to_int32_def to_size_def MAX_BUFFER_SIZE_def SmallAllocator_def Let_def

abbreviation blk :: "nat \<Rightarrow> nat \<Rightarrow> memory_block" where
  "blk i n \<equiv> \<lparr>start = - int i, block_size = n\<rparr>"

abbreviation alloc_at :: "nat \<Rightarrow> (nat \<Rightarrow> byte) \<Rightarrow> nat \<Rightarrow> memory_block list \<Rightarrow> small_allocator" where
  "alloc_at a f ff bs \<equiv>
     \<lparr>buffer_addr = a, buffer = f, first_free_index = ff, occupied_blocks = bs\<rparr>"

lemma main_first_allocator:
  assumes "a + MAX_BUFFER_SIZE \<le> 2 ^ 64"
  shows "Alloc (SmallAllocator a) 4 = Inr (alloc_at a (\<lambda>_. 0) 4 [blk 0 4], a)"
    and "ReAlloc (alloc_at a (\<lambda>_. 0) 4 [blk 0 4]) a (2 * 4) =
      Inr (alloc_at a (\<lambda>_. 0) 0 [blk 4 8], a + 4)"
    and "Free (alloc_at a (\<lambda>_. 0) 0 [blk 4 8]) (a + 4) = Inr (SmallAllocator a)"
  using assms by (simp_all add: alloc_eval fun_eq_iff)

lemma main_blocks:
  assumes "a + MAX_BUFFER_SIZE \<le> 2 ^ 64"
  shows "Alloc (SmallAllocator a) (10 * 4) = Inr (alloc_at a (\<lambda>_. 0) 40 [blk 0 40], a)"
    and "Alloc (alloc_at a f 40 [blk 0 40]) (10 * 4) =
      Inr (alloc_at a f 80 [blk 40 40, blk 0 40], a + 40)"
    and "ReAlloc (alloc_at a f 80 [blk 40 40, blk 0 40]) a (20 * 4) =
      Inr (alloc_at a (\<lambda>j. if 80 \<le> j \<and> j < 120 then f (j - 80) else f j) 0
             [blk 80 80, blk 40 40], a + 80)"
    and "ReAlloc (alloc_at a f 0 [blk 80 80, blk 40 40]) (a + 80) (5 * 4) =
      Inr (alloc_at a (\<lambda>j. if j < 20 then f (80 + j) else f j) 20 [blk 40 40, blk 0 20], a)"
    and "Free (alloc_at a f 20 [blk 40 40, blk 0 20]) a = Inr (alloc_at a f 0 [blk 40 40])"
    and "Free (alloc_at a f 0 [blk 40 40]) (a + 40) = Inr (alloc_at a f 0 [])"
  using assms by (simp_all add: alloc_eval fun_eq_iff)

text \<open>An \<open>int\<close> stored at an index of the buffer.\<close>

definition stored :: "(nat \<Rightarrow> byte) \<Rightarrow> nat \<Rightarrow> int \<Rightarrow> bool" where
  "stored f k v \<longleftrightarrow> f k = word_of_int v \<and> f (k + 1) = word_of_int (v div 2 ^ 8) \<and>
     f (k + 2) = word_of_int (v div 2 ^ 16) \<and> f (k + 3) = word_of_int (v div 2 ^ 24)"

lemma int_of_bytes:
  fixes v :: int
  assumes "in_int v"
  shows "to_int32 (v mod 2 ^ 8 + 2 ^ 8 * (v div 2 ^ 8 mod 256) + 2 ^ 16 * (v div 2 ^ 16 mod 256) +
    2 ^ 24 * (v div 2 ^ 24 mod 256)) = v"
proof -
  have step: "v mod (2 ^ k * 256) = v mod 2 ^ k + 2 ^ k * (v div 2 ^ k mod 256)" for k :: nat
    using zmod_zmult2_eq [of 256 v "2 ^ k"] by (simp only: add.commute)
  have pows: "(2::int) ^ 16 = 2 ^ 8 * 256" "(2::int) ^ 24 = 2 ^ 16 * 256" "(2::int) ^ 32 = 2 ^ 24 * 256"
    by simp_all
  have "v mod 2 ^ 32 = v mod 2 ^ 24 + 2 ^ 24 * (v div 2 ^ 24 mod 256)"
    unfolding pows(3) by (rule step)
  also have "v mod 2 ^ 24 = v mod 2 ^ 16 + 2 ^ 16 * (v div 2 ^ 16 mod 256)"
    unfolding pows(2) by (rule step)
  also have "v mod 2 ^ 16 = v mod 2 ^ 8 + 2 ^ 8 * (v div 2 ^ 8 mod 256)"
    unfolding pows(1) by (rule step)
  finally have "to_int32 (v mod 2 ^ 8 + 2 ^ 8 * (v div 2 ^ 8 mod 256) + 2 ^ 16 * (v div 2 ^ 16 mod 256) +
    2 ^ 24 * (v div 2 ^ 24 mod 256)) = to_int32 (v mod 2 ^ 32)" by (rule arg_cong [OF sym])
  then show ?thesis by (simp only: to_int32_mod to_int32_id [OF assms])
qed

lemma read_stored:
  assumes "stored (buffer A) (pointer_index A p + 4 * i) v" "in_int v"
    and "pointer_index A p + 4 * i + 4 \<le> MAX_BUFFER_SIZE"
  shows "read_int p i A = Inr v"
  using assms int_of_bytes [OF assms(2)]
  by (simp add: read_int_def stored_def Let_def uint_word_of_int)

lemma check_loop_silent:
  assumes "\<forall>i \<in> set is. stored (buffer A) (pointer_index A p + 4 * i) (v i) \<and> in_int (v i) \<and>
    pointer_index A p + 4 * i + 4 \<le> MAX_BUFFER_SIZE"
  shows "check_loop p v msg is A = Inr []"
  using assms by (induction "is") (auto simp: read_stored)

lemma write_loop_stores:
  assumes "distinct is" "\<forall>i \<in> set is. pointer_index A p + 4 * i + 4 \<le> MAX_BUFFER_SIZE"
  shows "\<exists>f. write_loop p v is A = Inr (A\<lparr>buffer := f\<rparr>) \<and>
    (\<forall>i \<in> set is. stored f (pointer_index A p + 4 * i) (v i)) \<and>
    (\<forall>j. (\<forall>i \<in> set is. j < pointer_index A p + 4 * i \<or> pointer_index A p + 4 * i + 4 \<le> j) \<longrightarrow>
       f j = buffer A j)"
  using assms
proof (induction "is" arbitrary: A)
  case Nil
  show ?case by (intro exI [of _ "buffer A"]) simp
next
  case (Cons i "is")
  let ?k = "pointer_index A p"
  define g where "g = (buffer A)(?k + 4 * i := word_of_int (v i),
    ?k + 4 * i + 1 := word_of_int (v i div 2 ^ 8),
    ?k + 4 * i + 2 := word_of_int (v i div 2 ^ 16),
    ?k + 4 * i + 3 := word_of_int (v i div 2 ^ 24))"
  have w: "write_int p i (v i) A = Inr (A\<lparr>buffer := g\<rparr>)"
    using Cons.prems(2) by (simp add: write_int_def g_def Let_def)
  have idx: "pointer_index (A\<lparr>buffer := g\<rparr>) p = ?k" by (simp add: pointer_index_def)
  from Cons.IH [of "A\<lparr>buffer := g\<rparr>"] Cons.prems obtain f where
    f: "write_loop p v is (A\<lparr>buffer := g\<rparr>) = Inr (A\<lparr>buffer := f\<rparr>)"
      "\<forall>i \<in> set is. stored f (?k + 4 * i) (v i)"
      "\<forall>j. (\<forall>i \<in> set is. j < ?k + 4 * i \<or> ?k + 4 * i + 4 \<le> j) \<longrightarrow> f j = g j"
    unfolding idx by auto
  have keep: "f (?k + 4 * i + t) = g (?k + 4 * i + t)" if "t < 4" for t
  proof (intro f(3) [rule_format] ballI)
    fix i' assume "i' \<in> set is"
    with Cons.prems(1) have "i' \<noteq> i" by auto
    with that show "?k + 4 * i + t < ?k + 4 * i' \<or> ?k + 4 * i' + 4 \<le> ?k + 4 * i + t" by arith
  qed
  have "stored f (?k + 4 * i) (v i)"
    using keep [of 0] keep [of 1] keep [of 2] keep [of 3]
    by (simp add: stored_def g_def ac_simps)
  moreover have "f j = buffer A j"
    if "\<forall>i' \<in> set (i # is). j < ?k + 4 * i' \<or> ?k + 4 * i' + 4 \<le> j" for j
    using that f(3) by (auto simp: g_def)
  ultimately show ?case using w f(1,2) by auto
qed

lemma alloc_at_index:
  assumes "a + MAX_BUFFER_SIZE \<le> 2 ^ 64" "k < MAX_BUFFER_SIZE"
  shows "pointer_index (alloc_at a f ff bs) (a + k) = k"
  using assms by (simp add: pointer_index_def MAX_BUFFER_SIZE_def)

lemma main_write:
  assumes "a + MAX_BUFFER_SIZE \<le> 2 ^ 64" "0 < hi" "k + 4 * hi \<le> MAX_BUFFER_SIZE"
  shows "\<exists>g. write_loop (a + k) v [lo..<hi] (alloc_at a f ff bs) = Inr (alloc_at a g ff bs) \<and>
    (\<forall>i. lo \<le> i \<and> i < hi \<longrightarrow> stored g (k + 4 * i) (v i)) \<and>
    (\<forall>j. j < k + 4 * lo \<or> k + 4 * hi \<le> j \<longrightarrow> g j = f j)"
proof -
  have idx: "pointer_index (alloc_at a f ff bs) (a + k) = k"
    using assms by (intro alloc_at_index) auto
  have "\<exists>g. write_loop (a + k) v [lo..<hi] (alloc_at a f ff bs) = Inr (alloc_at a g ff bs) \<and>
    (\<forall>i \<in> set [lo..<hi]. stored g (k + 4 * i) (v i)) \<and>
    (\<forall>j. (\<forall>i \<in> set [lo..<hi]. j < k + 4 * i \<or> k + 4 * i + 4 \<le> j) \<longrightarrow> g j = f j)"
    using write_loop_stores [of "[lo..<hi]" "alloc_at a f ff bs" "a + k" v] assms(3)
    unfolding idx by simp
  then show ?thesis by (elim ex_forward) (auto; fastforce)
qed

lemma main_check:
  assumes "a + MAX_BUFFER_SIZE \<le> 2 ^ 64" "0 < hi" "k + 4 * hi \<le> MAX_BUFFER_SIZE"
    and "\<forall>i. lo \<le> i \<and> i < hi \<longrightarrow> stored f (k + 4 * i) (v i) \<and> in_int (v i)"
  shows "check_loop (a + k) v msg [lo..<hi] (alloc_at a f ff bs) = Inr []"
proof -
  have "pointer_index (alloc_at a f ff bs) (a + k) = k"
    using assms by (intro alloc_at_index) auto
  with assms(3,4) show ?thesis by (intro check_loop_silent) auto
qed

lemma stored_cong:
  "(\<And>t. t < 4 \<Longrightarrow> f (k + t) = g (l + t)) \<Longrightarrow> stored f k v = stored g l v"
proof -
  assume eq: "\<And>t. t < 4 \<Longrightarrow> f (k + t) = g (l + t)"
  show ?thesis using eq [of 0] eq [of 1] eq [of 2] eq [of 3] by (simp add: stored_def)
qed

lemma in_int_main [simp]: "i < 2 ^ 31 \<Longrightarrow> in_int (int i)" "in_int (-1)"
  by (simp_all add: in_int_def)

lemma main_second_allocator:
  assumes a: "a + MAX_BUFFER_SIZE \<le> 2 ^ 64"
  obtains f1 f2 f4 where
    "write_loop a int [0..<10] (alloc_at a (\<lambda>_. 0) 40 [blk 0 40]) = Inr (alloc_at a f1 40 [blk 0 40])"
    "\<forall>i < 10. stored f1 (4 * i) (int i)"
    "write_loop (a + 40) (\<lambda>_. -1) [0..<10] (alloc_at a f1 80 [blk 40 40, blk 0 40]) =
       Inr (alloc_at a f2 80 [blk 40 40, blk 0 40])"
    "\<forall>i < 10. stored f2 (4 * i) (int i)" "\<forall>i < 10. stored f2 (40 + 4 * i) (-1)"
    "write_loop (a + 80) int [10..<20]
       (alloc_at a (\<lambda>j. if 80 \<le> j \<and> j < 120 then f2 (j - 80) else f2 j) 0 [blk 80 80, blk 40 40]) =
       Inr (alloc_at a f4 0 [blk 80 80, blk 40 40])"
    "\<forall>i < 20. stored f4 (80 + 4 * i) (int i)" "\<forall>i < 10. stored f4 (40 + 4 * i) (-1)"
proof -
  obtain f1 where f1: "write_loop a int [0..<10] (alloc_at a (\<lambda>_. 0) 40 [blk 0 40]) =
      Inr (alloc_at a f1 40 [blk 0 40])" "\<forall>i < 10. stored f1 (4 * i) (int i)"
    using main_write [OF a, of 10 0 int 0 "\<lambda>_. 0" 40 "[blk 0 40]"]
    by (auto simp: MAX_BUFFER_SIZE_def)
  obtain f2 where f2: "write_loop (a + 40) (\<lambda>_. -1) [0..<10] (alloc_at a f1 80 [blk 40 40, blk 0 40]) =
       Inr (alloc_at a f2 80 [blk 40 40, blk 0 40])" "\<forall>i < 10. stored f2 (40 + 4 * i) (-1)"
      "\<forall>j. j < 40 \<longrightarrow> f2 j = f1 j"
    using main_write [OF a, of 10 40 "\<lambda>_. -1" 0 f1 80 "[blk 40 40, blk 0 40]"]
    by (auto simp: MAX_BUFFER_SIZE_def)
  have f2': "\<forall>i < 10. stored f2 (4 * i) (int i)"
  proof (intro allI impI)
    fix i :: nat assume "i < 10"
    then have "stored f2 (4 * i) (int i) = stored f1 (4 * i) (int i)"
      using f2(3) by (intro stored_cong) auto
    with f1(2) \<open>i < 10\<close> show "stored f2 (4 * i) (int i)" by blast
  qed
  define f3 where "f3 = (\<lambda>j. if 80 \<le> j \<and> j < 120 then f2 (j - 80) else f2 j)"
  obtain f4 where f4: "write_loop (a + 80) int [10..<20] (alloc_at a f3 0 [blk 80 80, blk 40 40]) =
       Inr (alloc_at a f4 0 [blk 80 80, blk 40 40])"
      "\<forall>i. 10 \<le> i \<and> i < 20 \<longrightarrow> stored f4 (80 + 4 * i) (int i)" "\<forall>j. j < 120 \<longrightarrow> f4 j = f3 j"
    using main_write [OF a, of 20 80 int 10 f3 0 "[blk 80 80, blk 40 40]"]
    by (auto simp: MAX_BUFFER_SIZE_def)
  have low: "stored f4 (80 + 4 * i) (int i)" if "i < 10" for i
  proof -
    have "stored f4 (80 + 4 * i) (int i) = stored f2 (4 * i) (int i)"
      using that f4(3) by (intro stored_cong) (auto simp: f3_def)
    with f2' that show ?thesis by blast
  qed
  have "\<forall>i < 20. stored f4 (80 + 4 * i) (int i)" using low f4(2) by (meson not_less)
  moreover have "stored f4 (40 + 4 * i) (-1)" if "i < 10" for i
  proof -
    have "stored f4 (40 + 4 * i) (-1) = stored f2 (40 + 4 * i) (-1)"
      using that f4(3) by (intro stored_cong) (auto simp: f3_def)
    with f2(2) that show ?thesis by blast
  qed
  ultimately show ?thesis using that [OF f1 f2(1) f2' f2(2) f4(1) [unfolded f3_def]] by blast
qed

lemma main_silent:
  assumes "a1 + MAX_BUFFER_SIZE \<le> 2 ^ 64" and a: "a2 + MAX_BUFFER_SIZE \<le> 2 ^ 64"
  shows "\<exists>f. allocator_main a1 a2 = Inr ([], SmallAllocator a1, alloc_at a2 f 0 [])"
proof -
  obtain f1 f2 f4 where f: 
    "write_loop a2 int [0..<10] (alloc_at a2 (\<lambda>_. 0) 40 [blk 0 40]) = Inr (alloc_at a2 f1 40 [blk 0 40])"
    "\<forall>i < 10. stored f1 (4 * i) (int i)"
    "write_loop (a2 + 40) (\<lambda>_. -1) [0..<10] (alloc_at a2 f1 80 [blk 40 40, blk 0 40]) =
       Inr (alloc_at a2 f2 80 [blk 40 40, blk 0 40])"
    "\<forall>i < 10. stored f2 (4 * i) (int i)" "\<forall>i < 10. stored f2 (40 + 4 * i) (-1)"
    "write_loop (a2 + 80) int [10..<20]
       (alloc_at a2 (\<lambda>j. if 80 \<le> j \<and> j < 120 then f2 (j - 80) else f2 j) 0 [blk 80 80, blk 40 40]) =
       Inr (alloc_at a2 f4 0 [blk 80 80, blk 40 40])"
    "\<forall>i < 20. stored f4 (80 + 4 * i) (int i)" "\<forall>i < 10. stored f4 (40 + 4 * i) (-1)"
    using a by (rule main_second_allocator)
  define f5 where "f5 = (\<lambda>j. if j < 20 then f4 (80 + j) else f4 j)"
  have f5: "\<forall>i < 5. stored f5 (4 * i) (int i)" "\<forall>i < 10. stored f5 (40 + 4 * i) (-1)"
  proof -
    have "stored f5 (4 * i) (int i) = stored f4 (80 + 4 * i) (int i)" if "i < 5" for i
      using that by (intro stored_cong) (auto simp: f5_def ac_simps)
    then show "\<forall>i < 5. stored f5 (4 * i) (int i)" using f(7) by auto
    have "stored f5 (40 + 4 * i) (-1) = stored f4 (40 + 4 * i) (-1)" for i
      by (intro stored_cong) (auto simp: f5_def)
    then show "\<forall>i < 10. stored f5 (40 + 4 * i) (-1)" using f(8) by auto
  qed
  have c: "check_loop a2 int ''ERROR 1'' [0..<10] (alloc_at a2 f1 40 [blk 0 40]) = Inr []"
    "check_loop a2 int ''ERROR 2'' [0..<10] (alloc_at a2 f2 80 [blk 40 40, blk 0 40]) = Inr []"
    "check_loop (a2 + 40) (\<lambda>_. -1) ''ERROR 3'' [0..<10] (alloc_at a2 f2 80 [blk 40 40, blk 0 40]) =
       Inr []"
    "check_loop (a2 + 80) int ''ERROR 4'' [0..<20] (alloc_at a2 f4 0 [blk 80 80, blk 40 40]) = Inr []"
    "check_loop (a2 + 40) (\<lambda>_. -1) ''ERROR 5'' [0..<10] (alloc_at a2 f4 0 [blk 80 80, blk 40 40]) =
       Inr []"
    "check_loop a2 int ''ERROR 6'' [0..<5] (alloc_at a2 f5 20 [blk 40 40, blk 0 20]) = Inr []"
    "check_loop (a2 + 40) (\<lambda>_. -1) ''ERROR 7'' [0..<10] (alloc_at a2 f5 20 [blk 40 40, blk 0 20]) =
       Inr []"
    using f f5 main_check [OF a, where k = 0] main_check [OF a, where k = 40]
      main_check [OF a, where k = 80]
    by (simp_all add: MAX_BUFFER_SIZE_def del: upt_rec_numeral)
  note blocks = main_blocks [OF a] main_first_allocator [OF assms(1)]
  have "allocator_main a1 a2 = Inr ([], SmallAllocator a1, alloc_at a2 f5 0 [])"
    by (simp only: allocator_main_def bindE_simps prod.case blocks f(1,3,6) c append_Nil
        f5_def [symmetric])
  then show ?thesis by blast
qed

section \<open>Properties of the allocator\<close>

lemma first_free_byte_less:
  assumes "alloc_inv A" "first_free_byte A i"
  shows "i < MAX_BUFFER_SIZE"
proof (cases i)
  case 0
  then show ?thesis by (simp add: MAX_BUFFER_SIZE_def)
next
  case (Suc j)
  then obtain b where "b \<in> set (occupied_blocks A)" "j < GetEnd b"
    using assms(2) by (auto simp: first_free_byte_def covered_def)
  then show ?thesis using GetEnd_valid_less [OF alloc_invD(2) [OF assms(1)]] Suc by fastforce
qed

lemma Alloc_at_free_byte:
  assumes "alloc_inv A" "prefix_full A" "blocks_disjoint A" "first_free_byte A i"
  shows "Alloc A Size =
    (if MAX_BUFFER_SIZE \<le> i + unat Size then Inl BadAlloc
     else Inr (A\<lparr>first_free_index := (if first_free_index A = i then i + unat Size
                                        else first_free_index A),
                 occupied_blocks :=
                   oset_insert start (MemoryBlock i (unat Size)) (occupied_blocks A)\<rparr>,
               buffer_addr A + i))"
proof -
  have i: "i < MAX_BUFFER_SIZE" using assms(1,4) by (rule first_free_byte_less)
  have "first_free_index A \<le> i"
    using assms(2,4) by (auto simp: prefix_full_def first_free_byte_def not_less [symmetric])
  from alloc_loop_first_free [OF assms(1,3,4) i this] show ?thesis
    by (simp add: Alloc_def Let_def GetEnd_MemoryBlock [OF i] pointer_index_id(1) [OF assms(1) i, simplified])
qed

text \<open>What follows when the place found is before other live blocks.\<close>

lemma Alloc_disjoint_iff:
  assumes "alloc_wf A" "blocks_disjoint A" "first_free_byte A i" "0 < Size" "Alloc A Size = Inr (A', buffer_addr A + i)"
  shows "blocks_disjoint A' \<longleftrightarrow> (\<forall>j n. live A j = Some n \<longrightarrow> i < j \<longrightarrow> i + unat Size \<le> j)"
proof -
  have inv: "alloc_inv A" using assms(1) by (simp add: alloc_wf_def)
  obtain k where k: "buffer_addr A + i = buffer_addr A + k" "k + unat Size < MAX_BUFFER_SIZE"
    "set (occupied_blocks A') = insert (MemoryBlock k (unat Size)) (set (occupied_blocks A))"
    "\<forall>b \<in> set (occupied_blocks A). GetStart b \<noteq> k"
    using assms(1,4,5) by (rule live_Alloc)
  let ?new = "MemoryBlock i (unat Size)"
  have i: "i < MAX_BUFFER_SIZE" using k(1,2) by simp
  have new: "apart ?new b \<longleftrightarrow> (i < GetStart b \<longrightarrow> i + unat Size \<le> GetStart b)"
    if b: "b \<in> set (occupied_blocks A)" for b
  proof -
    have "GetStart b \<noteq> i" "GetStart b \<le> GetEnd b" using k(1,4) b GetEnd_valid [OF alloc_invD(2) [OF inv b]] by auto
    moreover have "GetStart b \<le> i \<longrightarrow> GetEnd b \<le> i" using assms(3) b by (auto simp: first_free_byte_def covered_def not_less)
    ultimately show ?thesis by (auto simp: apart_def GetEnd_MemoryBlock [OF i] GetStart_MemoryBlock [OF i])
  qed
  have "?new \<notin> set (occupied_blocks A)" using k(1,4) GetStart_MemoryBlock [OF i, of "unat Size"] by auto
  then have "blocks_disjoint A' \<longleftrightarrow> (\<forall>b \<in> set (occupied_blocks A). apart ?new b)"
    using assms(2) k(1,3) by (auto simp: blocks_disjoint_def apart_def)
  also have "\<dots> \<longleftrightarrow> (\<forall>j n. live A j = Some n \<longrightarrow> i < j \<longrightarrow> i + unat Size \<le> j)"
    using new by (auto simp: live_Some_iff [OF inv])
  finally show ?thesis .
qed

lemma ReAlloc_overlapping:
  assumes "alloc_wf A" "0 < Size" "Alloc A Size = Inr (A', buffer_addr A + i)"
    "live A j = Some n" "i < j" "j < i + min (unat Size) n"
  shows "ReAlloc A (buffer_addr A + j) Size = Inl MemcpyOverlap"
proof -
  have inv: "alloc_inv A" using assms(1) by (simp add: alloc_wf_def)
  obtain b where b: "b \<in> set (occupied_blocks A)" "GetStart b = j" "block_size b = n"
    using assms(4) by (auto simp: live_Some_iff [OF inv])
  obtain r where fnd: "find_occupied_block A (buffer_addr A + j) = Inr (b # r)"
    using find_live_block [OF inv b(1)] b(2) by auto
  have "i + unat Size < MAX_BUFFER_SIZE" using assms(1,2,3) by (rule live_Alloc) simp
  moreover have "j + n < MAX_BUFFER_SIZE"
    using GetEnd_valid_less [OF alloc_invD(2) [OF inv b(1)]] b GetEnd_valid [OF alloc_invD(2) [OF inv b(1)]] by simp
  ultimately show ?thesis using fnd assms(3,5,6) b(3)
    by (auto simp: ReAlloc_def pointer_index_id [OF inv] buffer_memcpy_def)
qed

text \<open>
  Property C1. Whatever sequence of \<open>Alloc\<close>, \<open>ReAlloc\<close> and \<open>Free\<close> calls a client makes
  on a fresh allocator (with non-empty requests), every recorded block lies inside the buffer,
  the set of blocks is strictly ordered by \<open>memory_blocks_comparator\<close>, and no byte below
  \<open>first_free_index\<close> is free, so that starting the search there loses nothing.
\<close>
theorem allocator_reachable:
  assumes "a + MAX_BUFFER_SIZE \<le> 2 ^ 64" and "alloc_step\<^sup>*\<^sup>* (SmallAllocator a) A"
  shows "sorted_wrt memory_blocks_comparator (occupied_blocks A) \<and>
    (\<forall>b \<in> set (occupied_blocks A). GetStart b < GetEnd b \<and> GetEnd b < MAX_BUFFER_SIZE) \<and>
    (\<forall>j < first_free_index A. covered A j)"
proof -
  have "alloc_wf A"
    using alloc_run.holds_reachable [OF assms(2)] assms(1) by (auto simp: fresh_allocator_def)
  then show ?thesis
    by (auto simp: alloc_wf_def memory_blocks_comparator_order [symmetric] blocks_positive_def
        prefix_full_def alloc_invD GetEnd_valid GetEnd_valid_less [unfolded GetEnd_valid])
      (metis GetEnd_valid GetEnd_valid_less alloc_invD(2))
qed

lemma Alloc_16:
  "Alloc (SmallAllocator 4096) 16 = Inr (alloc_at 4096 (\<lambda>_. 0) 16 [blk 0 16], 4096)"
  by (simp add: alloc_eval)

theorem allocator_reachable_witness:
  "covered (alloc_at 4096 (\<lambda>_. 0) 16 [blk 0 16]) 15"
proof -
  have "alloc_step (SmallAllocator 4096) (alloc_at 4096 (\<lambda>_. 0) 16 [blk 0 16])"
    by (rule alloc_step.alloc [OF _ Alloc_16]) simp
  from allocator_reachable [of 4096, OF _ r_into_rtranclp [of alloc_step, OF this]]
  show ?thesis by (simp add: MAX_BUFFER_SIZE_def)
qed

text \<open>
  Property C2. On a well-formed allocator whose live blocks are disjoint, \<open>Alloc\<close> decides by the first byte that no live block
  covers, and by nothing else: it throws \<open>bad_alloc\<close> exactly when the request does not end
  before the last byte of the buffer from there, and otherwise returns that address, records
  the block and moves \<open>first_free_index\<close> behind it if it pointed there.
\<close>
theorem Alloc_first_fit:
  assumes "alloc_inv A" "prefix_full A" "blocks_disjoint A" "first_free_byte A i"
  shows "Alloc A Size =
    (if MAX_BUFFER_SIZE \<le> i + unat Size then Inl BadAlloc
     else Inr (A\<lparr>first_free_index := (if first_free_index A = i then i + unat Size
                                        else first_free_index A),
                 occupied_blocks :=
                   oset_insert start (MemoryBlock i (unat Size)) (occupied_blocks A)\<rparr>,
               buffer_addr A + i))"
  by (rule Alloc_at_free_byte [OF assms])

theorem Alloc_first_fit_witness:
  "Alloc (alloc_at 4096 (\<lambda>_. 0) 16 [blk 0 16]) 300000 = Inl BadAlloc \<and>
   Alloc (alloc_at 4096 (\<lambda>_. 0) 16 [blk 0 16]) 8 =
     Inr (alloc_at 4096 (\<lambda>_. 0) 24 [blk 16 8, blk 0 16], 4112)"
proof -
  let ?A = "alloc_at 4096 (\<lambda>_. 0) 16 [blk 0 16]"
  have b: "GetStart (blk 0 16) = 0" "GetEnd (blk 0 16) = 16" by (simp_all add: alloc_eval)
  have "alloc_inv ?A" "prefix_full ?A" "blocks_disjoint ?A" "first_free_byte ?A 16"
    using b by (auto simp: alloc_inv_def prefix_full_def blocks_disjoint_def first_free_byte_def
        covered_def oset_inv_def valid_block_def MAX_BUFFER_SIZE_def)
  note fit = Alloc_first_fit [OF this]
  show ?thesis using fit [of 300000] fit [of 8] by (simp add: alloc_eval)
qed

text \<open>
  Property C3. The allocator implements a map from block starts to sizes: \<open>Alloc\<close> adds
  the returned address, which was not the start of a live block, with the requested size;
  freeing the returned pointer succeeds and restores the map.
\<close>
theorem Alloc_Free_heap:
  assumes "alloc_wf A" "0 < Size" "Alloc A Size = Inr (A', p)"
  shows "\<exists>i A''. p = buffer_addr A + i \<and> live A i = None \<and>
    live A' = (live A)(i \<mapsto> unat Size) \<and> Free A' p = Inr A'' \<and> live A'' = live A"
proof -
  obtain i where i: "p = buffer_addr A + i" "live A i = None"
    "live A' = (live A)(i \<mapsto> unat Size)" "buffer_addr A' = buffer_addr A"
    using assms by (rule live_Alloc)
  have "live A' i = Some (unat Size)" using i(3) by simp
  with alloc_wf_Alloc [OF assms] obtain A'' where
    "Free A' (buffer_addr A' + i) = Inr A''" "live A'' = (live A')(i := None)"
    by (rule live_Free)
  with i show ?thesis by (metis fun_upd_idem fun_upd_upd)
qed

theorem Alloc_Free_heap_witness:
  "\<exists>A''. Free (alloc_at 4096 (\<lambda>_. 0) 16 [blk 0 16]) 4096 = Inr A'' \<and>
     live A'' = live (SmallAllocator 4096)"
  using Alloc_Free_heap [OF alloc_wf_fresh [of 4096] _ Alloc_16]
  by (auto simp: MAX_BUFFER_SIZE_def)

text \<open>
  Property C4. A client that frees blocks in the reverse order of their allocation never
  gets overlapping blocks.
\<close>
theorem lifo_blocks_disjoint:
  assumes "a + MAX_BUFFER_SIZE \<le> 2 ^ 64" and "lifo_step\<^sup>*\<^sup>* (SmallAllocator a) A"
    and "b \<in> set (occupied_blocks A)" "c \<in> set (occupied_blocks A)" "b \<noteq> c"
  shows "GetEnd b \<le> GetStart c \<or> GetEnd c \<le> GetStart b"
proof -
  have "lifo_wf A"
    using lifo_run.holds_reachable [OF assms(2)] assms(1) by (auto simp: fresh_allocator_def)
  with assms(3-5) show ?thesis by (auto simp: lifo_wf_def blocks_disjoint_def apart_def)
qed

theorem lifo_blocks_disjoint_witness:
  "\<exists>A. lifo_step\<^sup>*\<^sup>* (SmallAllocator 4096) A \<and> occupied_blocks A = [blk 40 40, blk 0 40] \<and>
     (GetEnd (blk 40 40) \<le> GetStart (blk 0 40) \<or> GetEnd (blk 0 40) \<le> GetStart (blk 40 40))"
proof -
  have a: "4096 + MAX_BUFFER_SIZE \<le> 2 ^ 64" by (simp add: MAX_BUFFER_SIZE_def)
  let ?A = "alloc_at 4096 (\<lambda>_. 0) 80 [blk 40 40, blk 0 40]"
  have "lifo_step (SmallAllocator 4096) (alloc_at 4096 (\<lambda>_. 0) 40 [blk 0 40])"
    "lifo_step (alloc_at 4096 (\<lambda>_. 0) 40 [blk 0 40]) ?A"
    using main_blocks(1,2) [OF a] by (auto intro: lifo_step.push [of 40])
  then have r: "lifo_step\<^sup>*\<^sup>* (SmallAllocator 4096) ?A" by simp
  with lifo_blocks_disjoint [OF a r, of "blk 40 40" "blk 0 40"] show ?thesis by auto
qed

text \<open>
  Property C5. \<open>ReAlloc\<close> of a live block, when \<open>Alloc\<close> finds it a region apart from
  the old one, moves the block: the old entry is gone, the new one has the new size, the
  common prefix of the contents is at the new place and no other byte changes. When
  \<open>Alloc\<close> throws, \<open>ReAlloc\<close> throws the same and nothing has changed.
\<close>
theorem ReAlloc_moves:
  assumes "alloc_wf A" "live A i = Some n" "0 < Size"
  shows "(\<forall>e. Alloc A Size = Inl e \<longrightarrow> ReAlloc A (buffer_addr A + i) Size = Inl e) \<and>
    (\<forall>A1 k. Alloc A Size = Inr (A1, buffer_addr A + k) \<longrightarrow> k + unat Size \<le> i \<or> i + n \<le> k \<longrightarrow>
      (\<exists>A'. ReAlloc A (buffer_addr A + i) Size = Inr (A', buffer_addr A + k) \<and>
        live A' = (live A)(k \<mapsto> unat Size, i := None) \<and>
        (\<forall>j < min (unat Size) n. buffer A' (k + j) = buffer A (i + j)) \<and>
        (\<forall>j. j < k \<or> k + min (unat Size) n \<le> j \<longrightarrow> buffer A' j = buffer A j)))"
proof (intro conjI allI impI)
  have inv: "alloc_inv A" using assms(1) by (simp add: alloc_wf_def)
  obtain b where b: "b \<in> set (occupied_blocks A)" "GetStart b = i" "block_size b = n"
    using assms(2) by (auto simp: live_Some_iff [OF inv])
  obtain r where fnd: "find_occupied_block A (buffer_addr A + i) = Inr (b # r)"
    using find_live_block [OF inv b(1)] b(2) by auto
  show "ReAlloc A (buffer_addr A + i) Size = Inl e" if "Alloc A Size = Inl e" for e
    using that fnd by (simp add: ReAlloc_def)
  fix A1 k
  assume A1: "Alloc A Size = Inr (A1, buffer_addr A + k)" and ap: "k + unat Size \<le> i \<or> i + n \<le> k"
  have in_i: "i + n < MAX_BUFFER_SIZE"
    using GetEnd_valid_less [OF alloc_invD(2) [OF inv b(1)]] b GetEnd_valid alloc_invD(2) [OF inv b(1)]
    by auto
  obtain k' where k': "buffer_addr A + k = buffer_addr A + k'" "k' + unat Size < MAX_BUFFER_SIZE"
    "live A1 = (live A)(k' \<mapsto> unat Size)" "buffer_addr A1 = buffer_addr A" "live A k' = None"
    using assms(1,3) A1 by (rule live_Alloc)
  then have k: "k + unat Size < MAX_BUFFER_SIZE" "live A1 = (live A)(k \<mapsto> unat Size)" "k \<noteq> i"
    using assms(2) by auto
  have buf: "buffer A1 = buffer A" using A1 by (auto simp: Alloc_def Let_def bindE_Inr_iff)
  define m where "m = min (unat Size) n"
  have "k + m \<le> i \<or> i + m \<le> k" "k + m \<le> MAX_BUFFER_SIZE" "i + m \<le> MAX_BUFFER_SIZE"
    using in_i k(1) ap by (auto simp: m_def)
  then obtain A2 where A2: "buffer_memcpy A1 k i m = Inr A2" by (auto simp: buffer_memcpy_def)
  obtain f where f: "A2 = A1\<lparr>buffer := f\<rparr>" "\<forall>j < m. f (k + j) = buffer A (i + j)"
    "\<forall>j. j < k \<or> k + m \<le> j \<longrightarrow> f j = buffer A j"
    using A2 unfolding buf [symmetric] by (rule buffer_memcpy_InrE)
  have "alloc_wf A2" "live A2 i = Some n"
    using alloc_wf_Alloc [OF assms(1,3) A1] k(2,3) assms(2) by (simp_all add: f(1) live_def)
  then obtain A' where A': "Free A2 (buffer_addr A2 + i) = Inr A'" "live A' = (live A2)(i := None)"
    "buffer A' = buffer A2" by (rule live_Free)
  have "ReAlloc A (buffer_addr A + i) Size = Inr (A', buffer_addr A + k)"
    using fnd A1 A2 A'(1) k(1) in_i k'(4)
    by (simp add: ReAlloc_def pointer_index_id [OF inv] b(3) m_def f(1))
  moreover have "live A' = (live A)(k \<mapsto> unat Size, i := None)"
    using A'(2) k(2) by (simp add: f(1) live_def)
  ultimately show "\<exists>A'. ReAlloc A (buffer_addr A + i) Size = Inr (A', buffer_addr A + k) \<and>
        live A' = (live A)(k \<mapsto> unat Size, i := None) \<and>
        (\<forall>j < min (unat Size) n. buffer A' (k + j) = buffer A (i + j)) \<and>
        (\<forall>j. j < k \<or> k + min (unat Size) n \<le> j \<longrightarrow> buffer A' j = buffer A j)"
    using f A'(3) unfolding m_def by auto
qed

theorem ReAlloc_moves_witness:
  "\<exists>A'. ReAlloc (alloc_at 4096 (\<lambda>_. 0) 16 [blk 0 16]) 4096 8 = Inr (A', 4112) \<and>
     live A' = [16 \<mapsto> 8]"
proof -
  let ?A = "alloc_at 4096 (\<lambda>_. 0) 16 [blk 0 16]"
  have wf: "alloc_wf ?A"
    using alloc_wf_Alloc [OF alloc_wf_fresh _ Alloc_16] by (simp add: MAX_BUFFER_SIZE_def)
  have l: "live ?A = [0 \<mapsto> 16]" by (simp add: live_def alloc_eval)
  have al: "Alloc ?A 8 = Inr (alloc_at 4096 (\<lambda>_. 0) 24 [blk 16 8, blk 0 16], 4112)"
    by (simp add: alloc_eval)
  from ReAlloc_moves [OF wf, of 0 16 8] l al show ?thesis
    by (auto simp: fun_upd_twist dest!: spec [of _ 16])
qed



text \<open>
  Property C7. The test program of \<open>main\<close> runs to its end without an exception and without
  undefined behaviour, prints none of its \<open>ERROR\<close> lines, and leaves both allocators empty.
\<close>
theorem allocator_main_silent:
  assumes "a1 + MAX_BUFFER_SIZE \<le> 2 ^ 64" and "a2 + MAX_BUFFER_SIZE \<le> 2 ^ 64"
  shows "\<exists>A1 A2. allocator_main a1 a2 = Inr ([], A1, A2) \<and>
    occupied_blocks A1 = [] \<and> first_free_index A1 = 0 \<and>
    occupied_blocks A2 = [] \<and> first_free_index A2 = 0"
  using main_silent [OF assms] by (auto simp: SmallAllocator_def)

theorem allocator_main_silent_witness:
  "\<exists>A1 A2. allocator_main 4096 1000000 = Inr ([], A1, A2) \<and> occupied_blocks A2 = []"
  using allocator_main_silent [of 4096 1000000] by (auto simp: MAX_BUFFER_SIZE_def)

end
