(* ===== verification/Text_IO.thy ===== *)
theory Text_IO
  imports Prelude
begin

text \<open>
  The text conversions of the C++ library the programs use: \<open>std::to_string\<close>,
  \<open>std::stoi\<close>, and formatted extraction of an \<open>int\<close> from a stream, with the fact
  that reading back a printed number gives the number.
\<close>

section \<open>Characters and digits\<close>

definition is_digit :: "char \<Rightarrow> bool" where
  "is_digit c \<longleftrightarrow> 48 \<le> (of_char c :: int) \<and> (of_char c :: int) \<le> 57"

definition is_space :: "char \<Rightarrow> bool" where
  "is_space c \<longleftrightarrow> of_char c = (32 :: int) \<or> 9 \<le> (of_char c :: int) \<and> (of_char c :: int) \<le> 13"

definition digit_val :: "char \<Rightarrow> int" where
  "digit_val c = of_char c - 48"

definition digit_char :: "int \<Rightarrow> char" where
  "digit_char d = char_of (48 + d)"

definition digits_val :: "string \<Rightarrow> int" where
  "digits_val s = foldl (\<lambda>n c. 10 * n + digit_val c) 0 s"

function nat_string :: "int \<Rightarrow> string" where
  "nat_string n = (if n < 10 then [digit_char n] else nat_string (n div 10) @ [digit_char (n mod 10)])"
  by pat_completeness auto
termination by (relation "measure nat") auto

declare nat_string.simps [simp del]

definition to_string :: "int \<Rightarrow> string" where
  "to_string z = (if z < 0 then CHR ''-'' # nat_string (- z) else nat_string z)"

section \<open>Reading integers\<close>

text \<open>
  What \<open>strtol\<close> and \<open>operator>>\<close> have in common: leading white space is skipped, then an
  optional sign and the longest run of digits is read. The result is the value and the rest
  of the input, \<open>None\<close> when there is no digit.
\<close>

definition read_digits :: "string \<Rightarrow> (int \<times> string) option" where
  "read_digits s =
     (if takeWhile is_digit s = [] then None
      else Some (digits_val (takeWhile is_digit s), dropWhile is_digit s))"

definition read_int_prefix :: "string \<Rightarrow> (int \<times> string) option" where
  "read_int_prefix s =
     (case dropWhile is_space s of
        [] \<Rightarrow> None
      | c # r \<Rightarrow>
          if c = CHR ''-'' then map_option (\<lambda>(v, r). (- v, r)) (read_digits r)
          else if c = CHR ''+'' then read_digits r
          else read_digits (c # r))"

definition stoi :: "string \<Rightarrow> int result" where
  "stoi s = (case read_int_prefix s of
               None \<Rightarrow> Inl InvalidArgument
             | Some (v, _) \<Rightarrow> if in_int v then Inr v else Inl OutOfRange)"

text \<open>\<open>stream >> n\<close> for an \<open>int\<close>: \<open>None\<close> when the stream is left in a failed state.\<close>

definition extract_int :: "string \<Rightarrow> (int \<times> string) option" where
  "extract_int s = (case read_int_prefix s of
                      None \<Rightarrow> None
                    | Some (v, r) \<Rightarrow> if in_int v then Some (v, r) else None)"

section \<open>Printed numbers read back\<close>

lemma of_char_digit_char: "0 \<le> d \<Longrightarrow> d < 10 \<Longrightarrow> of_char (digit_char d) = 48 + d"
  by (simp add: digit_char_def of_char_of)

lemma digit_char_props:
  assumes "0 \<le> d" "d < 10"
  shows "is_digit (digit_char d)" "digit_val (digit_char d) = d"
  using assms by (simp_all add: is_digit_def digit_val_def of_char_digit_char)

lemma digits_val_snoc: "digits_val (s @ [c]) = 10 * digits_val s + digit_val c"
  by (simp add: digits_val_def)

lemma nat_string_digits: "0 \<le> n \<Longrightarrow> \<forall>c \<in> set (nat_string n). is_digit c"
proof (induction n rule: nat_string.induct)
  case (1 n)
  then show ?case
    by (subst nat_string.simps) (auto simp: digit_char_props)
qed

lemma nat_string_not_Nil [simp]: "nat_string n \<noteq> []"
  by (subst nat_string.simps) simp

lemma digits_val_nat_string: "0 \<le> n \<Longrightarrow> digits_val (nat_string n) = n"
proof (induction n rule: nat_string.induct)
  case (1 n)
  show ?case
  proof (cases "n < 10")
    case True
    with "1.prems" show ?thesis
      by (subst nat_string.simps) (simp add: digits_val_def digit_char_props)
  next
    case False
    with "1" show ?thesis
      by (subst nat_string.simps) (simp add: digits_val_snoc digit_char_props)
  qed
qed

lemma digits_val_nonneg: "\<forall>c \<in> set s. is_digit c \<Longrightarrow> 0 \<le> digits_val s"
proof (induction s rule: rev_induct)
  case (snoc c s)
  then show ?case by (auto simp: digits_val_snoc digit_val_def is_digit_def)
qed (simp add: digits_val_def)

lemma digit_not_sign [simp]:
  "is_digit c \<Longrightarrow> c \<noteq> CHR ''-''" "is_digit c \<Longrightarrow> c \<noteq> CHR ''+''" "is_digit c \<Longrightarrow> c \<noteq> CHR ''*''"
  "is_digit c \<Longrightarrow> c \<noteq> CHR ''x''" "is_digit c \<Longrightarrow> c \<noteq> CHR ''^''" "is_digit c \<Longrightarrow> \<not> is_space c"
  by (auto simp: is_digit_def is_space_def)

lemma takeWhile_digits_append:
  assumes "\<forall>c \<in> set ds. is_digit c" "r = [] \<or> \<not> is_digit (hd r)"
  shows "takeWhile is_digit (ds @ r) = ds" "dropWhile is_digit (ds @ r) = r"
  using assms by (cases r; simp add: takeWhile_append2 dropWhile_append2)+

lemma read_digits_append:
  assumes "\<forall>c \<in> set ds. is_digit c" "ds \<noteq> []" "r = [] \<or> \<not> is_digit (hd r)"
  shows "read_digits (ds @ r) = Some (digits_val ds, r)"
  using assms(2) takeWhile_digits_append [OF assms(1,3)] by (simp add: read_digits_def)

text \<open>A printed \<open>int\<close> followed by something that is no digit is extracted as it was.\<close>

lemma read_to_string:
  assumes "r = [] \<or> \<not> is_digit (hd r)"
  shows "read_int_prefix (to_string z @ r) = Some (z, r)"
proof (cases "z < 0")
  case True
  have "read_digits (nat_string (- z) @ r) = Some (- z, r)"
    using True assms read_digits_append [OF nat_string_digits, of "- z" r]
    by (simp add: digits_val_nat_string)
  with True show ?thesis by (simp add: read_int_prefix_def to_string_def is_space_def)
next
  case False
  obtain c ds where s: "nat_string z = c # ds" by (cases "nat_string z") auto
  with nat_string_digits [of z] False have "is_digit c" by auto
  moreover have "read_digits (nat_string z @ r) = Some (z, r)"
    using False assms read_digits_append [OF nat_string_digits, of z r]
    by (simp add: digits_val_nat_string)
  ultimately show ?thesis using False s by (simp add: read_int_prefix_def to_string_def)
qed

lemma extract_to_string:
  assumes "in_int z" "r = [] \<or> \<not> is_digit (hd r)"
  shows "extract_int (to_string z @ r) = Some (z, r)"
  using assms by (simp add: extract_int_def read_to_string)

lemma stoi_digits:
  assumes "\<forall>c \<in> set ds. is_digit c" "ds \<noteq> []"
  shows "stoi ds = (if in_int (digits_val ds) then Inr (digits_val ds) else Inl OutOfRange)"
proof -
  have "dropWhile is_space ds = ds" using assms by (cases ds) auto
  moreover have "read_digits ds = Some (digits_val ds, [])"
    using read_digits_append [of ds "[]"] assms by simp
  ultimately have "read_int_prefix ds = Some (digits_val ds, [])"
    using assms by (cases ds) (auto simp: read_int_prefix_def)
  then show ?thesis by (simp add: stoi_def)
qed

end
