(* ===== verification/Derivative.thy ===== *)
theory Derivative
  imports Text_IO
begin

text \<open>
  The symbolic derivative of \<open>containers_allocators/containers.cpp\<close>: a backtracking
  matcher with the semantics of ECMAScript regular expressions, the pattern of
  \<open>derivative\<close>, the collection of coefficients in a \<open>std::map\<close> and the printing of
  the result.
\<close>

section \<open>Regular expressions\<close>

text \<open>The operators the pattern uses. A class is the list of its characters.\<close>

datatype regex =
    Cls "char list"
  | StarCls "char list"
  | Sequ regex regex
  | Alt regex regex
  | Opt regex
  | Group nat regex

type_synonym smatch = "nat \<rightharpoonup> string"

definition match_str :: "smatch \<Rightarrow> nat \<Rightarrow> string" where
  "match_str m n = (case m n of None \<Rightarrow> [] | Some s \<Rightarrow> s)"

text \<open>The ways a greedy \<open>[C]*\<close> can match, longest first: consumed text and rest.\<close>

fun star_matches :: "char list \<Rightarrow> string \<Rightarrow> (string \<times> string) list" where
  "star_matches C [] = [([], [])]"
| "star_matches C (c # s) =
     (if c \<in> set C then map (\<lambda>(u, r). (c # u, r)) (star_matches C s) else []) @ [([], c # s)]"

text \<open>
  All matches at the start of the input in the order a backtracking matcher tries them:
  consumed text, rest, captures.
\<close>

primrec rmatch :: "regex \<Rightarrow> string \<Rightarrow> smatch \<Rightarrow> (string \<times> string \<times> smatch) list" where
  "rmatch (Cls C) s m = (case s of [] \<Rightarrow> [] | c # r \<Rightarrow> if c \<in> set C then [([c], r, m)] else [])"
| "rmatch (StarCls C) s m = map (\<lambda>(u, r). (u, r, m)) (star_matches C s)"
| "rmatch (Sequ a b) s m =
     concat (map (\<lambda>(u, r, m'). map (\<lambda>(v, r', m''). (u @ v, r', m'')) (rmatch b r m')) (rmatch a s m))"
| "rmatch (Alt a b) s m = rmatch a s m @ rmatch b s m"
| "rmatch (Opt a) s m = rmatch a s m @ [([], s, m)]"
| "rmatch (Group n a) s m = map (\<lambda>(u, r, m'). (u, r, m'(n \<mapsto> u))) (rmatch a s m)"

text \<open>\<open>std::regex_search\<close>: the first position with a match, and the first match there.\<close>

fun regex_search :: "regex \<Rightarrow> string \<Rightarrow> (string \<times> string \<times> smatch) option" where
  "regex_search reg s =
     (case rmatch reg s Map.empty of
        x # _ \<Rightarrow> Some x
      | [] \<Rightarrow> (case s of [] \<Rightarrow> None | c # s' \<Rightarrow> regex_search reg s'))"

declare regex_search.simps [simp del]

text \<open>
  \<open>std::sregex_iterator\<close>: the searches one after the other, each from the end of the match
  before it. A match that consumed nothing would end the iteration here; the pattern below
  consumes its sign.
\<close>

function regex_matches :: "regex \<Rightarrow> string \<Rightarrow> smatch list" where
  "regex_matches reg s =
     (case regex_search reg s of
        None \<Rightarrow> []
      | Some (u, r, m) \<Rightarrow> m # (if length r < length s then regex_matches reg r else []))"
  by pat_completeness auto
termination by (relation "measure (\<lambda>(reg, s). length s)") auto

declare regex_matches.simps [simp del]

definition digit_chars :: "char list" where
  "digit_chars = ''0123456789''"

text \<open>The pattern \<^verbatim>\<open>(\+|-)(\d*)\*?(x?)\^?(\d*)\<close>.\<close>

definition reg :: regex where
  "reg = Sequ (Group 1 (Alt (Cls ''+'') (Cls ''-'')))
        (Sequ (Group 2 (StarCls digit_chars))
        (Sequ (Opt (Cls ''*''))
        (Sequ (Group 3 (Opt (Cls ''x'')))
        (Sequ (Opt (Cls ''^''))
              (Group 4 (StarCls digit_chars))))))"

section \<open>The program\<close>

definition string_to_int :: "string \<Rightarrow> int \<Rightarrow> int result" where
  "string_to_int str default_value = (if str \<noteq> [] then stoi str else Inr default_value)"

definition appendIf :: "string \<Rightarrow> bool \<Rightarrow> string \<Rightarrow> string" where
  "appendIf str condition suffix = (if condition then str @ suffix else str)"

definition add_sign :: "string \<Rightarrow> string" where
  "add_sign polynomial =
     (if hd polynomial \<noteq> CHR ''-'' \<and> hd polynomial \<noteq> CHR ''+'' then CHR ''+'' # polynomial
      else polynomial)"

text \<open>\<open>constant_by_pow\<close> is a \<open>std::map<int, int>\<close>, a list ordered by its first components.\<close>

type_synonym int_map = "(int \<times> int) list"

definition map_at :: "int_map \<Rightarrow> int \<Rightarrow> int" where
  "map_at m k = (case map_of m k of None \<Rightarrow> 0 | Some v \<Rightarrow> v)"

definition map_set :: "int \<Rightarrow> int \<Rightarrow> int_map \<Rightarrow> int_map" where
  "map_set k v m = oset_insert fst (k, v) (oset_erase fst k m)"

text \<open>The body of the loop over the matches.\<close>

definition add_match :: "smatch \<Rightarrow> int_map \<Rightarrow> int_map result" where
  "add_match m constant_by_pow =
     bindE (string_to_int (match_str m 2) 1) (\<lambda>constant.
     bindE (if match_str m 1 = ''-'' then int_check (constant * -1) else Inr constant) (\<lambda>constant.
     let min_pow = (if match_str m 3 \<noteq> [] then 1 else 0) in
     bindE (string_to_int (match_str m 4) min_pow) (\<lambda>pow.
     bindE (int_check (map_at constant_by_pow pow + constant)) (\<lambda>sum.
     Inr (map_set pow sum constant_by_pow)))))"

fun add_matches :: "smatch list \<Rightarrow> int_map \<Rightarrow> int_map result" where
  "add_matches [] constant_by_pow = Inr constant_by_pow"
| "add_matches (m # ms) constant_by_pow = bindE (add_match m constant_by_pow) (add_matches ms)"

text \<open>The body of the loop over the reversed map.\<close>

definition append_term :: "int \<times> int \<Rightarrow> string \<Rightarrow> string result" where
  "append_term it result =
     (if fst it = 0 then Inr result
      else
        let pow = fst it - 1 in
        bindE (int_check (fst it * snd it)) (\<lambda>constant.
        let add_x = 0 < pow in
        bindE (if add_x then int_check \<bar>constant\<bar> else Inr 0) (\<lambda>abs_constant.
        let add_constant = \<not> (add_x \<and> abs_constant = 1);
            result = appendIf result (0 \<le> constant \<and> result \<noteq> []) ''+'';
            result = appendIf result add_constant (to_string constant)
        in Inr (if add_x
                then appendIf (appendIf result add_constant ''*'' @ ''x'') (1 < pow)
                       (''^'' @ to_string pow)
                else result))))"

fun append_terms :: "int_map \<Rightarrow> string \<Rightarrow> string result" where
  "append_terms [] result = Inr result"
| "append_terms (it # its) result = bindE (append_term it result) (append_terms its)"

definition derivative :: "string \<Rightarrow> string result" where
  "derivative polynomial =
     (if polynomial = [] then Inl OutOfRange
      else bindE (add_matches (regex_matches reg (add_sign polynomial)) []) (\<lambda>constant_by_pow.
           append_terms (rev constant_by_pow) []))"

text \<open>\<open>main\<close>: the assertions one after the other; \<open>Inr None\<close> when one fails, else the status.\<close>

fun assert_derivatives :: "(string \<times> string) list \<Rightarrow> int option result" where
  "assert_derivatives [] = Inr (Some 0)"
| "assert_derivatives ((polynomial, expected) # rest) =
     bindE (derivative polynomial) (\<lambda>d. if d = expected then assert_derivatives rest else Inr None)"

definition derivative_main :: "int option result" where
  "derivative_main = assert_derivatives
     [(''x^2+x'', ''2*x+1''), (''2*x^100+100*x^2'', ''200*x^99+200*x''), (''x^10000+x+1'', ''10000*x^9999+1''),
      (''-x^2-x^3'', ''-3*x^2-2*x''), (''x+x+x+x+x+x+x+x+x+x'', ''10'')]"

section \<open>The matcher is a scanner\<close>

text \<open>
  Everything after the sign is optional and greedy, so the first match is found without
  backtracking. \<open>scan_all\<close> is the direct scanner.
\<close>

definition drop_opt :: "char \<Rightarrow> string \<Rightarrow> string" where
  "drop_opt c s = (case s of [] \<Rightarrow> [] | d # r \<Rightarrow> if d = c then r else s)"

definition is_sign :: "char \<Rightarrow> bool" where
  "is_sign c \<longleftrightarrow> c = CHR ''+'' \<or> c = CHR ''-''"

definition scan_x :: "string \<Rightarrow> string" where
  "scan_x s = drop_opt CHR ''*'' (dropWhile is_digit s)"

definition scan_pow :: "string \<Rightarrow> string" where
  "scan_pow s = drop_opt CHR ''^'' (drop_opt CHR ''x'' (scan_x s))"

definition scan_match :: "char \<Rightarrow> string \<Rightarrow> smatch" where
  "scan_match c s =
     [1 \<mapsto> [c], 2 \<mapsto> takeWhile is_digit s,
      3 \<mapsto> (if scan_x s \<noteq> [] \<and> hd (scan_x s) = CHR ''x'' then ''x'' else []),
      4 \<mapsto> takeWhile is_digit (scan_pow s)]"

lemma length_drop_opt: "length (drop_opt c s) \<le> length s"
  by (simp add: drop_opt_def split: list.split)

lemma length_scan_pow: "length (dropWhile is_digit (scan_pow s)) \<le> length s"
  unfolding scan_pow_def scan_x_def
  by (meson length_drop_opt length_dropWhile_le le_trans)

function scan_all :: "string \<Rightarrow> smatch list" where
  "scan_all [] = []"
| "scan_all (c # s) =
     (if is_sign c then scan_match c s # scan_all (dropWhile is_digit (scan_pow s))
      else scan_all s)"
  by pat_completeness auto
termination
  by (relation "measure length") (auto simp: le_imp_less_Suc length_scan_pow)

lemma digit_chars_iff: "c \<in> set digit_chars \<longleftrightarrow> is_digit c"
proof
  assume "is_digit c"
  then have "of_char c \<in> {48 :: int, 49, 50, 51, 52, 53, 54, 55, 56, 57}"
    by (simp add: is_digit_def) presburger
  moreover have "c = char_of (of_char c :: int)" by simp
  ultimately show "c \<in> set digit_chars"
    by (auto simp: digit_chars_def char_of_def)
qed (auto simp: digit_chars_def is_digit_def)

lemma star_matches_first:
  "\<exists>l. star_matches C s = (takeWhile (\<lambda>c. c \<in> set C) s, dropWhile (\<lambda>c. c \<in> set C) s) # l"
  by (induction s) auto

definition first_match :: "regex \<Rightarrow> string \<Rightarrow> smatch \<Rightarrow> string \<Rightarrow> smatch \<Rightarrow> bool" where
  "first_match re s m r m' \<longleftrightarrow> (\<exists>u l. rmatch re s m = (u, r, m') # l)"

lemma first_Sequ:
  "first_match a s m r1 m1 \<Longrightarrow> first_match b r1 m1 r m' \<Longrightarrow> first_match (Sequ a b) s m r m'"
  by (auto simp: first_match_def)

lemma first_sign: "is_sign c \<Longrightarrow>
  first_match (Group n (Alt (Cls ''+'') (Cls ''-''))) (c # s) m s (m(n \<mapsto> [c]))"
  by (auto simp: first_match_def is_sign_def)

lemma first_Opt: "first_match (Opt (Cls [c])) s m (drop_opt c s) m"
  by (simp add: first_match_def drop_opt_def split: list.split)

lemma first_GroupOpt:
  "first_match (Group n (Opt (Cls [c]))) s m (drop_opt c s)
     (m(n \<mapsto> (if s \<noteq> [] \<and> hd s = c then [c] else [])))"
  by (simp add: first_match_def drop_opt_def split: list.split)

lemma first_GroupDigits:
  "first_match (Group n (StarCls digit_chars)) s m (dropWhile is_digit s)
     (m(n \<mapsto> takeWhile is_digit s))"
  using star_matches_first [of digit_chars s] by (auto simp: first_match_def digit_chars_iff)

lemma rmatch_reg_sign:
  assumes "is_sign c"
  shows "first_match reg (c # s) Map.empty (dropWhile is_digit (scan_pow s)) (scan_match c s)"
  unfolding reg_def scan_match_def scan_pow_def scan_x_def
  by (intro first_Sequ [OF first_sign [OF assms]] first_Sequ [OF first_GroupDigits]
      first_Sequ [OF first_Opt] first_Sequ [OF first_GroupOpt]
      first_Sequ [OF first_Opt] first_GroupDigits)

lemma rmatch_reg_no_sign: "s = [] \<or> \<not> is_sign (hd s) \<Longrightarrow> rmatch reg s m = []"
  by (cases s) (auto simp: reg_def is_sign_def)

lemma regex_search_Cons:
  "is_sign c \<Longrightarrow> \<exists>u. regex_search reg (c # s) = Some (u, dropWhile is_digit (scan_pow s), scan_match c s)"
  "\<not> is_sign c \<Longrightarrow> regex_search reg (c # s) = regex_search reg s"
  using rmatch_reg_sign [of c s]
  by (auto simp: first_match_def regex_search.simps [of reg "c # s"] rmatch_reg_no_sign)

lemma regex_search_Nil: "regex_search reg [] = None"
  by (simp add: regex_search.simps [of reg "[]"] rmatch_reg_no_sign)

lemma regex_search_progress: "regex_search reg s = Some (u, r, m) \<Longrightarrow> length r < length s"
proof (induction s)
  case (Cons c s)
  then show ?case
    using regex_search_Cons [of c s] length_scan_pow [of s]
    by (cases "is_sign c") (auto simp: le_imp_less_Suc)
qed (simp add: regex_search_Nil)

lemma regex_matches_scan: "regex_matches reg s = scan_all s"
proof (induction s rule: scan_all.induct)
  case 1
  show ?case by (simp add: regex_matches.simps [of reg "[]"] regex_search_Nil)
next
  case (2 c s)
  show ?case
  proof (cases "is_sign c")
    case True
    with "2.IH"(1) regex_search_Cons(1) [OF True, of s] show ?thesis
      by (auto simp: regex_matches.simps [of reg "c # s"] le_imp_less_Suc length_scan_pow)
  next
    case False
    then have "regex_matches reg (c # s) = regex_matches reg s"
      using regex_search_progress [of s]
      by (auto simp: regex_matches.simps [of reg "c # s"] regex_matches.simps [of reg s]
          regex_search_Cons(2) less_Suc_eq split: option.split)
    with False "2.IH"(2) show ?thesis by simp
  qed
qed

section \<open>Coefficients\<close>

text \<open>
  The polynomial a text denotes: the list of its terms, each a constant and a power, read
  without bounds; \<open>coeff\<close> adds up the constants of a power.
\<close>

definition term_of :: "smatch \<Rightarrow> int \<times> int" where
  "term_of m =
     ((if match_str m 1 = ''-'' then -1 else 1) *
        (if match_str m 2 = [] then 1 else digits_val (match_str m 2)),
      if match_str m 4 = [] then (if match_str m 3 \<noteq> [] then 1 else 0)
      else digits_val (match_str m 4))"

definition poly_terms :: "string \<Rightarrow> (int \<times> int) list" where
  "poly_terms s = (if s = [] then [] else map term_of (regex_matches reg (add_sign s)))"

definition coeff :: "(int \<times> int) list \<Rightarrow> int \<Rightarrow> int" where
  "coeff ts k = (\<Sum>t \<leftarrow> ts. if snd t = k then fst t else 0)"

definition digit_groups :: "smatch \<Rightarrow> bool" where
  "digit_groups m \<longleftrightarrow> (\<forall>c \<in> set (match_str m 2). is_digit c) \<and> (\<forall>c \<in> set (match_str m 4). is_digit c)"

lemma match_str_scan [simp]:
  "match_str (scan_match c s) 1 = [c]" "match_str (scan_match c s) (Suc 0) = [c]"
  "match_str (scan_match c s) 2 = takeWhile is_digit s"
  "match_str (scan_match c s) 3 = (if scan_x s \<noteq> [] \<and> hd (scan_x s) = CHR ''x'' then ''x'' else [])"
  "match_str (scan_match c s) 4 = takeWhile is_digit (scan_pow s)"
  by (simp_all add: match_str_def scan_match_def)

lemma scan_all_digit_groups: "\<forall>m \<in> set (scan_all s). digit_groups m"
proof (induction s rule: scan_all.induct)
  case (2 c s)
  have "digit_groups (scan_match c s)"
    by (auto simp: digit_groups_def dest: set_takeWhileD)
  with "2" show ?case by (cases "is_sign c") simp_all
qed simp

lemma term_of_pow_nonneg: "digit_groups m \<Longrightarrow> 0 \<le> snd (term_of m)"
  by (auto simp: term_of_def digit_groups_def intro: digits_val_nonneg)

subsection \<open>The map of coefficients\<close>

lemma map_of_oset_insert:
  "k \<notin> fst ` set m \<Longrightarrow> map_of (oset_insert fst (k, v) m) = (map_of m)(k \<mapsto> v)"
  by (induction m) auto

lemma map_of_oset_erase: "map_of (oset_erase fst k m) = (map_of m)(k := None)"
  by (induction m) (auto simp: oset_erase_def)

lemma map_of_map_set: "map_of (map_set k v m) = (map_of m)(k \<mapsto> v)"
proof -
  have "k \<notin> fst ` set (oset_erase fst k m)" by (auto simp: oset_erase_def)
  then show ?thesis by (simp add: map_set_def map_of_oset_insert map_of_oset_erase)
qed

lemma map_at_map_set: "map_at (map_set k v m) j = (if j = k then v else map_at m j)"
  by (simp add: map_at_def map_of_map_set)

lemma fst_set_map_set: "fst ` set (map_set k v m) = insert k (fst ` set m)"
proof -
  have "dom (map_of (map_set k v m)) = insert k (dom (map_of m))"
    by (simp add: map_of_map_set)
  then show ?thesis by (simp add: dom_map_of_conv_image_fst)
qed

lemma oset_inv_map_set: "oset_inv fst m \<Longrightarrow> oset_inv fst (map_set k v m)"
  by (simp add: map_set_def oset_inv_insert oset_inv_erase)

lemma string_to_int_digits:
  assumes "\<forall>c \<in> set s. is_digit c" "in_int d"
  shows "string_to_int s d =
    (let v = if s = [] then d else digits_val s in if in_int v then Inr v else Inl OutOfRange)"
  using assms by (simp add: string_to_int_def stoi_digits)

text \<open>One match adds its term; the only failures are numbers and sums that do not fit.\<close>

lemma add_match_eq:
  assumes "digit_groups m"
  shows "add_match m M =
    (let c = (if match_str m 2 = [] then 1 else digits_val (match_str m 2)) in
     if \<not> in_int c then Inl OutOfRange
     else if \<not> in_int (snd (term_of m)) then Inl OutOfRange
     else if \<not> in_int (map_at M (snd (term_of m)) + fst (term_of m)) then Inl SignedOverflow
     else Inr (map_set (snd (term_of m)) (map_at M (snd (term_of m)) + fst (term_of m)) M))"
proof -
  define c where "c = (if match_str m 2 = [] then 1 else digits_val (match_str m 2))"
  have one: "in_int 1" "in_int 0" by (simp_all add: in_int_def)
  have "0 \<le> c" using assms by (simp add: c_def digit_groups_def digits_val_nonneg)
  then have sgn: "(if match_str m 1 = ''-'' then int_check (c * -1) else Inr c) = Inr (fst (term_of m))"
    if "in_int c" using that by (simp add: term_of_def c_def [symmetric] cpp_arith)
  have con: "string_to_int (match_str m 2) 1 = (if in_int c then Inr c else Inl OutOfRange)"
    using assms one by (simp add: digit_groups_def string_to_int_digits c_def Let_def)
  have pow: "string_to_int (match_str m 4) (if match_str m 3 \<noteq> [] then 1 else 0) =
    (if in_int (snd (term_of m)) then Inr (snd (term_of m)) else Inl OutOfRange)"
    using assms one by (simp add: digit_groups_def string_to_int_digits Let_def term_of_def)
  show ?thesis
    unfolding add_match_def Let_def c_def [symmetric] con pow
    by (cases "in_int c") (simp_all only: if_True if_False not_False_eq_True bindE_simps sgn, simp add: int_check_def)
qed

lemma coeff_Cons: "coeff (t # ts) k = (if snd t = k then fst t else 0) + coeff ts k"
  by (simp add: coeff_def)

lemma coeff_append: "coeff (ts @ us) k = coeff ts k + coeff us k"
  by (simp add: coeff_def)

lemma coeff_rev: "coeff (rev ts) k = coeff ts k"
  by (induction ts) (auto simp: coeff_append coeff_Cons, simp add: coeff_def)

text \<open>After the loop over the matches the map holds exactly the coefficients.\<close>

lemma add_matches_coeff:
  assumes "add_matches ms M = Inr M'" "\<forall>m \<in> set ms. digit_groups m"
    and "oset_inv fst M" "\<forall>k \<in> fst ` set M. 0 \<le> k"
  shows "oset_inv fst M' \<and> (\<forall>k \<in> fst ` set M'. 0 \<le> k) \<and>
    (\<forall>k. map_at M' k = map_at M k + coeff (map term_of ms) k)"
  using assms
proof (induction ms arbitrary: M)
  case Nil
  then show ?case by (simp add: coeff_def)
next
  case (Cons m ms)
  let ?p = "snd (term_of m)"
  let ?M = "map_set ?p (map_at M ?p + fst (term_of m)) M"
  have "digit_groups m" using Cons.prems(2) by simp
  with Cons.prems(1) have rest: "add_matches ms ?M = Inr M'"
    by (auto simp: bindE_Inr_iff add_match_eq Let_def split: if_splits)
  have ord: "oset_inv fst ?M" using Cons.prems(3) by (rule oset_inv_map_set)
  have keys: "\<forall>k \<in> fst ` set ?M. 0 \<le> k"
    using Cons.prems(4) term_of_pow_nonneg [OF \<open>digit_groups m\<close>] by (simp add: fst_set_map_set)
  have "\<forall>m \<in> set ms. digit_groups m" using Cons.prems(2) by simp
  note IH = Cons.IH [OF rest this ord keys]
  have "map_at M' k = map_at M k + coeff (map term_of (m # ms)) k" for k
    using IH by (simp add: map_at_map_set coeff_Cons)
  with IH show ?case by blast
qed

section \<open>Printing\<close>

text \<open>A term as it is printed, with its sign always written.\<close>

definition signed_term :: "int \<times> int \<Rightarrow> string" where
  "signed_term t =
     (if fst t < 0 then CHR ''-'' else CHR ''+'') # nat_string \<bar>fst t\<bar> @
     (if 0 < snd t then ''*x'' @ (if 1 < snd t then CHR ''^'' # nat_string (snd t) else []) else [])"

definition deriv_term :: "int \<times> int \<Rightarrow> int \<times> int" where
  "deriv_term it = (fst it * snd it, fst it - 1)"

definition opt_sign :: "string \<Rightarrow> string" where
  "opt_sign s = (if s = [] then [] else add_sign s)"

lemma opt_sign_append: "s \<noteq> [] \<Longrightarrow> opt_sign (s @ t) = opt_sign s @ t"
  by (simp add: opt_sign_def add_sign_def)

lemma opt_sign_to_string: "opt_sign (to_string z @ t) =
  (if z < 0 then CHR ''-'' else CHR ''+'') # nat_string \<bar>z\<bar> @ t"
proof (cases "z < 0")
  case True
  then show ?thesis by (simp add: opt_sign_def add_sign_def to_string_def)
next
  case False
  obtain c ds where "nat_string z = c # ds" by (cases "nat_string z") auto
  moreover have "is_digit c" using nat_string_digits [of z] False calculation by simp
  ultimately show ?thesis using False by (simp add: opt_sign_def add_sign_def to_string_def)
qed

lemma product_not_unit: "1 < f \<Longrightarrow> \<bar>f * s\<bar> \<noteq> (1 :: int)"
  using abs_zmult_eq_1 by fastforce

text \<open>
  A printed coefficient is never left out: with \<open>x\<close> present the power was at least two, so
  the new constant is not \<open>1\<close> or \<open>-1\<close>.
\<close>

lemma append_term_prints:
  assumes "append_term it result = Inr result'" "0 \<le> fst it"
  shows "opt_sign result' = opt_sign result @
    (if fst it = 0 then [] else signed_term (deriv_term it))"
proof (cases "fst it = 0")
  case True
  with assms(1) show ?thesis by (simp add: append_term_def)
next
  case False
  define c where "c = fst it * snd it"
  define tail where "tail = (if 1 < fst it then ''*x'' @ (if 2 < fst it then ''^'' @ to_string (fst it - 1) else []) else [])"
  have unit: "1 < fst it \<Longrightarrow> \<bar>c\<bar> \<noteq> 1" unfolding c_def by (rule product_not_unit)
  from assms(1) False unit have res: "result' =
      appendIf result (0 \<le> c \<and> result \<noteq> []) ''+'' @ to_string c @ tail"
    by (auto simp: append_term_def Let_def bindE_Inr_iff int_check_Inr_iff appendIf_def tail_def
        c_def [symmetric] split: if_splits)
  have st: "signed_term (deriv_term it) = (if c < 0 then CHR ''-'' else CHR ''+'') # nat_string \<bar>c\<bar> @ tail"
    using False assms(2) by (auto simp: signed_term_def deriv_term_def tail_def c_def to_string_def)
  show ?thesis
  proof (cases "result = []")
    case True
    with res st False show ?thesis by (simp add: appendIf_def opt_sign_to_string) (simp add: opt_sign_def)
  next
    case nonempty: False
    with res st False show ?thesis
      by (auto simp: appendIf_def opt_sign_append to_string_def)
  qed
qed

lemma append_terms_prints:
  assumes "append_terms its result = Inr d" "\<forall>k \<in> fst ` set its. 0 \<le> k"
  shows "opt_sign d = opt_sign result @
    concat (map (\<lambda>it. signed_term (deriv_term it)) (filter (\<lambda>it. fst it \<noteq> 0) its))"
  using assms
proof (induction its arbitrary: result)
  case Nil
  then show ?case by simp
next
  case (Cons it its)
  then obtain result' where r: "append_term it result = Inr result'" "append_terms its result' = Inr d"
    by (auto simp: bindE_Inr_iff)
  have "opt_sign result' = opt_sign result @ (if fst it = 0 then [] else signed_term (deriv_term it))"
    using r(1) Cons.prems(2) by (intro append_term_prints) auto
  with Cons.IH [OF r(2)] Cons.prems(2) show ?case by simp
qed

section \<open>Printed terms are scanned back\<close>

lemma hd_sign_not: "r = [] \<or> is_sign (hd r) \<Longrightarrow> r = [] \<or> \<not> is_digit (hd r)"
  by (auto simp: is_sign_def is_digit_def)

lemma drop_opt_sign: "r = [] \<or> is_sign (hd r) \<Longrightarrow> c \<noteq> CHR ''+'' \<Longrightarrow> c \<noteq> CHR ''-'' \<Longrightarrow> drop_opt c r = r"
  by (cases r) (auto simp: drop_opt_def is_sign_def)

lemma drop_opt_same [simp]: "drop_opt c (c # r) = r"
  by (simp add: drop_opt_def)

lemma scan_signed_term:
  assumes "0 \<le> snd t" "r = [] \<or> is_sign (hd r)"
  shows "\<exists>m. scan_all (signed_term t @ r) = m # scan_all r \<and> term_of m = t"
proof -
  define ds where "ds = nat_string \<bar>fst t\<bar>"
  define es where "es = (if 1 < snd t then nat_string (snd t) else [])"
  define tail where "tail = (if 0 < snd t then ''*x'' @ (if 1 < snd t then CHR ''^'' # es else []) else [])"
  define c where "c = (if fst t < 0 then CHR ''-'' else CHR ''+'')"
  have s: "signed_term t @ r = c # ds @ tail @ r"
    by (simp add: signed_term_def ds_def es_def tail_def c_def)
  have ds: "\<forall>c \<in> set ds. is_digit c" "ds \<noteq> []" "digits_val ds = \<bar>fst t\<bar>"
    using nat_string_digits [of "\<bar>fst t\<bar>"] by (simp_all add: ds_def digits_val_nat_string)
  have es: "\<forall>c \<in> set es. is_digit c"
    using nat_string_digits [of "snd t"] assms(1) by (simp add: es_def)
  have "is_digit CHR ''*'' = False" by (simp add: is_digit_def)
  then have nd: "tail @ r = [] \<or> \<not> is_digit (hd (tail @ r))"
    using hd_sign_not [OF assms(2)] by (auto simp: tail_def)
  have x: "scan_x (ds @ tail @ r) = (if 0 < snd t then CHR ''x'' # (if 1 < snd t then CHR ''^'' # es else []) @ r else r)"
    using takeWhile_digits_append [OF ds(1) nd] drop_opt_sign [OF assms(2)]
    by (simp add: scan_x_def tail_def)
  have p: "scan_pow (ds @ tail @ r) = es @ r"
    using drop_opt_sign [OF assms(2)] by (simp add: scan_pow_def x es_def)
  note tw = takeWhile_digits_append [OF ds(1) nd] takeWhile_digits_append [OF es hd_sign_not [OF assms(2)]]
  have "is_sign c" by (simp add: c_def is_sign_def)
  then have "scan_all (signed_term t @ r) = scan_match c (ds @ tail @ r) # scan_all r"
    unfolding s by (simp add: p tw)
  moreover have "term_of (scan_match c (ds @ tail @ r)) = t"
  proof (rule prod_eqI)
    show "fst (term_of (scan_match c (ds @ tail @ r))) = fst t"
      using tw ds by (simp add: term_of_def c_def)
    have "hd r \<noteq> CHR ''x'' \<or> r = []" using assms(2) by (auto simp: is_sign_def)
    then show "snd (term_of (scan_match c (ds @ tail @ r))) = snd t"
      using tw assms(1) by (auto simp: term_of_def p x es_def digits_val_nat_string)
  qed
  ultimately show ?thesis by blast
qed

lemma signed_term_hd: "is_sign (hd (signed_term t))" "signed_term t \<noteq> []"
  by (simp_all add: signed_term_def is_sign_def)

lemma scan_signed_terms:
  assumes "\<forall>t \<in> set ts. 0 \<le> snd t"
  shows "map term_of (scan_all (concat (map signed_term ts))) = ts"
  using assms
proof (induction ts)
  case (Cons t ts)
  have "concat (map signed_term ts) = [] \<or> is_sign (hd (concat (map signed_term ts)))"
    using signed_term_hd by (cases ts) auto
  with scan_signed_term [of t "concat (map signed_term ts)"] Cons show ?case by fastforce
qed simp

lemma poly_terms_opt_sign: "poly_terms s = map term_of (scan_all (opt_sign s))"
  by (simp add: poly_terms_def opt_sign_def regex_matches_scan)

text \<open>The derived terms of an ordered map have the derived coefficients.\<close>

lemma coeff_deriv_terms:
  assumes "oset_inv fst M" "0 \<le> k"
  shows "coeff (map deriv_term (filter (\<lambda>it. fst it \<noteq> 0) M)) k = (k + 1) * map_at M (k + 1)"
  using assms
proof (induction M)
  case Nil
  then show ?case by (simp add: coeff_def map_at_def)
next
  case (Cons it M)
  have inv: "oset_inv fst M" using Cons.prems(1) by (simp add: oset_inv_def)
  have later: "map_of M (fst it) = None"
    using Cons.prems(1) by (auto simp: oset_inv_def map_of_eq_None_iff)
  show ?case
    using Cons.IH [OF inv Cons.prems(2)] later Cons.prems(2)
    by (cases it) (auto simp: coeff_Cons deriv_term_def map_at_def algebra_simps)
qed

section \<open>When the program returns\<close>

definition total :: "(int \<times> int) list \<Rightarrow> int" where
  "total ts = (\<Sum>t \<leftarrow> ts. \<bar>fst t\<bar>)"

lemma total_Cons [simp]: "total (t # ts) = \<bar>fst t\<bar> + total ts" "total [] = 0"
  by (simp_all add: total_def)

lemma total_nonneg: "0 \<le> total ts"
  by (induction ts) auto

lemma abs_coeff_le: "\<bar>coeff ts k\<bar> \<le> total ts"
  by (induction ts) (auto simp: coeff_Cons coeff_def)

lemma add_matches_returns:
  assumes "\<forall>m \<in> set ms. digit_groups m" "\<forall>m \<in> set ms. snd (term_of m) < 2 ^ 31"
    and "\<forall>k. \<bar>map_at M k\<bar> + total (map term_of ms) < 2 ^ 31"
  shows "\<exists>M'. add_matches ms M = Inr M' \<and>
    fst ` set M' = fst ` set M \<union> snd ` term_of ` set ms"
  using assms
proof (induction ms arbitrary: M)
  case (Cons m ms)
  let ?p = "snd (term_of m)" and ?c = "fst (term_of m)"
  let ?M = "map_set ?p (map_at M ?p + ?c) M"
  have m: "digit_groups m" "?p < 2 ^ 31" using Cons.prems(1,2) by auto
  have sum: "\<bar>map_at M ?p\<bar> + \<bar>?c\<bar> + total (map term_of ms) < 2 ^ 31"
    using Cons.prems(3) by (simp add: add.assoc)
  have small: "\<bar>?c\<bar> < 2 ^ 31" using sum total_nonneg [of "map term_of ms"] by linarith
  have "0 \<le> ?p" using m(1) by (rule term_of_pow_nonneg)
  with m(2) have "in_int ?p" by (simp add: in_int_def)
  moreover have "in_int (map_at M ?p + ?c)"
    using sum total_nonneg [of "map term_of ms"] unfolding in_int_def by arith
  moreover have "in_int (if match_str m 2 = [] then 1 else digits_val (match_str m 2))"
    using small by (auto simp: in_int_def term_of_def split: if_splits)
  ultimately have add: "add_match m M = Inr ?M" by (simp add: add_match_eq [OF m(1)])
  have "\<forall>k. \<bar>map_at ?M k\<bar> + total (map term_of ms) < 2 ^ 31"
  proof
    fix k
    have "\<bar>map_at M k\<bar> + (\<bar>?c\<bar> + total (map term_of ms)) < 2 ^ 31" using Cons.prems(3) by simp
    then show "\<bar>map_at ?M k\<bar> + total (map term_of ms) < 2 ^ 31"
      unfolding map_at_map_set using abs_triangle_ineq [of "map_at M k" ?c] by (cases "k = ?p") auto
  qed
  with Cons.IH [of ?M] Cons.prems(1,2) obtain M' where
    "add_matches ms ?M = Inr M'" "fst ` set M' = fst ` set ?M \<union> snd ` term_of ` set ms" by auto
  with add show ?case by (auto simp: fst_set_map_set)
qed simp

lemma append_terms_returns:
  assumes "\<forall>it \<in> set its. \<bar>fst it * snd it\<bar> < 2 ^ 31"
  shows "\<exists>d. append_terms its result = Inr d"
  using assms
proof (induction its arbitrary: result)
  case (Cons it its)
  have "\<exists>r. append_term it result = Inr r"
    using Cons.prems by (auto simp: append_term_def Let_def cpp_arith)
  then obtain r where "append_term it result = Inr r" by blast
  with Cons show ?case by simp
qed simp

section \<open>Properties of the derivative\<close>

text \<open>
  Property C8. The pattern needs no backtracking: the matches the regular-expression iterator
  delivers on any text are those of the direct left-to-right scanner.
\<close>
theorem regex_iterator_scans: "regex_matches reg s = scan_all s"
  by (rule regex_matches_scan)

text \<open>
  When \<open>derivative\<close> returns, the text it returns denotes, read with the same
  pattern, the formal derivative of the polynomial its argument denotes: the coefficient of
  \<open>x^k\<close> is \<open>k + 1\<close> times the coefficient of \<open>x^(k+1)\<close>.
\<close>
lemma derivative_denotes:
  assumes "derivative p = Inr d" "0 \<le> k"
  shows "coeff (poly_terms d) k = (k + 1) * coeff (poly_terms p) (k + 1)"
proof -
  have p: "p \<noteq> []" using assms(1) by (auto simp: derivative_def)
  let ?ms = "regex_matches reg (add_sign p)"
  obtain M where M: "add_matches ?ms [] = Inr M" "append_terms (rev M) [] = Inr d"
    using assms(1) p by (auto simp: derivative_def bindE_Inr_iff)
  have "\<forall>m \<in> set ?ms. digit_groups m" unfolding regex_matches_scan by (rule scan_all_digit_groups)
  with add_matches_coeff [OF M(1)] have inv: "oset_inv fst M" "\<forall>k \<in> fst ` set M. 0 \<le> k"
    and at: "\<And>k. map_at M k = coeff (poly_terms p) k"
    using p by (auto simp: oset_inv_def map_at_def poly_terms_def)
  let ?ts = "map deriv_term (filter (\<lambda>it. fst it \<noteq> 0) (rev M))"
  have "opt_sign d = concat (map signed_term ?ts)"
    using append_terms_prints [OF M(2)] inv(2) by (simp add: opt_sign_def comp_def)
  moreover have "\<forall>t \<in> set ?ts. 0 \<le> snd t" using inv(2) by (force simp: deriv_term_def)
  ultimately have "poly_terms d = ?ts"
    unfolding poly_terms_opt_sign by (simp only: scan_signed_terms)
  also have "\<dots> = rev (map deriv_term (filter (\<lambda>it. fst it \<noteq> 0) M))"
    by (simp add: rev_filter [symmetric] rev_map)
  finally show ?thesis
    using coeff_deriv_terms [OF inv(1) assms(2)] by (simp only: coeff_rev at)
qed

text \<open>
  \<open>derivative\<close> throws \<open>out_of_range\<close> on the empty text, and returns on any
  other text whose powers fit an \<open>int\<close> and whose constants, added up in absolute value and
  multiplied by the largest power, do.
\<close>
lemma derivative_returns:
  "derivative [] = Inl OutOfRange \<and>
   (\<forall>p. p \<noteq> [] \<longrightarrow>
      (\<forall>t \<in> set (poly_terms p). snd t < 2 ^ 31 \<and> total (poly_terms p) * max 1 (snd t) < 2 ^ 31) \<longrightarrow>
      (\<exists>d. derivative p = Inr d))"
proof (intro conjI allI impI)
  show "derivative [] = Inl OutOfRange" by (simp add: derivative_def)
  fix p :: string
  let ?ms = "regex_matches reg (add_sign p)" and ?ts = "poly_terms p"
  assume p: "p \<noteq> []"
    and b: "\<forall>t \<in> set ?ts. snd t < 2 ^ 31 \<and> total ?ts * max 1 (snd t) < 2 ^ 31"
  have ts: "?ts = map term_of ?ms" using p by (simp add: poly_terms_def)
  have dg: "\<forall>m \<in> set ?ms. digit_groups m"
    unfolding regex_matches_scan by (rule scan_all_digit_groups)
  have "total ?ts < 2 ^ 31"
  proof (cases ?ts)
    case (Cons t us)
    then have "total ?ts * max 1 (snd t) < 2 ^ 31" using b by simp
    then show ?thesis using mult_left_mono [of 1 "max 1 (snd t)" "total ?ts"] total_nonneg [of ?ts]
      by simp
  qed simp
  then have "\<forall>k. \<bar>map_at [] k\<bar> + total (map term_of ?ms) < 2 ^ 31"
    by (simp add: map_at_def ts)
  moreover have "\<forall>m \<in> set ?ms. snd (term_of m) < 2 ^ 31" using b by (simp add: ts)
  ultimately obtain M where M: "add_matches ?ms [] = Inr M" "fst ` set M = snd ` set ?ts"
    using add_matches_returns [OF dg, of "[]"] by (auto simp: ts)
  with add_matches_coeff [OF M(1) dg] have inv: "oset_inv fst M"
    and at: "\<And>k. map_at M k = coeff ?ts k" by (auto simp: oset_inv_def map_at_def ts)
  have "\<bar>fst it * snd it\<bar> < 2 ^ 31" if it: "it \<in> set M" for it
  proof -
    obtain t where t: "t \<in> set ?ts" "fst it = snd t" using M(2) it by force
    have "0 \<le> snd t" using t(1) dg by (auto simp: ts term_of_pow_nonneg)
    have "distinct (map fst M)" using inv by (simp add: oset_inv_def strict_sorted_iff)
    with it have "map_of M (fst it) = Some (snd it)" by simp
    then have "snd it = map_at M (fst it)" by (simp add: map_at_def)
    then have "\<bar>snd it\<bar> \<le> total ?ts" by (simp add: at abs_coeff_le)
    then have "\<bar>fst it * snd it\<bar> \<le> max 1 (snd t) * total ?ts"
      using \<open>0 \<le> snd t\<close> t(2) by (simp add: abs_mult mult_mono total_nonneg)
    with b t(1) show ?thesis by (fastforce simp: mult.commute)
  qed
  with append_terms_returns [of "rev M"] have "\<exists>d. append_terms (rev M) [] = Inr d" by simp
  with M(1) p show "\<exists>d. derivative p = Inr d" by (simp add: derivative_def)
qed

text \<open>
  Property C9. \<open>derivative\<close> throws \<open>out_of_range\<close> on the empty text, and returns on any
  other text whose powers fit an \<open>int\<close> and whose constants, added up in absolute value and
  multiplied by the largest power, do. What it returns denotes, read with the same pattern, the
  formal derivative of the polynomial its argument denotes: the coefficient of \<open>x^k\<close> is
  \<open>k + 1\<close> times the coefficient of \<open>x^(k+1)\<close>.
\<close>

theorem derivative_correct:
  "derivative [] = Inl OutOfRange \<and>
   (\<forall>p. p \<noteq> [] \<longrightarrow>
      (\<forall>t \<in> set (poly_terms p). snd t < 2 ^ 31 \<and> total (poly_terms p) * max 1 (snd t) < 2 ^ 31) \<longrightarrow>
      (\<exists>d. derivative p = Inr d)) \<and>
   (\<forall>p d k. derivative p = Inr d \<longrightarrow> 0 \<le> k \<longrightarrow> coeff (poly_terms d) k = (k + 1) * coeff (poly_terms p) (k + 1))"
  using derivative_returns derivative_denotes by blast

theorem derivative_correct_witness:
  "\<exists>d. derivative ''x^10000+x+1'' = Inr d \<and> coeff (poly_terms d) 9999 = 10000"
proof -
  have terms: "poly_terms ''x^10000+x+1'' = [(1, 10000), (1, 1), (1, 0)]" by code_simp
  have "\<forall>t \<in> set (poly_terms ''x^10000+x+1''). snd t < 2 ^ 31 \<and> total (poly_terms ''x^10000+x+1'') * max 1 (snd t) < 2 ^ 31"
    unfolding terms by simp
  then obtain d where d: "derivative ''x^10000+x+1'' = Inr d" using derivative_correct by blast
  have "coeff (poly_terms d) 9999 = (9999 + 1) * coeff (poly_terms ''x^10000+x+1'') (9999 + 1)"
    using derivative_correct d by fastforce
  moreover have "coeff (poly_terms ''x^10000+x+1'') (9999 + 1) = 1" unfolding terms by code_simp
  ultimately show ?thesis using d by simp
qed

text \<open>The five assertions of \<open>main\<close> hold.\<close>

lemma derivative_assertions:
  "derivative ''x^2+x'' = Inr ''2*x+1''"
  "derivative ''2*x^100+100*x^2'' = Inr ''200*x^99+200*x''"
  "derivative ''x^10000+x+1'' = Inr ''10000*x^9999+1''"
  "derivative ''-x^2-x^3'' = Inr ''-3*x^2-2*x''"
  "derivative ''x+x+x+x+x+x+x+x+x+x'' = Inr ''10''"
  by code_simp+

theorem derivative_main_returns: "derivative_main = Inr (Some 0)"
  by (simp add: derivative_main_def derivative_assertions)

end
