(* ===== verification/Prefix_Sum.thy ===== *)
theory Prefix_Sum
  imports Text_IO
begin

text \<open>
  \<open>parallel_programming/prefix_sum.cpp\<close>: the step-doubling prefix sum, once as a plain
  loop and once with an OpenMP work-sharing loop, and the command-line program around them.
\<close>

section \<open>The algorithm\<close>

text \<open>\<open>1 << step\<close> on \<open>int\<close> (C++20: reduced modulo the width; undefined from the width on).\<close>

definition shl_one :: "nat \<Rightarrow> int result" where
  "shl_one step = (if 32 \<le> step then Inl BadShift else Inr (to_int32 (2 ^ step)))"

text \<open>One iteration: \<open>curPrefSum[i + (1 << step)] += prevPrefSum[i];\<close>\<close>

definition add_cell :: "nat \<Rightarrow> int list \<Rightarrow> nat \<Rightarrow> int list \<Rightarrow> int list result" where
  "add_cell sh prevPrefSum i curPrefSum =
     (if i < length prevPrefSum \<and> i + sh < length curPrefSum then
        bindE (int_check (curPrefSum ! (i + sh) + prevPrefSum ! i)) (\<lambda>v.
        Inr (curPrefSum[i + sh := v]))
      else Inl OutOfBounds)"

text \<open>The iterations of the inner loop, in the order in which they are executed.\<close>

fun add_cells :: "nat \<Rightarrow> int list \<Rightarrow> nat list \<Rightarrow> int list \<Rightarrow> int list result" where
  "add_cells sh prevPrefSum [] curPrefSum = Inr curPrefSum"
| "add_cells sh prevPrefSum (i # is) curPrefSum =
     bindE (add_cell sh prevPrefSum i curPrefSum) (add_cells sh prevPrefSum is)"

text \<open>
  The outer loop. \<open>order step m\<close> lists the iterations \<open>0, \<dots>, m - 1\<close> of the inner loop
  in the order of their execution.
\<close>

function pref_loop :: "(nat \<Rightarrow> nat \<Rightarrow> nat list) \<Rightarrow> int \<Rightarrow> nat \<Rightarrow> int list \<Rightarrow> int list \<Rightarrow> int list result" where
  "pref_loop order n step prevPrefSum curPrefSum =
     bindE (shl_one step) (\<lambda>sh.
     if sh < n then
       bindE (int_check (n - sh)) (\<lambda>m.
       bindE (add_cells (nat sh) prevPrefSum (order step (nat m)) curPrefSum) (\<lambda>curPrefSum.
       pref_loop order n (Suc step) curPrefSum curPrefSum))
     else Inr curPrefSum)"
  by pat_completeness auto
termination
proof (relation "measure (\<lambda>(order, n, step, prevPrefSum, curPrefSum). 32 - step)")
qed (auto simp: shl_one_def bindE_def split: if_splits sum.splits)

declare pref_loop.simps [simp del]

definition prefSum :: "int list \<Rightarrow> int list result" where
  "prefSum a = pref_loop (\<lambda>step m. [0..<m]) (to_int32 (int (length a))) 0 a a"

text \<open>
  The loop with \<open>#pragma omp for schedule(static)\<close>: \<open>order\<close> is the order the OpenMP
  runtime executes the iterations in. \<open>omp_set_num_threads\<close> has no effect on the result.
\<close>

definition prefSumParallelAlgorithm :: "(nat \<Rightarrow> nat \<Rightarrow> nat list) \<Rightarrow> int list \<Rightarrow> int \<Rightarrow> int list result" where
  "prefSumParallelAlgorithm order a threadsCnt =
     pref_loop order (to_int32 (int (length a))) 0 a a"

section \<open>The program\<close>

text \<open>
  The outside of the program: input files, files that can be opened for writing, and the
  two measured times. The outcome is what is printed and the output file written, if any.
\<close>

record prefix_env =
  input_file :: "string \<Rightarrow> string option"
  writable :: "string \<Rightarrow> bool"
  sequential_ms :: int
  parallel_ms :: int

type_synonym outcome = "string \<times> (string \<times> string) option"

definition newline :: string where
  "newline = [CHR 0x0A]"

fun read_elements :: "nat \<Rightarrow> int \<Rightarrow> string \<Rightarrow> string + int list" where
  "read_elements 0 i s = Inr []"
| "read_elements (Suc k) i s =
     (case extract_int s of
        None \<Rightarrow> Inl (''Error: Element '' @ to_string (i + 1) @ '' isn't integer'')
      | Some (v, r) \<Rightarrow> map_sum id (\<lambda>vs. v # vs) (read_elements k (i + 1) r))"

definition print_vector :: "int \<Rightarrow> int list \<Rightarrow> string" where
  "print_vector n xs = to_string n @ newline @ concat (map (\<lambda>x. to_string x @ '' '') xs) @ newline"

definition print_times :: "prefix_env \<Rightarrow> int \<Rightarrow> string" where
  "print_times env threadsCnt =
     ''Time: '' @ to_string (sequential_ms env) @ ''ms'' @ newline @
     ''Time ('' @ to_string threadsCnt @ '' thread'' @ (if 1 < threadsCnt then ''s'' else []) @
     ''): '' @ to_string (parallel_ms env) @ ''ms'' @ newline"

definition prefix_sum_main ::
  "prefix_env \<Rightarrow> (nat \<Rightarrow> nat \<Rightarrow> nat list) \<Rightarrow> string list \<Rightarrow> outcome result" where
  "prefix_sum_main env order argv =
     (if length argv - 1 < 2 then Inr (''Error: Not enough arguments'', None)
      else case extract_int (argv ! 1) of
        None \<Rightarrow> Inr (''Error: First argument isn't integer'', None)
      | Some (threadsCnt, _) \<Rightarrow>
     (case input_file env (argv ! 2) of
        None \<Rightarrow> Inr (''Error: Input file not found'', None)
      | Some fin \<Rightarrow>
     (case extract_int fin of
        None \<Rightarrow> Inr (''Error: N isn't integer'', None)
      | Some (n, fin) \<Rightarrow>
          if n < 0 then Inl LengthError
          else case read_elements (nat n) 0 fin of
            Inl msg \<Rightarrow> Inr (msg, None)
          | Inr a \<Rightarrow>
              bindE (prefSum a) (\<lambda>prefSequentialAlgorithm.
              bindE (prefSumParallelAlgorithm order a threadsCnt) (\<lambda>prefParallelAlgorithm.
              if 2 < length argv - 1 then
                if \<not> writable env (argv ! 3) then Inr (''Error: Fail with output file'', None)
                else Inr (print_times env threadsCnt,
                          Some (argv ! 3, print_vector n prefParallelAlgorithm))
              else Inr (print_vector n prefParallelAlgorithm @ print_times env threadsCnt, None))))))"

section \<open>The order of the iterations does not matter\<close>

text \<open>What the inner loop computes, cell by cell.\<close>

definition shifted_sum :: "nat \<Rightarrow> int list \<Rightarrow> nat set \<Rightarrow> int list \<Rightarrow> int list" where
  "shifted_sum sh prev I cur =
     map (\<lambda>j. if sh \<le> j \<and> j - sh \<in> I then cur ! j + prev ! (j - sh) else cur ! j) [0..<length cur]"

lemma length_shifted_sum [simp]: "length (shifted_sum sh prev I cur) = length cur"
  by (simp add: shifted_sum_def)

lemma nth_shifted_sum: "j < length cur \<Longrightarrow> shifted_sum sh prev I cur ! j =
  (if sh \<le> j \<and> j - sh \<in> I then cur ! j + prev ! (j - sh) else cur ! j)"
  by (simp add: shifted_sum_def)

lemma add_cells_eq:
  assumes "distinct is" "\<forall>i \<in> set is. i < length prev \<and> i + sh < length cur"
  shows "add_cells sh prev is cur =
    (if \<forall>i \<in> set is. in_int (cur ! (i + sh) + prev ! i) then Inr (shifted_sum sh prev (set is) cur)
     else Inl SignedOverflow)"
  using assms
proof (induction "is" arbitrary: cur)
  case Nil
  show ?case by (simp add: shifted_sum_def map_nth)
next
  case (Cons i "is")
  let ?v = "cur ! (i + sh) + prev ! i"
  let ?cur = "cur[i + sh := ?v]"
  have other: "?cur ! (k + sh) = cur ! (k + sh)" if "k \<in> set is" for k
  proof -
    have "i + sh \<noteq> k + sh" using that Cons.prems(1) by auto
    then show ?thesis by (rule nth_list_update_neq)
  qed
  have IH: "add_cells sh prev is ?cur =
    (if \<forall>i \<in> set is. in_int (cur ! (i + sh) + prev ! i) then Inr (shifted_sum sh prev (set is) ?cur)
     else Inl SignedOverflow)"
    using Cons.IH [of ?cur] Cons.prems other by auto
  have "shifted_sum sh prev (set is) ?cur = shifted_sum sh prev (set (i # is)) cur"
    using Cons.prems by (intro nth_equalityI) (auto simp: nth_shifted_sum nth_list_update)
  with IH Cons.prems(2) show ?case by (auto simp: add_cell_def int_check_def)
qed

definition valid_order :: "(nat \<Rightarrow> nat \<Rightarrow> nat list) \<Rightarrow> bool" where
  "valid_order order \<longleftrightarrow> (\<forall>step m. distinct (order step m) \<and> set (order step m) = {0..<m})"

lemma add_cells_order:
  assumes "valid_order order" "sh + m \<le> length cur" "m \<le> length prev"
  shows "add_cells sh prev (order step m) cur = add_cells sh prev [0..<m] cur"
proof -
  have "\<forall>i \<in> {0..<m}. i < length prev \<and> i + sh < length cur" using assms by auto
  then show ?thesis using assms(1) by (simp add: add_cells_eq valid_order_def)
qed

lemma add_cells_length: "add_cells sh prev is cur = Inr cur' \<Longrightarrow> length cur' = length cur"
  by (induction "is" arbitrary: cur)
    (auto simp: bindE_Inr_iff add_cell_def split: if_splits)

lemma shl_one_small: "step < 31 \<Longrightarrow> shl_one step = Inr (2 ^ step)"
proof -
  assume s: "step < 31"
  then have "(2::int) ^ step < 2 ^ 31" by (intro power_strict_increasing) auto
  moreover have "(0::int) < 2 ^ step" by simp
  ultimately have "in_int (2 ^ step)" unfolding in_int_def by linarith
  with s show ?thesis by (simp add: shl_one_def)
qed

lemma shl_one_31: "shl_one 31 = Inr (- (2 ^ 31))"
  by (simp add: shl_one_def to_int32_def)

text \<open>The loop at a step that is in range, and at the one where the shift turns negative.\<close>

lemma pref_loop_step:
  assumes "step < 31" "n = int (length cur)" "in_int n"
  shows "pref_loop order n step prev cur =
    (if 2 ^ step < n then
       bindE (add_cells (2 ^ step) prev (order step (length cur - 2 ^ step)) cur) (\<lambda>cur.
       pref_loop order n (Suc step) cur cur)
     else Inr cur)"
proof -
  have "in_int (n - 2 ^ step)" if "2 ^ step < n"
  proof -
    have "(0::int) < 2 ^ step" by simp
    with that assms(3) show ?thesis unfolding in_int_def by linarith
  qed
  then show ?thesis
    by (subst pref_loop.simps)
      (simp add: shl_one_small [OF assms(1)] int_check_def assms(2) nat_diff_distrib nat_power_eq)
qed

lemma pref_loop_31: "0 \<le> n \<Longrightarrow> pref_loop order n 31 prev cur = Inl SignedOverflow"
  by (subst pref_loop.simps) (simp add: shl_one_31 int_check_def in_int_def)

lemma pref_loop_order:
  assumes "valid_order order" "n = int (length cur)" "in_int n" "length prev = length cur" "step \<le> 31"
  shows "pref_loop order n step prev cur = pref_loop (\<lambda>step m. [0..<m]) n step prev cur"
  using assms
proof (induction "31 - step" arbitrary: step prev cur)
  case 0
  then have "step = 31" by simp
  with 0 show ?case by (simp add: pref_loop_31)
next
  case (Suc k)
  then have s: "step < 31" by simp
  note unf = pref_loop_step [OF s Suc.prems(2,3), of _ prev]
  show ?case
  proof (cases "2 ^ step < n")
    case True
    then have "2 ^ step < length cur" using Suc.prems(2) by (metis of_nat_less_iff of_nat_numeral of_nat_power)
    then have eq: "add_cells (2 ^ step) prev (order step (length cur - 2 ^ step)) cur =
        add_cells (2 ^ step) prev [0..<length cur - 2 ^ step] cur"
      using Suc.prems by (intro add_cells_order) auto
    have "pref_loop order n (Suc step) cur' cur' = pref_loop (\<lambda>step m. [0..<m]) n (Suc step) cur' cur'"
      if "add_cells (2 ^ step) prev [0..<length cur - 2 ^ step] cur = Inr cur'" for cur'
      using Suc.hyps(1) [of "Suc step" cur' cur'] Suc.hyps(2) Suc.prems add_cells_length [OF that] s by simp
    then show ?thesis unfolding unf eq by (cases "add_cells (2 ^ step) prev [0..<length cur - 2 ^ step] cur") auto
  next
    case False
    then show ?thesis by (simp add: unf)
  qed
qed

section \<open>The loop computes prefix sums\<close>

text \<open>The sum of the \<open>w\<close> elements that end at index \<open>i\<close> (fewer at the front).\<close>

definition window :: "int list \<Rightarrow> nat \<Rightarrow> nat \<Rightarrow> int" where
  "window a w i = (\<Sum>k \<in> {Suc i - w..i}. a ! k)"

lemma window_one: "window a 1 i = a ! i"
  by (simp add: window_def)

lemma window_all: "i < w \<Longrightarrow> window a w i = (\<Sum>k \<le> i. a ! k)"
proof -
  assume "i < w"
  then have "{Suc i - w..i} = {..i}" by auto
  then show ?thesis by (simp add: window_def)
qed

lemma window_double:
  assumes "0 < w"
  shows "window a (2 * w) i = (if w \<le> i then window a w i + window a w (i - w) else window a w i)"
proof (cases "w \<le> i")
  case True
  have "{Suc i - 2 * w..i} = {Suc i - w..i} \<union> {Suc (i - w) - w..i - w}"
    "{Suc i - w..i} \<inter> {Suc (i - w) - w..i - w} = {}" using True assms by auto
  then show ?thesis using True by (simp add: window_def sum.union_disjoint)
next
  case False
  then have "Suc i - 2 * w = Suc i - w" using assms by auto
  with False show ?thesis by (simp add: window_def)
qed

definition windows_fit :: "int list \<Rightarrow> bool" where
  "windows_fit a \<longleftrightarrow> (\<forall>w i. i < length a \<longrightarrow> in_int (window a w i))"

lemma pref_loop_windows:
  assumes "windows_fit a" "length a \<le> 2 ^ 30" "step \<le> 30"
    and "cur = map (window a (2 ^ step)) [0..<length a]"
  shows "pref_loop (\<lambda>step m. [0..<m]) (int (length a)) step cur cur =
    Inr (map (\<lambda>i. \<Sum>k \<le> i. a ! k) [0..<length a])"
  using assms(3,4)
proof (induction "30 - step" arbitrary: step cur)
  case (0)
  then have "step = 30" by simp
  have "in_int (int (length a))" using assms(2) by (simp add: in_int_def)
  with 0 \<open>step = 30\<close> assms(2) show ?case
    by (simp add: pref_loop_step window_all)
next
  case (Suc k)
  then have s: "step < 31" "Suc step \<le> 30" by simp_all
  have n: "in_int (int (length a))" using assms(2) by (simp add: in_int_def)
  have len: "length cur = length a" using Suc.prems(2) by simp
  note unf = pref_loop_step [OF s(1), of "int (length a)" cur, unfolded len, OF refl n]
  show ?case
  proof (cases "2 ^ step < length a")
    case True
    let ?next = "map (window a (2 ^ Suc step)) [0..<length a]"
    have sum: "cur ! (i + 2 ^ step) + cur ! i = window a (2 ^ Suc step) (i + 2 ^ step)"
      if "i < length a - 2 ^ step" for i
      using that Suc.prems(2) by (simp add: window_double)
    have "shifted_sum (2 ^ step) cur {0..<length a - 2 ^ step} cur = ?next"
      using Suc.prems(2) by (intro nth_equalityI) (auto simp: nth_shifted_sum window_double)
    then have "add_cells (2 ^ step) cur [0..<length a - 2 ^ step] cur = Inr ?next"
      using assms(1) len sum by (subst add_cells_eq) (auto simp: windows_fit_def)
    moreover have "pref_loop (\<lambda>step m. [0..<m]) (int (length a)) (Suc step) ?next ?next =
        Inr (map (\<lambda>i. \<Sum>k \<le> i. a ! k) [0..<length a])"
      using Suc.hyps(1) [of "Suc step" ?next] Suc.hyps(2) s(2) by simp
    moreover have "(2::int) ^ step < int (length a)"
      using True by (metis of_nat_less_iff of_nat_numeral of_nat_power)
    ultimately show ?thesis unfolding unf by simp
  next
    case False
    then have "\<not> (2::int) ^ step < int (length a)"
      by (metis of_nat_less_iff of_nat_numeral of_nat_power)
    moreover have "cur = map (\<lambda>i. \<Sum>k \<le> i. a ! k) [0..<length a]"
      using Suc.prems(2) False by (auto simp: window_all)
    ultimately show ?thesis unfolding unf by simp
  qed
qed

text \<open>Past \<open>2 ^ 30\<close> elements the loop runs into the shift that turns negative.\<close>

lemma add_cells_error:
  assumes "distinct is" "\<forall>i \<in> set is. i < length prev \<and> i + sh < length cur"
    and "add_cells sh prev is cur = Inl e"
  shows "e = SignedOverflow"
  using assms(3) unfolding add_cells_eq [OF assms(1,2)] by (simp split: if_splits)

lemma pref_loop_large:
  assumes "2 ^ 30 < length cur" "length cur < 2 ^ 31" "length prev = length cur" "step \<le> 31"
  shows "pref_loop (\<lambda>step m. [0..<m]) (int (length cur)) step prev cur = Inl SignedOverflow"
  using assms
proof (induction "31 - step" arbitrary: step prev cur)
  case 0
  then have "step = 31" by simp
  then show ?case by (simp add: pref_loop_31)
next
  case (Suc k)
  then have s: "step < 31" by simp
  have n: "in_int (int (length cur))" using Suc.prems(2) by (simp add: in_int_def)
  have "(2::nat) ^ step \<le> 2 ^ 30" using s by (intro power_increasing) auto
  then have lt: "2 ^ step < length cur" using Suc.prems(1) by linarith
  then have "(2::int) ^ step < int (length cur)" by (metis of_nat_less_iff of_nat_numeral of_nat_power)
  moreover have "e = SignedOverflow"
    if "add_cells (2 ^ step) prev [0..<length cur - 2 ^ step] cur = Inl e" for e
    using that Suc.prems(3) lt by (intro add_cells_error [OF _ _ that]) auto
  moreover have "pref_loop (\<lambda>step m. [0..<m]) (int (length cur)) (Suc step) cur' cur' = Inl SignedOverflow"
    if "add_cells (2 ^ step) prev [0..<length cur - 2 ^ step] cur = Inr cur'" for cur'
    using Suc.hyps(1) [of "Suc step" cur' cur'] Suc.hyps(2) Suc.prems add_cells_length [OF that] s by simp
  ultimately show ?case
    unfolding pref_loop_step [OF s refl n]
    by (cases "add_cells (2 ^ step) prev [0..<length cur - 2 ^ step] cur") auto
qed

section \<open>Reading what was printed\<close>

lemma read_int_prefix_space: "is_space c \<Longrightarrow> read_int_prefix (c # s) = read_int_prefix s"
  by (simp add: read_int_prefix_def)

lemma is_space_simps [simp]: "is_space (CHR '' '')" "is_space (CHR 0x0A)"
  "\<not> is_digit (CHR '' '')" "\<not> is_digit (CHR 0x0A)"
  by (simp_all add: is_space_def is_digit_def)

lemma extract_int_space: "is_space c \<Longrightarrow> extract_int (c # s) = extract_int s"
  by (simp add: extract_int_def read_int_prefix_space)

lemma extract_int_element:
  assumes "in_int v" "is_space c"
  shows "extract_int (c # to_string v @ CHR '' '' # r) = Some (v, CHR '' '' # r)"
  using assms extract_to_string [of v "CHR '' '' # r"] by (simp add: extract_int_space)

lemma read_elements_printed:
  assumes "\<forall>v \<in> set vs. in_int v" "is_space c"
  shows "read_elements (length vs) i (c # concat (map (\<lambda>x. to_string x @ '' '') vs) @ r) = Inr vs"
  using assms
proof (induction vs arbitrary: i c)
  case (Cons v vs)
  then show ?case by (simp add: extract_int_element)
qed simp

lemma read_printed_vector:
  assumes "\<forall>v \<in> set vs. in_int v" "in_int (int (length vs))"
  obtains r where "extract_int (print_vector (int (length vs)) vs) = Some (int (length vs), r)"
    "read_elements (length vs) 0 r = Inr vs"
  using extract_to_string [OF assms(2), of "newline @ concat (map (\<lambda>x. to_string x @ '' '') vs) @ newline"]
    read_elements_printed [OF assms(1), of "CHR 0x0A" 0 newline] that
  by (simp add: print_vector_def newline_def)

section \<open>Properties of the prefix sum\<close>

definition prefix_sums :: "int list \<Rightarrow> int list" where
  "prefix_sums a = map (\<lambda>i. \<Sum>k \<le> i. a ! k) [0..<length a]"

lemma prefSum_windows:
  assumes "windows_fit a" "length a \<le> 2 ^ 30"
  shows "prefSum a = Inr (prefix_sums a)"
proof -
  have "in_int (int (length a))" using assms(2) by (simp add: in_int_def)
  moreover have "a = map (window a (2 ^ 0)) [0..<length a]"
    by (intro nth_equalityI) (auto simp: window_def)
  ultimately show ?thesis
    using pref_loop_windows [OF assms, of 0 a] by (simp add: prefSum_def prefix_sums_def)
qed

lemma prefSum_order:
  assumes "valid_order order" "length a < 2 ^ 31"
  shows "prefSumParallelAlgorithm order a threadsCnt = prefSum a"
proof -
  have "in_int (int (length a))" using assms(2) by (simp add: in_int_def)
  then show ?thesis using pref_loop_order [OF assms(1), of "int (length a)" a a 0]
    by (simp add: prefSum_def prefSumParallelAlgorithm_def)
qed

text \<open>
  On up to \<open>2 ^ 30\<close> elements whose sums over contiguous ranges fit an \<open>int\<close>,
  \<open>prefSum\<close> returns, and what it returns at index \<open>i\<close> is the sum of the elements up to
  \<open>i\<close>.
\<close>
lemma prefSum_sums:
  assumes "length a \<le> 2 ^ 30" "\<forall>w i. i < length a \<longrightarrow> in_int (window a w i)"
  shows "prefSum a = Inr (map (\<lambda>i. \<Sum>k \<le> i. a ! k) [0..<length a])"
  using prefSum_windows [of a] assms by (simp add: windows_fit_def prefix_sums_def)

lemma windows_fit_small:
  assumes "\<forall>v \<in> set a. \<bar>v\<bar> \<le> B" "int (length a) * B < 2 ^ 31"
  shows "windows_fit a"
  unfolding windows_fit_def
proof (intro allI impI)
  fix w i assume i: "i < length a"
  have B: "0 \<le> B" using assms(1) i by (metis abs_ge_zero nth_mem order_trans)
  have "\<bar>window a w i\<bar> \<le> (\<Sum>k \<in> {Suc i - w..i}. \<bar>a ! k\<bar>)"
    unfolding window_def by (rule sum_abs)
  also have "\<dots> \<le> (\<Sum>k \<in> {Suc i - w..i}. B)"
    using assms(1) i by (intro sum_mono) auto
  also have "\<dots> \<le> int (length a) * B"
    using i B by (simp add: mult_right_mono)
  finally show "in_int (window a w i)" using assms(2) by (auto simp: in_int_def)
qed

text \<open>
  Whatever order the OpenMP runtime executes the iterations in, and whatever
  the number of threads, \<open>prefSumParallelAlgorithm\<close> does the same as \<open>prefSum\<close>, failures
  included: each iteration writes its own cell and reads only the previous vector.
\<close>
lemma prefSumParallelAlgorithm_eq:
  assumes "\<forall>step m. distinct (order step m) \<and> set (order step m) = {0..<m}" "length a < 2 ^ 31"
  shows "prefSumParallelAlgorithm order a threadsCnt = prefSum a"
  using prefSum_order [of order a] assms by (simp add: valid_order_def)

text \<open>
  Property C10. Whatever order the OpenMP runtime executes the iterations in, and whatever the number of
  threads, \<open>prefSumParallelAlgorithm\<close> does the same as \<open>prefSum\<close>, failures included. On up to
  \<open>2 ^ 30\<close> elements whose sums over contiguous ranges fit an \<open>int\<close> both return, and what they
  return at index \<open>i\<close> is the sum of the elements up to \<open>i\<close>.
\<close>

theorem prefSum_correct:
  assumes "\<forall>step m. distinct (order step m) \<and> set (order step m) = {0..<m}" "length a < 2 ^ 31"
  shows "prefSumParallelAlgorithm order a threadsCnt = prefSum a \<and>
    (length a \<le> 2 ^ 30 \<and> (\<forall>w i. i < length a \<longrightarrow> in_int (window a w i)) \<longrightarrow>
       prefSum a = Inr (map (\<lambda>i. \<Sum>k \<le> i. a ! k) [0..<length a]))"
  using prefSumParallelAlgorithm_eq [OF assms] prefSum_sums by blast

theorem prefSum_correct_witness:
  "prefSumParallelAlgorithm (\<lambda>step m. rev [0..<m]) [3, -1, 4, 1, 5] 8 = Inr [3, 2, 6, 7, 12]"
proof -
  let ?a = "[3, -1, 4, 1, 5] :: int list"
  have fit: "windows_fit ?a" by (rule windows_fit_small [of _ 5]) simp_all
  have "\<forall>step m. distinct (rev [0..<m]) \<and> set (rev [0..<m]) = {0..<m}" by simp
  from prefSum_correct [of "\<lambda>step m. rev [0..<m]" ?a 8, OF this] fit
  have "prefSumParallelAlgorithm (\<lambda>step m. rev [0..<m]) ?a 8 = Inr (map (\<lambda>i. \<Sum>k \<le> i. ?a ! k) [0..<length ?a])"
    unfolding windows_fit_def by simp
  also have "map (\<lambda>i. \<Sum>k \<le> i. ?a ! k) [0..<length ?a] = [3, 2, 6, 7, 12]" by code_simp
  finally show ?thesis .
qed

text \<open>
  For more than \<open>2 ^ 30\<close> elements the loop does not stop before
  \<open>1 << 31\<close>, which is negative, and the bound of the inner loop overflows.
\<close>
theorem prefSum_too_long:
  assumes "2 ^ 30 < length a" "length a < 2 ^ 31"
  shows "prefSum a = Inl SignedOverflow"
proof -
  have "in_int (int (length a))" using assms(2) by (simp add: in_int_def)
  then show ?thesis using pref_loop_large [OF assms refl, of 0] by (simp add: prefSum_def)
qed

theorem prefSum_too_long_witness: "prefSum (replicate (2 ^ 30 + 1) 0) = Inl SignedOverflow"
  by (rule prefSum_too_long) (simp_all only: length_replicate, simp_all)

text \<open>
  Property C11. Run on an input file in the format it prints, of at most \<open>2 ^ 30\<close> elements whose sums over
  contiguous ranges all fit an \<open>int\<close>, with an output file it can write, the program writes a file in the same format that
  holds the prefix sums, for every order of the iterations. (Where such a sum does not fit, the addition is undefined.)
\<close>
theorem prefix_sum_main_writes:
  assumes "valid_order order" "length a \<le> 2 ^ 30" "\<forall>w i. i < length a \<longrightarrow> in_int (window a w i)"
    and "extract_int threads = Some (t, r)"
    and "input_file env fin = Some (print_vector (int (length a)) a)" "writable env fout"
  shows "prefix_sum_main env order [prog, threads, fin, fout] =
    Inr (print_times env t, Some (fout, print_vector (int (length a)) (prefix_sums a)))"
proof -
  have fit: "windows_fit a" using assms(3) by (simp add: windows_fit_def)
  have "\<forall>v \<in> set a. in_int v"
    using assms(3) window_one [of a] by (metis in_set_conv_nth)
  moreover have n: "in_int (int (length a))" using assms(2) by (simp add: in_int_def)
  ultimately obtain r' where "extract_int (print_vector (int (length a)) a) = Some (int (length a), r')"
    "read_elements (length a) 0 r' = Inr a" by (rule read_printed_vector)
  moreover have "prefSumParallelAlgorithm order a t = Inr (prefix_sums a)"
    using prefSum_order [OF assms(1), of a] prefSum_windows [OF fit assms(2)] assms(2) by simp
  ultimately show ?thesis
    using assms(4-6) prefSum_windows [OF fit assms(2)] by (simp add: prefix_sum_main_def)
qed

theorem prefix_sum_main_writes_witness:
  "prefix_sum_main
     \<lparr>input_file = (\<lambda>f. if f = ''in'' then Some (print_vector 2 [5, -7]) else None),
      writable = (\<lambda>f. True), sequential_ms = 1, parallel_ms = 2\<rparr>
     (\<lambda>step m. [0..<m]) [''prefix_sum'', ''4'', ''in'', ''out''] =
   Inr (print_times \<lparr>input_file = (\<lambda>f. if f = ''in'' then Some (print_vector 2 [5, -7]) else None),
      writable = (\<lambda>f. True), sequential_ms = 1, parallel_ms = 2\<rparr> 4,
     Some (''out'', print_vector 2 (prefix_sums [5, -7])))"
proof -
  have "extract_int ''4'' = Some (4, [])" by code_simp
  moreover have "windows_fit [5, -7]" by (rule windows_fit_small [of _ 7]) simp_all
  ultimately show ?thesis
    using prefix_sum_main_writes [of "\<lambda>step m. [0..<m]" "[5, -7]" "''4''" 4 "[]" _ "''in''" "''out''"]
    by (auto simp: valid_order_def windows_fit_def)
qed

end
