(* ===== verification/Determinant.thy ===== *)
theory Determinant
  imports Complex_Main
begin

text \<open>
  Determinants: the laws Gaussian elimination relies on, as an interface, and the expansion
  along the first column, which satisfies them. A matrix is a function of row and column; only
  its upper left \<open>n\<close> by \<open>n\<close> part counts.
\<close>

type_synonym 'a mat = "nat \<Rightarrow> nat \<Rightarrow> 'a"

definition swap_rows :: "nat \<Rightarrow> nat \<Rightarrow> 'a mat \<Rightarrow> 'a mat" where
  "swap_rows i k A = A(i := A k, k := A i)"

text \<open>The columns before \<open>i\<close> are zero below the diagonal.\<close>

definition upper_upto :: "nat \<Rightarrow> nat \<Rightarrow> 'a::zero mat \<Rightarrow> bool" where
  "upper_upto n i A \<longleftrightarrow> (\<forall>c < i. \<forall>r. c < r \<and> r < n \<longrightarrow> A r c = 0)"

locale determinant_laws =
  fixes D :: "nat \<Rightarrow> 'a::linordered_field mat \<Rightarrow> 'a"
  assumes D_cong: "(\<And>r c. r < n \<Longrightarrow> c < n \<Longrightarrow> A r c = B r c) \<Longrightarrow> D n A = D n B"
    and D_swap: "i < n \<Longrightarrow> k < n \<Longrightarrow> i \<noteq> k \<Longrightarrow> D n (swap_rows i k A) = - D n A"
    and D_row_add: "i < n \<Longrightarrow> k < n \<Longrightarrow> i \<noteq> k \<Longrightarrow>
      D n (A(k := \<lambda>c. A k c + q * A i c)) = D n A"
    and D_upper: "upper_upto n n A \<Longrightarrow> D n A = (\<Prod>i < n. A i i)"
    and D_zero_column: "i < n \<Longrightarrow> upper_upto n i A \<Longrightarrow> (\<forall>r. i \<le> r \<and> r < n \<longrightarrow> A r i = 0) \<Longrightarrow>
      D n A = 0"

section \<open>Expansion along the first column\<close>

definition minor :: "nat \<Rightarrow> 'a mat \<Rightarrow> 'a mat" where
  "minor i A = (\<lambda>r c. A (if r < i then r else Suc r) (Suc c))"

primrec determinant :: "nat \<Rightarrow> 'a::comm_ring_1 mat \<Rightarrow> 'a" where
  "determinant 0 A = 1"
| "determinant (Suc n) A = (\<Sum>i \<le> n. (-1) ^ i * A i 0 * determinant n (minor i A))"

lemma det_cong: "(\<And>r c. r < n \<Longrightarrow> c < n \<Longrightarrow> A r c = B r c) \<Longrightarrow> determinant n A = determinant n B"
proof (induction n arbitrary: A B)
  case (Suc n)
  have "determinant n (minor i A) = determinant n (minor i B)" if "i \<le> n" for i
    using Suc.prems that by (intro Suc.IH) (simp add: minor_def)
  with Suc.prems show ?case by (auto intro!: sum.cong)
qed simp

lemma minor_upd_same: "minor k (A(k := x)) = minor k A"
  by (auto simp: minor_def fun_eq_iff)

lemma minor_upd_other:
  assumes "i \<noteq> k"
  shows "minor i (A(k := x)) = (minor i A)((if k < i then k else k - 1) := \<lambda>c. x (Suc c))"
  using assms by (auto simp: minor_def fun_eq_iff)

text \<open>The determinant is linear in every row.\<close>

lemma det_linear:
  assumes "k < n"
  shows "determinant n (A(k := \<lambda>c. x c + q * y c)) = determinant n (A(k := x)) + q * determinant n (A(k := y))"
  using assms
proof (induction n arbitrary: A k x y)
  case (Suc n)
  let ?t = "\<lambda>r i. (-1) ^ i * (A(k := r)) i 0 * determinant n (minor i (A(k := r)))"
  have "?t (\<lambda>c. x c + q * y c) i = ?t x i + q * ?t y i" if "i \<le> n" for i
  proof (cases "i = k")
    case True
    then show ?thesis by (simp add: minor_upd_same algebra_simps)
  next
    case False
    define k' where "k' = (if k < i then k else k - 1)"
    have "k' < n" using False that Suc.prems by (auto simp: k'_def)
    note lin = Suc.IH [OF this, of "minor i A" "\<lambda>c. x (Suc c)" "\<lambda>c. y (Suc c)"]
    show ?thesis
      unfolding minor_upd_other [OF False] k'_def [symmetric] lin
      using False by (simp add: algebra_simps)
  qed
  then have "(\<Sum>i \<le> n. ?t (\<lambda>c. x c + q * y c) i) = (\<Sum>i \<le> n. ?t x i) + q * (\<Sum>i \<le> n. ?t y i)"
    by (simp add: sum.distrib sum_distrib_left)
  then show ?case by (simp only: determinant.simps)
qed simp

text \<open>Two equal neighbouring rows make it zero.\<close>

lemma det_adjacent_equal:
  assumes "Suc k < n" "\<And>c. c < n \<Longrightarrow> A k c = A (Suc k) c"
  shows "determinant n A = 0"
  using assms
proof (induction n arbitrary: A k)
  case (Suc n)
  let ?t = "\<lambda>i. (-1) ^ i * A i 0 * determinant n (minor i A)"
  have other: "?t i = 0" if "i \<le> n" "i \<noteq> k" "i \<noteq> Suc k" for i
  proof -
    define k' where "k' = (if k < i then k else k - 1)"
    have "Suc k' < n" using that Suc.prems(1) by (auto simp: k'_def)
    moreover have "minor i A k' c = minor i A (Suc k') c" if "c < n" for c
      using Suc.prems(2) [of "Suc c"] that \<open>i \<noteq> k\<close> \<open>i \<noteq> Suc k\<close> by (auto simp: minor_def k'_def)
    ultimately have "determinant n (minor i A) = 0" by (rule Suc.IH)
    then show ?thesis by simp
  qed
  have "determinant n (minor (Suc k) A) = determinant n (minor k A)"
  proof (rule det_cong)
    fix r c assume "r < n" "c < n"
    then show "minor (Suc k) A r c = minor k A r c"
      using Suc.prems(2) [of "Suc c"] by (cases "r = k") (auto simp: minor_def)
  qed
  then have "?t k + ?t (Suc k) = 0" using Suc.prems(2) [of 0] by simp
  moreover have "(\<Sum>i \<le> n. ?t i) = (\<Sum>i \<in> {k, Suc k}. ?t i)"
    using Suc.prems(1) other by (intro sum.mono_neutral_right) auto
  ultimately show ?case by simp
qed simp

lemma det_adjacent_swap:
  assumes "Suc k < n"
  shows "determinant n (swap_rows k (Suc k) A) = - determinant n A"
proof -
  define R where "R = (\<lambda>x y. determinant n (A(k := x, Suc k := y)))"
  have zero: "R x x = 0" for x unfolding R_def using assms by (intro det_adjacent_equal [of k]) auto
  have left: "R (\<lambda>c. x c + y c) z = R x z + R y z" for x y z
    using det_linear [of k n "A(Suc k := z)" x 1 y] assms
    by (simp add: R_def fun_upd_twist [of k "Suc k"])
  have right: "R z (\<lambda>c. x c + y c) = R z x + R z y" for x y z
    using det_linear [of "Suc k" n "A(k := z)" x 1 y] assms by (simp add: R_def)
  have "R (A (Suc k)) (A k) + R (A k) (A (Suc k)) = 0"
    using zero [of "\<lambda>c. A k c + A (Suc k) c"] zero [of "A k"] zero [of "A (Suc k)"]
    by (simp add: left right add.commute)
  moreover have "R (A k) (A (Suc k)) = determinant n A" "R (A (Suc k)) (A k) = determinant n (swap_rows k (Suc k) A)"
    by (simp_all add: R_def swap_rows_def)
  ultimately show ?thesis by (simp add: eq_neg_iff_add_eq_0)
qed

lemma det_swap_less:
  assumes "i < k" "k < n"
  shows "determinant n (swap_rows i k A) = - determinant n A"
  using assms
proof (induction "k - i" arbitrary: i A)
  case (Suc d)
  show ?case
  proof (cases "Suc i = k")
    case True
    with Suc.prems show ?thesis using det_adjacent_swap by blast
  next
    case False
    let ?s = "swap_rows i (Suc i)" and ?t = "swap_rows (Suc i) k"
    have "swap_rows i k A = ?s (?t (?s A))"
      using False Suc.prems by (auto simp: swap_rows_def fun_eq_iff)
    moreover have "determinant n (?s (?t (?s A))) = - determinant n (?t (?s A))" "determinant n (?s A) = - determinant n A"
      using Suc.prems by (auto intro!: det_adjacent_swap)
    moreover have "determinant n (?t (?s A)) = - determinant n (?s A)"
      using Suc False by auto
    ultimately show ?thesis by simp
  qed
qed simp

lemma det_swap: "i < n \<Longrightarrow> k < n \<Longrightarrow> i \<noteq> k \<Longrightarrow> determinant n (swap_rows i k A) = - determinant n A"
proof (cases "i < k")
  case False
  assume "i < n" "k < n" "i \<noteq> k"
  moreover have "swap_rows i k A = swap_rows k i A" by (auto simp: swap_rows_def fun_upd_twist)
  ultimately show ?thesis using False det_swap_less [of k i n A] by simp
qed (auto intro: det_swap_less)

lemma det_equal_rows:
  fixes A :: "'a::linordered_field mat"
  assumes "i < n" "k < n" "i \<noteq> k" "A i = A k"
  shows "determinant n A = 0"
proof -
  have "swap_rows i k A = A" using assms(4) by (auto simp: swap_rows_def)
  with det_swap [OF assms(1-3), of A] show ?thesis by simp
qed

lemma det_row_add:
  fixes A :: "'a::linordered_field mat"
  assumes "i < n" "k < n" "i \<noteq> k"
  shows "determinant n (A(k := \<lambda>c. A k c + q * A i c)) = determinant n A"
proof -
  have "determinant n (A(k := A i)) = 0" using assms by (intro det_equal_rows [of i _ k]) auto
  then show ?thesis using det_linear [OF assms(2), of A "A k" q "A i"] by simp
qed

text \<open>A first column that is zero below its head leaves one minor.\<close>

lemma det_first_column:
  assumes "\<And>r. 0 < r \<Longrightarrow> r < Suc n \<Longrightarrow> A r 0 = 0"
  shows "determinant (Suc n) A = A 0 0 * determinant n (minor 0 A)"
proof -
  have "(\<Sum>i \<le> n. (-1) ^ i * A i 0 * determinant n (minor i A)) =
    (\<Sum>i \<in> {0}. (-1) ^ i * A i 0 * determinant n (minor i A))"
    using assms by (intro sum.mono_neutral_right) auto
  then show ?thesis by simp
qed

lemma upper_upto_minor:
  assumes "upper_upto (Suc n) (Suc i) A"
  shows "upper_upto n i (minor 0 A)" "\<And>r. 0 < r \<Longrightarrow> r < Suc n \<Longrightarrow> A r 0 = 0"
  using assms by (auto simp: upper_upto_def minor_def)

lemma det_upper: "upper_upto n n A \<Longrightarrow> determinant n A = (\<Prod>i < n. A i i)"
proof (induction n arbitrary: A)
  case (Suc n)
  from Suc.IH [OF upper_upto_minor(1) [OF Suc.prems]] upper_upto_minor(2) [OF Suc.prems]
  have "determinant (Suc n) A = A 0 0 * (\<Prod>i < n. minor 0 A i i)" by (simp only: det_first_column)
  then show ?case by (simp only: prod.lessThan_Suc_shift minor_def) simp
qed simp

lemma det_zero_column:
  "i < n \<Longrightarrow> upper_upto n i A \<Longrightarrow> (\<forall>r. i \<le> r \<and> r < n \<longrightarrow> A r i = 0) \<Longrightarrow> determinant n A = 0"
proof (induction i arbitrary: n A)
  case 0
  then show ?case by (cases n) auto
next
  case (Suc i)
  then obtain n' where n: "n = Suc n'" by (cases n) auto
  have "determinant n' (minor 0 A) = 0"
    using Suc.prems n upper_upto_minor(1) [of n' i A] by (intro Suc.IH) (auto simp: minor_def)
  with det_first_column [of n' A] upper_upto_minor(2) [of n' i A] Suc.prems(2) n show ?case by simp
qed

interpretation laplace: determinant_laws "determinant :: nat \<Rightarrow> 'a::linordered_field mat \<Rightarrow> 'a"
  by unfold_locales (auto intro: det_cong det_swap det_row_add det_upper det_zero_column)

end
