(* ===== verification/Matrix_Det.thy ===== *)
theory Matrix_Det
  imports Determinant Text_IO
begin

text \<open>
  \<open>parallel_programming/matrix_det.cpp\<close>: the determinant by Gaussian elimination with a
  pivot search, once sequentially and once with OpenMP, and the command-line program. The
  elements are those of any ordered field; \<open>rnd\<close> is the rounding every arithmetic operation
  applies to its exact result (\<open>fabs\<close>, negation and comparison are exact). Infinities and
  NaNs are outside the model.
\<close>

section \<open>The algorithm\<close>

type_synonym 'f matrix = "'f list list"

definition el :: "'f matrix \<Rightarrow> nat \<Rightarrow> nat \<Rightarrow> 'f" where
  "el a r c = a ! r ! c"

definition set_el :: "nat \<Rightarrow> nat \<Rightarrow> 'f \<Rightarrow> 'f matrix \<Rightarrow> 'f matrix" where
  "set_el r c v a = a[r := (a ! r)[c := v]]"

text \<open>The pivot search over the rows \<open>js\<close>, starting from row \<open>m\<close>.\<close>

fun scan_pivot :: "'f::linordered_field matrix \<Rightarrow> nat \<Rightarrow> nat list \<Rightarrow> nat \<Rightarrow> nat" where
  "scan_pivot a i [] m = m"
| "scan_pivot a i (j # js) m =
     scan_pivot a i js (if \<bar>el a j i\<bar> > \<bar>el a m i\<bar> then j else m)"

text \<open>
  The pivot search of the parallel version: the threads scan their chunks from row \<open>i\<close> on,
  and enter the critical section in the order of the list.
\<close>

fun critical :: "'f::linordered_field matrix \<Rightarrow> nat \<Rightarrow> nat list \<Rightarrow> nat \<Rightarrow> nat" where
  "critical a i [] maxValueIndex = maxValueIndex"
| "critical a i (localMaxValueIndex # ls) maxValueIndex =
     critical a i ls (if \<bar>el a localMaxValueIndex i\<bar> > \<bar>el a maxValueIndex i\<bar>
                      then localMaxValueIndex else maxValueIndex)"

definition parallel_pivot :: "nat list list \<Rightarrow> 'f::linordered_field matrix \<Rightarrow> nat \<Rightarrow> nat" where
  "parallel_pivot chunks a i = critical a i (map (\<lambda>js. scan_pivot a i js i) chunks) i"

text \<open>\<open>std::swap(a[i][j], a[maxValueIndex][j])\<close> for the columns \<open>js\<close>.\<close>

fun swap_loop :: "nat \<Rightarrow> nat \<Rightarrow> nat list \<Rightarrow> 'f matrix \<Rightarrow> 'f matrix" where
  "swap_loop i m [] a = a"
| "swap_loop i m (j # js) a =
     swap_loop i m js (set_el m j (el a i j) (set_el i j (el a m j) a))"

fun subtract_loop :: "('f::linordered_field \<Rightarrow> 'f) \<Rightarrow> nat \<Rightarrow> nat \<Rightarrow> nat list \<Rightarrow> 'f matrix \<Rightarrow> 'f matrix" where
  "subtract_loop rnd i j [] a = a"
| "subtract_loop rnd i j (z # zs) a =
     subtract_loop rnd i j zs (set_el j z (rnd (el a j z - rnd (el a i z * el a j i))) a)"

definition eliminate_row :: "('f::linordered_field \<Rightarrow> 'f) \<Rightarrow> nat \<Rightarrow> nat \<Rightarrow> nat \<Rightarrow> 'f matrix \<Rightarrow> 'f matrix" where
  "eliminate_row rnd n i j a =
     set_el j i 0 (subtract_loop rnd i j [Suc i..<n] (set_el j i (rnd (el a j i / el a i i)) a))"

fun eliminate_loop :: "('f::linordered_field \<Rightarrow> 'f) \<Rightarrow> nat \<Rightarrow> nat \<Rightarrow> nat list \<Rightarrow> 'f matrix \<Rightarrow> 'f matrix" where
  "eliminate_loop rnd n i [] a = a"
| "eliminate_loop rnd n i (j # js) a = eliminate_loop rnd n i js (eliminate_row rnd n i j a)"

text \<open>
  The loop over the columns, for a pivot search and for the orders in which the iterations of
  the two inner loops are executed.
\<close>

function det_loop ::
  "('f::linordered_field \<Rightarrow> 'f) \<Rightarrow> ('f matrix \<Rightarrow> nat \<Rightarrow> nat) \<Rightarrow> (nat \<Rightarrow> nat list) \<Rightarrow> (nat \<Rightarrow> nat list) \<Rightarrow>
   nat \<Rightarrow> nat \<Rightarrow> 'f \<Rightarrow> 'f matrix \<Rightarrow> 'f" where
  "det_loop rnd pivot swap_order elim_order n i det a =
     (if i < n then
        let maxValueIndex = pivot a i in
        if el a maxValueIndex i = 0 then 0
        else
          let (det, a) = (if maxValueIndex \<noteq> i
                          then (- det, swap_loop i maxValueIndex (swap_order i) a) else (det, a));
              det = rnd (det * el a i i);
              a = eliminate_loop rnd n i (elim_order i) a
          in det_loop rnd pivot swap_order elim_order n (Suc i) det a
      else det)"
  by pat_completeness auto
termination
  by (relation "measure (\<lambda>(rnd, pivot, swap_order, elim_order, n, i, det, a). n - i)") auto

declare det_loop.simps [simp del]

definition detWithoutOmp :: "('f::linordered_field \<Rightarrow> 'f) \<Rightarrow> nat \<Rightarrow> 'f matrix \<Rightarrow> 'f" where
  "detWithoutOmp rnd n a =
     det_loop rnd (\<lambda>a i. scan_pivot a i [Suc i..<n] i) (\<lambda>i. [i..<n]) (\<lambda>i. [Suc i..<n]) n 0 1 a"

text \<open>
  What the OpenMP runtime decides in each round: the chunks of the pivot search in the order
  of the critical sections, and the orders of the other iterations.
\<close>

record omp_schedule =
  chunks :: "nat \<Rightarrow> nat list list"
  swap_order :: "nat \<Rightarrow> nat list"
  elim_order :: "nat \<Rightarrow> nat list"

definition det_parallel :: "('f::linordered_field \<Rightarrow> 'f) \<Rightarrow> omp_schedule \<Rightarrow> nat \<Rightarrow> 'f matrix \<Rightarrow> 'f" where
  "det_parallel rnd omp n a =
     det_loop rnd (\<lambda>a i. parallel_pivot (chunks omp i) a i) (swap_order omp) (elim_order omp) n 0 1 a"

definition valid_schedule :: "nat \<Rightarrow> omp_schedule \<Rightarrow> bool" where
  "valid_schedule n omp \<longleftrightarrow> (\<forall>i < n.
     set (concat (chunks omp i)) = {Suc i..<n} \<and>
     distinct (swap_order omp i) \<and> set (swap_order omp i) = {i..<n} \<and>
     distinct (elim_order omp i) \<and> set (elim_order omp i) = {Suc i..<n})"

section \<open>The program\<close>

text \<open>
  The outside of the program, with the formatted input and output of \<open>float\<close> values as the
  stream library does them.
\<close>

record 'f det_env =
  input_file :: "string \<Rightarrow> string option"
  writable :: "string \<Rightarrow> bool"
  extract_float :: "string \<Rightarrow> ('f \<times> string) option"
  float_string :: "'f \<Rightarrow> string"
  sequential_ms :: int
  parallel_ms :: int

fun read_row :: "(string \<Rightarrow> ('f \<times> string) option) \<Rightarrow> nat \<Rightarrow> nat \<Rightarrow> nat list \<Rightarrow> string \<Rightarrow>
    string + ('f list \<times> string)" where
  "read_row get i n [] s = Inr ([], s)"
| "read_row get i n (j # js) s =
     (case get s of
        None \<Rightarrow> Inl (''Error: Element (row - '' @ to_string (int i + 1) @ '', column - '' @
                     to_string (int j + 1) @ '') isn't float'')
      | Some (v, r) \<Rightarrow> map_sum id (\<lambda>(vs, r'). (v # vs, r')) (read_row get i n js r))"

fun read_rows :: "(string \<Rightarrow> ('f \<times> string) option) \<Rightarrow> nat \<Rightarrow> nat list \<Rightarrow> string \<Rightarrow> string + 'f matrix" where
  "read_rows get n [] s = Inr []"
| "read_rows get n (i # is) s =
     (case read_row get i n [0..<n] s of
        Inl msg \<Rightarrow> Inl msg
      | Inr (row, r) \<Rightarrow> map_sum id (\<lambda>rows. row # rows) (read_rows get n is r))"

definition print_det_times :: "'f det_env \<Rightarrow> int \<Rightarrow> string" where
  "print_det_times env threadsCnt =
     ''Time: '' @ to_string (sequential_ms env) @ ''ms'' @ [CHR 0x0A] @
     ''Time ('' @ to_string threadsCnt @ '' thread'' @ (if 1 < threadsCnt then ''s'' else []) @
     ''): '' @ to_string (parallel_ms env) @ ''ms'' @ [CHR 0x0A]"

definition matrix_det_main ::
  "'f::linordered_field det_env \<Rightarrow> ('f \<Rightarrow> 'f) \<Rightarrow> omp_schedule \<Rightarrow> string list \<Rightarrow>
   (string \<times> (string \<times> string) option) result" where
  "matrix_det_main env rnd omp argv =
     (if length argv - 1 < 2 then Inr (''Error: Not enough arguments'', None)
      else case extract_int (argv ! 1) of
        None \<Rightarrow> Inr (''Error: First argument isn't integer'', None)
      | Some (threadsCnt, _) \<Rightarrow>
     (case input_file env (argv ! 2) of
        None \<Rightarrow> Inr (''Error: Input file not found'', None)
      | Some fin \<Rightarrow>
     (case extract_int fin of
        None \<Rightarrow> Inr (''Error: N isn't integer'', None)
      | Some (n, fin) \<Rightarrow>
          if n < 0 then Inl LengthError
          else case read_rows (extract_float env) (nat n) [0..<nat n] fin of
            Inl msg \<Rightarrow> Inr (msg, None)
          | Inr a \<Rightarrow>
              let det = det_parallel rnd omp (nat n) a in
              if 2 < length argv - 1 then
                if \<not> writable env (argv ! 3) then Inr (''Error: Fail with output file'', None)
                else Inr (print_det_times env threadsCnt, Some (argv ! 3, float_string env det))
              else Inr (float_string env det @ [CHR 0x0A] @ print_det_times env threadsCnt, None))))"

section \<open>What the inner loops do to the entries\<close>

definition square :: "nat \<Rightarrow> 'f matrix \<Rightarrow> bool" where
  "square n a \<longleftrightarrow> length a = n \<and> (\<forall>row \<in> set a. length row = n)"

lemma square_nth: "square n a \<Longrightarrow> r < n \<Longrightarrow> length (a ! r) = n"
  by (auto simp: square_def)

lemma square_set_el [simp]: "r < n \<Longrightarrow> square n a \<Longrightarrow> square n (set_el r c v a)"
  by (auto simp: square_def set_el_def dest!: set_update_subset_insert [THEN subsetD])

lemma el_set_el:
  assumes "square n a" "r < n" "c < n"
  shows "el (set_el r c v a) r' c' = (if r' = r \<and> c' = c then v else el a r' c')"
  using assms square_nth [OF assms(1,2)]
  by (auto simp: el_def set_el_def square_def nth_list_update)

lemma swap_loop_entries:
  assumes "square n a" "i < n" "m < n" "i \<noteq> m" "distinct js" "set js \<subseteq> {..<n}"
  shows "square n (swap_loop i m js a) \<and> (\<forall>r c. el (swap_loop i m js a) r c =
    (if c \<in> set js then (if r = i then el a m c else if r = m then el a i c else el a r c)
     else el a r c))"
  using assms
proof (induction js arbitrary: a)
  case (Cons j js)
  let ?b = "set_el m j (el a i j) (set_el i j (el a m j) a)"
  have b: "square n ?b" and j: "j < n" using Cons.prems by auto
  have e: "el ?b r c = (if c = j then (if r = i then el a m c else if r = m then el a i c else el a r c)
      else el a r c)" for r c
    using Cons.prems j by (auto simp: el_set_el [of n])
  from Cons.IH [OF b] Cons.prems show ?case by (auto simp: e)
qed simp

lemma subtract_loop_entries:
  assumes "square n a" "i < n" "j < n" "i \<noteq> j" "distinct zs" "set zs \<subseteq> {Suc i..<n}"
  shows "square n (subtract_loop rnd i j zs a) \<and> (\<forall>r c. el (subtract_loop rnd i j zs a) r c =
    (if r = j \<and> c \<in> set zs then rnd (el a j c - rnd (el a i c * el a j i)) else el a r c))"
  using assms
proof (induction zs arbitrary: a)
  case (Cons z zs)
  let ?b = "set_el j z (rnd (el a j z - rnd (el a i z * el a j i))) a"
  have b: "square n ?b" and z: "z < n" "z \<noteq> i" using Cons.prems by auto
  have e: "el ?b r c = (if r = j \<and> c = z then rnd (el a j z - rnd (el a i z * el a j i)) else el a r c)" for r c
    using Cons.prems z by (auto simp: el_set_el [of n])
  from Cons.IH [OF b] Cons.prems z show ?case by (auto simp: e)
qed simp

lemma eliminate_row_entries:
  assumes "square n a" "i < n" "j < n" "i \<noteq> j"
  shows "square n (eliminate_row rnd n i j a)"
    and "el (eliminate_row rnd n i j a) r c =
      (if r = j \<and> c = i then 0
       else if r = j \<and> i < c \<and> c < n
         then rnd (el a j c - rnd (el a i c * rnd (el a j i / el a i i)))
       else el a r c)"
proof -
  let ?q = "set_el j i (rnd (el a j i / el a i i)) a"
  have q: "square n ?q" using assms by simp
  note sub = subtract_loop_entries [OF q assms(2-4), of "[Suc i..<n]" rnd]
  show "square n (eliminate_row rnd n i j a)"
    using sub assms by (simp add: eliminate_row_def)
  show "el (eliminate_row rnd n i j a) r c =
      (if r = j \<and> c = i then 0
       else if r = j \<and> i < c \<and> c < n
         then rnd (el a j c - rnd (el a i c * rnd (el a j i / el a i i)))
       else el a r c)"
    using sub assms by (auto simp: eliminate_row_def el_set_el [of n])
qed

lemma eliminate_loop_entries:
  assumes "square n a" "i < n" "distinct js" "set js \<subseteq> {Suc i..<n}"
  shows "square n (eliminate_loop rnd n i js a) \<and> (\<forall>r c. el (eliminate_loop rnd n i js a) r c =
    (if r \<in> set js \<and> c = i then 0
     else if r \<in> set js \<and> i < c \<and> c < n
       then rnd (el a r c - rnd (el a i c * rnd (el a r i / el a i i)))
     else el a r c))"
  using assms
proof (induction js arbitrary: a)
  case (Cons j js)
  let ?b = "eliminate_row rnd n i j a"
  have j: "j < n" "i \<noteq> j" "j \<notin> set js" "i \<notin> set js" using Cons.prems by auto
  note e = eliminate_row_entries [OF Cons.prems(1,2) j(1,2), of rnd]
  from Cons.IH [OF e(1)] Cons.prems j show ?case by (auto simp: e(2))
qed simp

section \<open>The pivot\<close>

text \<open>Both searches return a row at or below the diagonal with a largest entry of the column.\<close>

definition max_pivot :: "nat \<Rightarrow> 'f::linordered_field matrix \<Rightarrow> nat \<Rightarrow> nat \<Rightarrow> bool" where
  "max_pivot n a i m \<longleftrightarrow> i \<le> m \<and> m < n \<and> (\<forall>r. i \<le> r \<and> r < n \<longrightarrow> \<bar>el a r i\<bar> \<le> \<bar>el a m i\<bar>)"

lemma scan_pivot_max:
  "scan_pivot a i js m \<in> insert m (set js) \<and>
   (\<forall>r \<in> insert m (set js). \<bar>el a r i\<bar> \<le> \<bar>el a (scan_pivot a i js m) i\<bar>)"
proof (induction js arbitrary: m)
  case (Cons j js)
  define m' where "m' = (if \<bar>el a j i\<bar> > \<bar>el a m i\<bar> then j else m)"
  have step: "scan_pivot a i (j # js) m = scan_pivot a i js m'" by (simp add: m'_def)
  have m': "m' \<in> {j, m}" "\<bar>el a j i\<bar> \<le> \<bar>el a m' i\<bar>" "\<bar>el a m i\<bar> \<le> \<bar>el a m' i\<bar>"
    by (auto simp: m'_def)
  let ?s = "scan_pivot a i js m'"
  have IH: "?s \<in> insert m' (set js)" "\<And>r. r \<in> insert m' (set js) \<Longrightarrow> \<bar>el a r i\<bar> \<le> \<bar>el a ?s i\<bar>"
    using Cons.IH [of m'] by blast+
  have "\<bar>el a r i\<bar> \<le> \<bar>el a ?s i\<bar>" if "r \<in> insert m (set (j # js))" for r
    using that IH(2) [of r] IH(2) [of m'] m' by auto
  moreover have "?s \<in> insert m (set (j # js))" using IH(1) m'(1) by auto
  ultimately show ?case unfolding step by blast
qed simp

lemma critical_scan: "critical a i ls m = scan_pivot a i ls m"
  by (induction ls arbitrary: m) auto

lemma sequential_max_pivot: "i < n \<Longrightarrow> max_pivot n a i (scan_pivot a i [Suc i..<n] i)"
proof -
  assume "i < n"
  then have rows: "insert i (set [Suc i..<n]) = {i..<n}" by auto
  from scan_pivot_max [of a i "[Suc i..<n]" i] show ?thesis
    unfolding rows max_pivot_def by simp
qed

lemma parallel_max_pivot:
  assumes "i < n" "set (concat cs) = {Suc i..<n}"
  shows "max_pivot n a i (parallel_pivot cs a i)"
proof -
  let ?ls = "map (\<lambda>js. scan_pivot a i js i) cs"
  let ?m = "scan_pivot a i ?ls i"
  have m: "?m \<in> insert i (set ?ls)" and max: "\<And>r. r \<in> insert i (set ?ls) \<Longrightarrow> \<bar>el a r i\<bar> \<le> \<bar>el a ?m i\<bar>"
    using scan_pivot_max by blast+
  have local_in: "scan_pivot a i js i \<in> {i..<n}" if "js \<in> set cs" for js
  proof -
    have "set js \<subseteq> {Suc i..<n}" using assms(2) that by auto
    moreover have "scan_pivot a i js i \<in> insert i (set js)" using scan_pivot_max by blast
    ultimately show ?thesis using assms(1) by auto
  qed
  have "\<bar>el a r i\<bar> \<le> \<bar>el a ?m i\<bar>" if "i \<le> r" "r < n" for r
  proof (cases "r = i")
    case False
    with that have "r \<in> set (concat cs)" unfolding assms(2) by simp
    then obtain js where js: "js \<in> set cs" "r \<in> set js" by auto
    have "\<bar>el a r i\<bar> \<le> \<bar>el a (scan_pivot a i js i) i\<bar>" using scan_pivot_max js(2) by blast
    also have "\<dots> \<le> \<bar>el a ?m i\<bar>" using js(1) by (intro max) auto
    finally show ?thesis .
  qed (use max in auto)
  moreover have "i \<le> ?m \<and> ?m < n" using m local_in assms(1) by auto
  ultimately show ?thesis by (simp add: parallel_pivot_def critical_scan max_pivot_def)
qed

section \<open>The value of the loop in exact arithmetic\<close>

text \<open>One round on the matrix, after the pivot search returned \<open>m\<close>.\<close>

definition round_matrix ::
  "('f::linordered_field \<Rightarrow> 'f) \<Rightarrow> nat \<Rightarrow> nat \<Rightarrow> nat \<Rightarrow> nat list \<Rightarrow> 'f matrix \<Rightarrow> 'f matrix" where
  "round_matrix rnd n i m ss a = (if m \<noteq> i then swap_loop i m ss a else a)"

lemma det_loop_round:
  "i < n \<Longrightarrow> det_loop rnd piv so eo n i det a =
     (let m = piv a i; b = round_matrix rnd n i m (so i) a in
      if el a m i = 0 then 0
      else det_loop rnd piv so eo n (Suc i) (rnd ((if m \<noteq> i then - det else det) * el b i i))
        (eliminate_loop rnd n i (eo i) b))"
  by (subst det_loop.simps) (simp add: round_matrix_def Let_def)

lemma det_loop_end: "\<not> i < n \<Longrightarrow> det_loop rnd piv so eo n i det a = det"
  by (subst det_loop.simps) simp

text \<open>The partial swap is a swap of whole rows, and elimination adds multiples of the pivot row.\<close>

lemma swap_loop_square_upper:
  assumes "square n a" "upper_upto n i (el a)" "i < m" "m < n" "distinct js" "set js = {i..<n}"
  shows "square n (swap_loop i m js a)"
    and "\<And>r c. r < n \<Longrightarrow> c < n \<Longrightarrow> el (swap_loop i m js a) r c = swap_rows i m (el a) r c"
proof -
  have "set js \<subseteq> {..<n}" using assms(6) by auto
  with assms have sw: "square n (swap_loop i m js a)" "\<And>r c. el (swap_loop i m js a) r c =
    (if c \<in> set js then (if r = i then el a m c else if r = m then el a i c else el a r c)
     else el a r c)"
    using swap_loop_entries [OF assms(1), of i m js] by auto
  show "square n (swap_loop i m js a)" by (rule sw(1))
  have zero: "el a i c = 0" "el a m c = 0" if "c < i" for c
    using assms(2-4) that by (auto simp: upper_upto_def)
  show "el (swap_loop i m js a) r c = swap_rows i m (el a) r c" if "r < n" "c < n" for r c
    using assms(3,6) zero that by (auto simp: sw(2) swap_rows_def)
qed

context determinant_laws
begin

lemma D_row_adds:
  assumes "i < n" "distinct js" "set js \<subseteq> {..<n} - {i}"
  shows "D n (\<lambda>r c. if r \<in> set js then A r c + q r * A i c else A r c) = D n A"
  using assms(2,3)
proof (induction js)
  case (Cons j js)
  let ?B = "\<lambda>r c. if r \<in> set js then A r c + q r * A i c else A r c"
  have eq: "(\<lambda>r c. if r \<in> set (j # js) then A r c + q r * A i c else A r c) =
      ?B(j := \<lambda>c. ?B j c + q j * ?B i c)"
    using Cons.prems by (auto simp: fun_eq_iff)
  have "D n (?B(j := \<lambda>c. ?B j c + q j * ?B i c)) = D n ?B"
    using assms(1) Cons.prems by (intro D_row_add) auto
  with Cons show ?case unfolding eq by simp
qed simp

lemma D_round_matrix:
  assumes "square n a" "upper_upto n i (el a)" "i \<le> m" "m < n" "distinct ss" "set ss = {i..<n}"
  defines "b \<equiv> round_matrix id n i m ss a"
  shows "square n b" "upper_upto n i (el b)" "el b i i = el a m i"
    and "D n (el b) = (if m \<noteq> i then - D n (el a) else D n (el a))"
    and "\<And>k. k < i \<Longrightarrow> el b k k = el a k k"
proof -
  have "square n b \<and> upper_upto n i (el b) \<and> el b i i = el a m i \<and>
    D n (el b) = (if m \<noteq> i then - D n (el a) else D n (el a)) \<and> (\<forall>k < i. el b k k = el a k k)"
  proof (cases "m = i")
    case False
    with assms have less: "i < m" by simp
    note sw = swap_loop_square_upper [OF assms(1,2) less assms(4-6)]
    have b: "b = swap_loop i m ss a" using False by (simp add: b_def round_matrix_def)
    have "D n (el b) = - D n (el a)"
      using D_cong [of n "el b" "swap_rows i m (el a)"] D_swap [of i n m "el a"] sw(2) less assms(4) b by simp
    moreover have "upper_upto n i (el b)"
      unfolding upper_upto_def b using sw(2) assms(2) less assms(4) by (auto simp: swap_rows_def upper_upto_def)
    ultimately show ?thesis using sw b False less assms(4) by (auto simp: swap_rows_def)
  qed (use assms in \<open>simp add: round_matrix_def\<close>)
  then show "square n b" "upper_upto n i (el b)" "el b i i = el a m i"
    "D n (el b) = (if m \<noteq> i then - D n (el a) else D n (el a))"
    "\<And>k. k < i \<Longrightarrow> el b k k = el a k k" by blast+
qed

lemma D_eliminate:
  assumes "square n b" "upper_upto n i (el b)" "i < n" "el b i i \<noteq> 0" "distinct js" "set js = {Suc i..<n}"
  defines "e \<equiv> eliminate_loop id n i js b"
  shows "square n e" "upper_upto n (Suc i) (el e)" "D n (el e) = D n (el b)"
    and "\<And>k. k \<le> i \<Longrightarrow> el e k k = el b k k"
proof -
  note el = eliminate_loop_entries [OF assms(1,3,5), of id]
  have e: "el e r c = (if r \<in> set js \<and> c = i then 0
      else if r \<in> set js \<and> i < c \<and> c < n then el b r c - el b i c * (el b r i / el b i i)
      else el b r c)" for r c
    using el assms(6) by (simp add: e_def)
  show "square n e" using el assms(6) by (simp add: e_def)
  show "upper_upto n (Suc i) (el e)"
    using assms(2,3,6) unfolding upper_upto_def e by (auto simp: less_Suc_eq)
  show "el e k k = el b k k" if "k \<le> i" for k using that assms(6) by (simp add: e)
  have zero: "el b i c = 0" if "c < i" for c using assms(2,3) that by (simp add: upper_upto_def)
  let ?B = "\<lambda>r c. if r \<in> set js then el b r c + - (el b r i / el b i i) * el b i c else el b r c"
  have "el e r c = ?B r c" if "c < n" for r c
  proof -
    consider "c < i" | "c = i" | "i < c" "c < n" using \<open>c < n\<close> by linarith
    then show ?thesis by cases (use assms(4) zero in \<open>auto simp: e\<close>)
  qed
  then have "D n (el e) = D n ?B" by (intro D_cong) auto
  also have "\<dots> = D n (el b)" using assms(6) by (intro D_row_adds [OF assms(3,5)]) auto
  finally show "D n (el e) = D n (el b)" .
qed

text \<open>A pivot search, and the orders of the iterations, that the loop may use.\<close>

lemma det_loop_D:
  assumes "square n a" "upper_upto n i (el a)" "i \<le> n"
    and piv: "\<And>a i. i < n \<Longrightarrow> max_pivot n a i (piv a i)"
    and so: "\<And>i. i < n \<Longrightarrow> distinct (so i) \<and> set (so i) = {i..<n}"
    and eo: "\<And>i. i < n \<Longrightarrow> distinct (eo i) \<and> set (eo i) = {Suc i..<n}"
    and "(\<Prod>k < i. el a k k) \<noteq> 0"
  shows "det_loop id piv so eo n i det a * (\<Prod>k < i. el a k k) = det * D n (el a)"
  using assms(1-3,7)
proof (induction "n - i" arbitrary: i det a)
  case 0
  then have "i = n" by simp
  with 0 D_upper [of n "el a"] show ?case by (simp add: det_loop_end)
next
  case (Suc d)
  then have i: "i < n" by simp
  define m where "m = piv a i"
  have m: "max_pivot n a i m" unfolding m_def using piv [OF i] .
  then have mr: "i \<le> m" "m < n" by (auto simp: max_pivot_def)
  show ?case
  proof (cases "el a m i = 0")
    case True
    with m have "D n (el a) = 0" by (intro D_zero_column [OF i Suc.prems(2)]) (auto simp: max_pivot_def)
    with True i show ?thesis by (simp add: det_loop_round m_def Let_def)
  next
    case False
    note r = D_round_matrix [OF Suc.prems(1,2) mr so [OF i, THEN conjunct1] so [OF i, THEN conjunct2]]
    define b where "b = round_matrix id n i m (so i) a"
    have ne: "el b i i \<noteq> 0" using False r(3) by (simp add: b_def)
    note e = D_eliminate [OF r(1,2) i ne [unfolded b_def] eo [OF i, THEN conjunct1] eo [OF i, THEN conjunct2],
        folded b_def]
    define e' where "e' = eliminate_loop id n i (eo i) b"
    define det' where "det' = (if m \<noteq> i then - det else det) * el b i i"
    have diag: "(\<Prod>k < Suc i. el e' k k) = (\<Prod>k < i. el a k k) * el b i i"
      using e(4) r(5) by (simp add: e'_def b_def)
    have "det_loop id piv so eo n (Suc i) det' e' * (\<Prod>k < Suc i. el e' k k) = det' * D n (el e')"
      using Suc.hyps(2) e(1,2) i diag Suc.prems(4) ne by (intro Suc.hyps(1)) (auto simp: e'_def)
    moreover have "det' * D n (el e') = det * D n (el a) * el b i i"
      using e(3) r(4) by (auto simp: e'_def det'_def b_def)
    ultimately have "det_loop id piv so eo n (Suc i) det' e' * (\<Prod>k < i. el a k k) = det * D n (el a)"
      unfolding diag using ne by simp
    with False show ?thesis
      using i by (simp add: det_loop_round m_def [symmetric] b_def [symmetric] e'_def [symmetric]
          det'_def [symmetric] Let_def)
  qed
qed

end

section \<open>Independence of the schedule\<close>

lemma square_eqI:
  assumes "square n a" "square n b" "\<And>r c. r < n \<Longrightarrow> c < n \<Longrightarrow> el a r c = el b r c"
  shows "a = b"
proof (rule nth_equalityI)
  show "length a = length b" using assms(1,2) by (simp add: square_def)
  fix r assume "r < length a"
  then have r: "r < n" using assms(1) by (simp add: square_def)
  show "a ! r = b ! r"
    using assms(3) [OF r] square_nth [OF assms(1) r] square_nth [OF assms(2) r]
    by (intro nth_equalityI) (auto simp: el_def)
qed

lemma swap_loop_order:
  assumes "square n a" "i < n" "m < n" "i \<noteq> m" "distinct js" "distinct ks" "set js = set ks" "set ks \<subseteq> {..<n}"
  shows "swap_loop i m js a = swap_loop i m ks a"
  using swap_loop_entries [OF assms(1-4), of js] swap_loop_entries [OF assms(1-4), of ks] assms(5-)
  by (intro square_eqI [of n]) auto

lemma eliminate_loop_order:
  assumes "square n a" "i < n" "distinct js" "distinct ks" "set js = set ks" "set ks \<subseteq> {Suc i..<n}"
  shows "eliminate_loop rnd n i js a = eliminate_loop rnd n i ks a"
  using eliminate_loop_entries [OF assms(1,2), of js rnd] eliminate_loop_entries [OF assms(1,2), of ks rnd] assms(3-)
  by (intro square_eqI [of n]) auto

text \<open>With the same pivots, the order of the other iterations does not matter, whatever the rounding.\<close>

lemma det_loop_order:
  assumes "square n a"
    and piv: "\<And>a i. i < n \<Longrightarrow> max_pivot n a i (piv a i)"
    and same: "\<And>a i. i < n \<Longrightarrow> piv' a i = piv a i"
    and so: "\<And>i. i < n \<Longrightarrow> distinct (so i) \<and> set (so i) = {i..<n}"
    and so': "\<And>i. i < n \<Longrightarrow> distinct (so' i) \<and> set (so' i) = {i..<n}"
    and eo: "\<And>i. i < n \<Longrightarrow> distinct (eo i) \<and> set (eo i) = {Suc i..<n}"
    and eo': "\<And>i. i < n \<Longrightarrow> distinct (eo' i) \<and> set (eo' i) = {Suc i..<n}"
  shows "det_loop rnd piv' so' eo' n i det a = det_loop rnd piv so eo n i det a"
  using assms(1)
proof (induction "n - i" arbitrary: i det a)
  case 0
  then show ?case by (simp add: det_loop_end)
next
  case (Suc d)
  then have i: "i < n" by simp
  define m where "m = piv a i"
  have m: "i \<le> m" "m < n" using piv [OF i, of a] by (auto simp: max_pivot_def m_def)
  have sub: "{i..<n} \<subseteq> {..<n}" by auto
  define b where "b = round_matrix rnd n i m (so i) a"
  have b': "round_matrix rnd n i m (so' i) a = b"
    using swap_loop_order [OF Suc.prems i m(2), of "so' i" "so i"] so [OF i] so' [OF i] sub
    by (auto simp: b_def round_matrix_def)
  have b: "square n b"
    using swap_loop_entries [OF Suc.prems i m(2), of "so i"] so [OF i] Suc.prems sub
    by (auto simp: b_def round_matrix_def)
  have e: "square n (eliminate_loop rnd n i (eo i) b)"
    using eliminate_loop_entries [OF b i, of "eo i" rnd] eo [OF i] by simp
  have e': "eliminate_loop rnd n i (eo' i) b = eliminate_loop rnd n i (eo i) b"
    using eliminate_loop_order [OF b i, of "eo' i" "eo i" rnd] eo [OF i] eo' [OF i] by simp
  have "det_loop rnd piv' so' eo' n (Suc i) x (eliminate_loop rnd n i (eo i) b) =
    det_loop rnd piv so eo n (Suc i) x (eliminate_loop rnd n i (eo i) b)" for x
    using Suc.hyps(2) by (intro Suc.hyps(1) e) simp
  then show ?case
    by (simp add: det_loop_round [OF i] same [OF i] m_def [symmetric] b' b_def [symmetric] e' Let_def)
qed

text \<open>Scanning a chunk on its own and comparing its result finds what scanning on would find.\<close>

lemma scan_pivot_local:
  "\<bar>el a s i\<bar> \<le> \<bar>el a m i\<bar> \<Longrightarrow> scan_pivot a i [scan_pivot a i js s] m = scan_pivot a i js m"
proof (induction js arbitrary: s m)
  case (Cons j js)
  show ?case
  proof (cases "\<bar>el a j i\<bar> > \<bar>el a m i\<bar>")
    case True
    have "\<bar>el a j i\<bar> \<le> \<bar>el a (scan_pivot a i js j) i\<bar>" using scan_pivot_max by blast
    with True Cons.prems show ?thesis by simp
  next
    case False
    with Cons.prems Cons.IH [of "if \<bar>el a j i\<bar> > \<bar>el a s i\<bar> then j else s" m] show ?thesis by simp
  qed
qed simp

lemma scan_pivot_append: "scan_pivot a i (xs @ ys) m = scan_pivot a i ys (scan_pivot a i xs m)"
  by (induction xs arbitrary: m) auto

lemma scan_pivot_chunks:
  "\<bar>el a i i\<bar> \<le> \<bar>el a m i\<bar> \<Longrightarrow>
   scan_pivot a i (map (\<lambda>js. scan_pivot a i js i) cs) m = scan_pivot a i (concat cs) m"
proof (induction cs arbitrary: m)
  case (Cons js cs)
  have "\<bar>el a m i\<bar> \<le> \<bar>el a (scan_pivot a i js m) i\<bar>" using scan_pivot_max by blast
  with Cons.prems have "\<bar>el a i i\<bar> \<le> \<bar>el a (scan_pivot a i js m) i\<bar>" by linarith
  from Cons.IH [OF this] scan_pivot_local [OF Cons.prems, of js] show ?case
    by (simp add: scan_pivot_append)
qed simp

lemma parallel_pivot_in_order: "parallel_pivot cs a i = scan_pivot a i (concat cs) i"
  by (simp add: parallel_pivot_def critical_scan scan_pivot_chunks)

section \<open>The program\<close>

lemma valid_scheduleD:
  assumes "valid_schedule n omp" "i < n"
  shows "set (concat (chunks omp i)) = {Suc i..<n}"
    and "distinct (swap_order omp i) \<and> set (swap_order omp i) = {i..<n}"
    and "distinct (elim_order omp i) \<and> set (elim_order omp i) = {Suc i..<n}"
  using assms by (auto simp: valid_schedule_def)

lemma upper_upto_0 [simp]: "upper_upto n 0 A"
  by (simp add: upper_upto_def)

lemma map_sum_Inr_iff: "map_sum f g x = Inr y \<longleftrightarrow> (\<exists>z. x = Inr z \<and> y = g z)"
  by (cases x) auto

lemma read_row_length: "read_row get i n js s = Inr (row, r) \<Longrightarrow> length row = length js"
  by (induction js arbitrary: s row r) (auto simp: map_sum_Inr_iff split: option.splits)

lemma read_rows_square:
  "read_rows get n is s = Inr a \<Longrightarrow> length a = length is \<and> (\<forall>row \<in> set a. length row = n)"
proof (induction "is" arbitrary: s a)
  case (Cons i "is")
  from Cons.prems obtain row r rows where "read_row get i n [0..<n] s = Inr (row, r)"
    "read_rows get n is r = Inr rows" "a = row # rows"
    by (auto simp: map_sum_Inr_iff split: sum.splits)
  with Cons.IH read_row_length [of get i n "[0..<n]"] show ?case by auto
qed simp

lemma det_parallel_determinant:
  assumes "square n a" "valid_schedule n omp"
  shows "det_parallel id omp n a = determinant n (el a)"
  using laplace.det_loop_D [OF assms(1), of 0 "\<lambda>a i. parallel_pivot (chunks omp i) a i" "swap_order omp" "elim_order omp" 1]
    valid_scheduleD [OF assms(2)]
  by (simp add: det_parallel_def parallel_max_pivot)

text \<open>
  In exact arithmetic the sequential elimination with row pivoting returns the
  determinant of the matrix, the expansion along the first column, for every square matrix,
  singular ones included.
\<close>

lemma detWithoutOmp_determinant:
  assumes "square n a"
  shows "detWithoutOmp id n a = determinant n (el a)"
  using laplace.det_loop_D [OF assms, of 0 "\<lambda>a i. scan_pivot a i [Suc i..<n] i" "\<lambda>i. [i..<n]" "\<lambda>i. [Suc i..<n]" 1]
  by (simp add: detWithoutOmp_def sequential_max_pivot)

lemma det_parallel_in_order:
  assumes "square n a" "valid_schedule n omp" "\<And>i. i < n \<Longrightarrow> concat (chunks omp i) = [Suc i..<n]"
  shows "det_parallel rnd omp n a = detWithoutOmp rnd n a"
  unfolding det_parallel_def detWithoutOmp_def
  using valid_scheduleD [OF assms(2)] assms(3)
  by (intro det_loop_order assms(1)) (simp_all add: sequential_max_pivot parallel_pivot_in_order)

text \<open>
  Property C12. In exact arithmetic the sequential elimination with row pivoting returns the
  determinant of the matrix, the expansion along the first column, for every square matrix,
  singular ones included; and so does the parallel elimination under every schedule the OpenMP
  runtime may choose.
\<close>

theorem det_correct:
  assumes "square n a"
  shows "detWithoutOmp id n a = determinant n (el a) \<and>
    (\<forall>omp. valid_schedule n omp \<longrightarrow> det_parallel id omp n a = determinant n (el a))"
  using detWithoutOmp_determinant [OF assms] det_parallel_determinant [OF assms] by blast

theorem det_correct_witness:
  "det_parallel id \<lparr>chunks = \<lambda>i. if i = 0 then [[2], [1]] else if i = 1 then [[], [2]] else [],
     swap_order = \<lambda>i. rev [i..<3], elim_order = \<lambda>i. rev [Suc i..<3]\<rparr>
     3 [[0, 2, 1], [1, 1, 1], [-1, 0, (3 :: rat)]] = - 7"
proof -
  let ?a = "[[0, 2, 1], [1, 1, 1], [-1, 0, (3 :: rat)]]"
  let ?o = "\<lparr>chunks = \<lambda>i. if i = 0 then [[2], [1]] else if i = 1 then [[], [2]] else [],
     swap_order = \<lambda>i. rev [i..<3], elim_order = \<lambda>i. rev [Suc i..<3]\<rparr>"
  have "square 3 ?a" by (simp add: square_def)
  moreover have "valid_schedule 3 ?o" by (auto simp: valid_schedule_def less_Suc_eq eval_nat_numeral)
  ultimately show ?thesis
    using det_correct [of 3 ?a] by (simp add: eval_nat_numeral minor_def el_def)
qed

text \<open>
  Property C13. Whatever the rounding of \<open>float\<close> arithmetic is, a parallel run whose critical
  sections are entered in the order of the chunks (chunks that cut the rows in order, as
  \<open>schedule(static)\<close> does) returns the same value as the sequential function, to the last bit.
\<close>

theorem det_parallel_eq_sequential:
  assumes "square n a" "valid_schedule n omp" "\<And>i. i < n \<Longrightarrow> concat (chunks omp i) = [Suc i..<n]"
  shows "det_parallel rnd omp n a = detWithoutOmp rnd n a"
  using assms by (rule det_parallel_in_order)

theorem det_parallel_eq_sequential_witness:
  "det_parallel (\<lambda>x. of_int \<lfloor>x\<rfloor>) \<lparr>chunks = \<lambda>i. if i = 0 then [[1], [2]] else if i = 1 then [[], [2]] else [],
     swap_order = \<lambda>i. rev [i..<3], elim_order = \<lambda>i. rev [Suc i..<3]\<rparr>
     3 [[0, 2, 1], [1, 1, 1], [-1, 0, (3 :: rat)]] =
   detWithoutOmp (\<lambda>x. of_int \<lfloor>x\<rfloor>) 3 [[0, 2, 1], [1, 1, 1], [-1, 0, (3 :: rat)]]"
proof (rule det_parallel_eq_sequential)
  show "square 3 [[0, 2, 1], [1, 1, 1], [-1, 0, (3 :: rat)]]" by (simp add: square_def)
  show "valid_schedule 3 \<lparr>chunks = \<lambda>i. if i = 0 then [[1], [2]] else if i = 1 then [[], [2]] else [],
     swap_order = \<lambda>i. rev [i..<3], elim_order = \<lambda>i. rev [Suc i..<3]\<rparr>"
    by (auto simp: valid_schedule_def less_Suc_eq eval_nat_numeral)
  fix i :: nat assume "i < 3"
  then show "concat (chunks \<lparr>chunks = \<lambda>i. if i = 0 then [[1], [2]] else if i = 1 then [[], [2]] else [],
     swap_order = \<lambda>i. rev [i..<3], elim_order = \<lambda>i. rev [Suc i..<3]\<rparr> i) = [Suc i..<3]"
    by (auto simp: less_Suc_eq eval_nat_numeral)
qed

text \<open>
  Whatever the rounding and the schedule, the parallel pivot search finds in every
  round an entry as large in absolute value as the sequential search does: both break off on
  the same columns, and where they do not, every multiplier of the elimination is at most one
  in absolute value before rounding.
\<close>

lemma pivot_search_agrees:
  assumes "i < n" "set (concat cs) = {Suc i..<n}"
  shows "\<bar>el a (parallel_pivot cs a i) i\<bar> = \<bar>el a (scan_pivot a i [Suc i..<n] i) i\<bar> \<and>
    i \<le> parallel_pivot cs a i \<and> parallel_pivot cs a i < n \<and>
    (el a (parallel_pivot cs a i) i \<noteq> 0 \<and> i \<le> r \<and> r < n \<longrightarrow>
       \<bar>el a r i / el a (parallel_pivot cs a i) i\<bar> \<le> 1)"
proof -
  define s where "s = scan_pivot a i [Suc i..<n] i"
  define p where "p = parallel_pivot cs a i"
  have p: "max_pivot n a i p" and s: "max_pivot n a i s"
    unfolding p_def s_def using assms(1,2) by (simp_all add: parallel_max_pivot sequential_max_pivot)
  have "\<bar>el a p i\<bar> = \<bar>el a s i\<bar>" using p s by (auto simp: max_pivot_def intro: antisym)
  moreover have "i \<le> p \<and> p < n" using p by (auto simp: max_pivot_def)
  moreover have "\<bar>el a r i / el a p i\<bar> \<le> 1" if "el a p i \<noteq> 0" "i \<le> r" "r < n"
    using p that by (auto simp: max_pivot_def divide_le_eq)
  ultimately show ?thesis unfolding p_def s_def by blast
qed

text \<open>
  An input file: the size, then one line for each row with its elements as text. \<open>reads_as\<close>: extraction skips
  the white space before the text \<open>tk\<close>, reads the value \<open>v\<close> from it and stops at the next white space or the end.
\<close>

definition reads_as :: "(string \<Rightarrow> ('f \<times> string) option) \<Rightarrow> string \<Rightarrow> 'f \<Rightarrow> bool" where
  "reads_as get tk v \<longleftrightarrow>
     (\<forall>ws rest. (\<forall>c \<in> set ws. is_space c) \<and> (rest = [] \<or> is_space (hd rest)) \<longrightarrow> get (ws @ tk @ rest) = Some (v, rest))"

definition matrix_line :: "string list \<Rightarrow> string" where
  "matrix_line row = concat (map (\<lambda>tk. '' '' @ tk) row) @ [CHR 0x0A]"

definition matrix_text :: "string list list \<Rightarrow> string" where
  "matrix_text rows = to_string (int (length rows)) @ [CHR 0x0A] @ concat (map matrix_line rows)"

lemma is_space_blank [simp]: "is_space (CHR '' '')" "is_space (CHR 0x0A)" "\<not> is_digit (CHR 0x0A)"
  by (simp_all add: is_space_def is_digit_def)

lemma read_row_line:
  assumes "list_all2 (reads_as get) row vs" "length js = length row" "\<forall>c \<in> set ws. is_space c" "rest = [] \<or> is_space (hd rest)"
  shows "\<exists>ws'. (\<forall>c \<in> set ws'. is_space c) \<and>
    read_row get i n js (ws @ concat (map (\<lambda>tk. '' '' @ tk) row) @ rest) = Inr (vs, ws' @ rest)"
  using assms(1,2,3)
proof (induction arbitrary: js ws)
  case (Cons tk row v vs)
  let ?r = "concat (map (\<lambda>tk. '' '' @ tk) row) @ rest"
  obtain j js' where js: "js = j # js'" "length js' = length row" using Cons.prems(1) by (auto simp: length_Suc_conv)
  have "?r = [] \<or> is_space (hd ?r)" using assms(4) by (cases row) auto
  then have "get ((ws @ '' '') @ tk @ ?r) = Some (v, ?r)"
    using Cons.hyps(1) [unfolded reads_as_def, rule_format, of "ws @ '' ''" ?r] Cons.prems(2) by auto
  moreover obtain ws' where "\<forall>c \<in> set ws'. is_space c" "read_row get i n js' ?r = Inr (vs, ws' @ rest)"
    using Cons.IH [of js' "[]"] js(2) by auto
  ultimately show ?case by (auto simp: js(1))
qed auto

lemma read_rows_lines:
  assumes "list_all2 (list_all2 (reads_as get)) rows a" "\<forall>row \<in> set rows. length row = n" "length is = length rows"
    "\<forall>c \<in> set ws. is_space c"
  shows "read_rows get n is (ws @ concat (map matrix_line rows)) = Inr a"
  using assms
proof (induction arbitrary: "is" ws)
  case (Cons row rows vs a)
  let ?rest = "[CHR 0x0A] @ concat (map matrix_line rows)"
  obtain i is' where "is": "is = i # is'" "length is' = length rows" using Cons.prems(2) by (auto simp: length_Suc_conv)
  obtain ws' where ws': "\<forall>c \<in> set ws'. is_space c"
    "read_row get i n [0..<n] (ws @ concat (map (\<lambda>tk. '' '' @ tk) row) @ ?rest) = Inr (vs, ws' @ ?rest)"
    using read_row_line [OF Cons.hyps(1), of "[0..<n]" ws ?rest i n] Cons.prems by auto
  have "read_rows get n is' ((ws' @ [CHR 0x0A]) @ concat (map matrix_line rows)) = Inr a"
    using ws'(1) "is"(2) Cons.prems(1) by (intro Cons.IH) auto
  moreover have "matrix_line row @ s = concat (map (\<lambda>tk. '' '' @ tk) row) @ [CHR 0x0A] @ s" for s by (simp add: matrix_line_def)
  ultimately show ?case using ws'(2) by (simp add: "is"(1))
qed simp

text \<open>Integers, as an instance: the texts that \<open>to_string\<close> gives are read as the numbers they are.\<close>

lemma reads_as_int:
  assumes "in_int z"
  shows "reads_as (\<lambda>s. map_option (\<lambda>(z, r). (of_int z, r)) (extract_int s)) (to_string z) (of_int z)"
proof -
  have "extract_int (ws @ s) = extract_int s" if "\<forall>c \<in> set ws. is_space c" for ws s
    using that by (simp add: extract_int_def read_int_prefix_def dropWhile_append2)
  moreover have "rest = [] \<or> \<not> is_digit (hd rest)" if "rest = [] \<or> is_space (hd rest)" for rest
    using that by (auto simp: is_space_def is_digit_def)
  ultimately show ?thesis using extract_to_string [OF assms] by (simp add: reads_as_def)
qed



end
