(* ===== verification/Pthread_Mutex.thy ===== *)
theory Pthread_Mutex
  imports Prelude
begin

text \<open>
  \<open>posix_threads/pthread_mutex.cpp\<close>: the five threads that increment a counter under a mutex,
  and the producer and the consumer that share a vector under a read-write lock. A thread is a
  program counter; one step of a thread is one access to shared state, and the status a
  \<open>pthread\<close> call returns is an argument of the step. A blocking call is enabled only when it
  can return. \<open>None\<close> says that the step is not enabled.
\<close>

definition kOkStatus :: int where "kOkStatus = 2147483647"
definition kBadStatus :: int where "kBadStatus = - 2147483648"
definition kInvalidElement :: int where "kInvalidElement = - 2147483648"

lemma status_distinct [simp]: "kBadStatus \<noteq> kOkStatus" "kOkStatus \<noteq> kBadStatus"
  by (simp_all add: kOkStatus_def kBadStatus_def)

section \<open>The counter under a mutex\<close>

definition kMutexThreadsNumber :: nat where "kMutexThreadsNumber = 5"

datatype mutex_pc = MLock | MRead | MWrite int | MUnlock | MReturned int

datatype runner_pc = Creating nat | Joining nat | Finished | ReturnedEarly | AssertFailed

datatype mutex_event =
    Printed nat int | LockFailed nat int | UnlockFailed nat int | CreateFailed nat int | JoinFailed nat int

record mutex_state =
  counter :: int
  holder :: "nat option"
  threads :: "mutex_pc list"
  runner :: runner_pc
  events :: "mutex_event list"

text \<open>
  One step of thread \<open>t\<close> in \<open>MutexThread\<close>. The statement with \<open>counter++\<close> is a read and a
  write of the shared counter, and the output of the value read.
\<close>

definition MutexThread :: "nat \<Rightarrow> int \<Rightarrow> mutex_state \<Rightarrow> mutex_state option" where
  "MutexThread t status s =
     (if t < length (threads s) then
        (case threads s ! t of
           MLock \<Rightarrow>
             if status \<noteq> 0 then
               Some (s\<lparr>threads := (threads s)[t := MReturned kBadStatus],
                       events := events s @ [LockFailed t status]\<rparr>)
             else if holder s = None then
               Some (s\<lparr>threads := (threads s)[t := MRead], holder := Some t\<rparr>)
             else None
         | MRead \<Rightarrow> Some (s\<lparr>threads := (threads s)[t := MWrite (counter s)]\<rparr>)
         | MWrite v \<Rightarrow> Some (s\<lparr>threads := (threads s)[t := MUnlock], counter := v + 1,
                              events := events s @ [Printed t v]\<rparr>)
         | MUnlock \<Rightarrow>
             if status \<noteq> 0 then
               Some (s\<lparr>threads := (threads s)[t := MReturned kBadStatus],
                       events := events s @ [UnlockFailed t status]\<rparr>)
             else Some (s\<lparr>threads := (threads s)[t := MReturned kOkStatus], holder := None\<rparr>)
         | MReturned _ \<Rightarrow> None)
      else None)"

text \<open>One step of \<open>RunMutexThreads\<close>, from the first \<open>pthread_create\<close> on.\<close>

definition RunMutexThreads :: "int \<Rightarrow> mutex_state \<Rightarrow> mutex_state option" where
  "RunMutexThreads status s =
     (case runner s of
        Creating i \<Rightarrow>
          if i < kMutexThreadsNumber then
            if status \<noteq> 0 then
              Some (s\<lparr>runner := ReturnedEarly, events := events s @ [CreateFailed (i + 1) status]\<rparr>)
            else Some (s\<lparr>runner := Creating (i + 1), threads := threads s @ [MLock]\<rparr>)
          else Some (s\<lparr>runner := Joining 0\<rparr>)
      | Joining i \<Rightarrow>
          if i < kMutexThreadsNumber then
            if status \<noteq> 0 then
              Some (s\<lparr>runner := Joining (i + 1), events := events s @ [JoinFailed (i + 1) status]\<rparr>)
            else (case threads s ! i of
                MReturned v \<Rightarrow>
                  if v = kOkStatus then Some (s\<lparr>runner := Joining (i + 1)\<rparr>)
                  else Some (s\<lparr>runner := AssertFailed\<rparr>)
              | _ \<Rightarrow> None)
          else if counter s = int kMutexThreadsNumber then Some (s\<lparr>runner := Finished\<rparr>)
          else Some (s\<lparr>runner := AssertFailed\<rparr>)
      | _ \<Rightarrow> None)"

definition mutex_init :: mutex_state where
  "mutex_init = \<lparr>counter = 0, holder = None, threads = [], runner = Creating 0, events = []\<rparr>"

inductive mutex_step :: "mutex_state \<Rightarrow> mutex_state \<Rightarrow> bool" where
  thread: "MutexThread t status s = Some s' \<Longrightarrow> mutex_step s s'"
| main: "RunMutexThreads status s = Some s' \<Longrightarrow> mutex_step s s'"

inductive_cases mutex_stepE: "mutex_step s s'"

text \<open>A run given by its choices: \<open>None\<close> for the main thread, \<open>Some t\<close> for thread \<open>t\<close>, with the status.\<close>

fun mutex_exec :: "(nat option \<times> int) list \<Rightarrow> mutex_state \<Rightarrow> mutex_state option" where
  "mutex_exec [] s = Some s"
| "mutex_exec ((None, status) # cs) s = Option.bind (RunMutexThreads status s) (mutex_exec cs)"
| "mutex_exec ((Some t, status) # cs) s = Option.bind (MutexThread t status s) (mutex_exec cs)"

subsection \<open>Invariants\<close>

definition inside :: "mutex_pc \<Rightarrow> bool" where
  "inside p \<longleftrightarrow> (case p of MRead \<Rightarrow> True | MWrite _ \<Rightarrow> True | MUnlock \<Rightarrow> True | _ \<Rightarrow> False)"

definition incremented :: "mutex_pc \<Rightarrow> nat" where
  "incremented p = (if p = MUnlock \<or> p = MReturned kOkStatus then 1 else 0)"

definition pending :: "mutex_pc \<Rightarrow> nat" where
  "pending p = (case p of MLock \<Rightarrow> 1 | MRead \<Rightarrow> 1 | MWrite _ \<Rightarrow> 1 | _ \<Rightarrow> 0)"

definition printed :: "mutex_event list \<Rightarrow> int list" where
  "printed es = concat (map (\<lambda>e. case e of Printed t v \<Rightarrow> [v] | _ \<Rightarrow> []) es)"

definition failed_call :: "mutex_event \<Rightarrow> bool" where
  "failed_call e \<longleftrightarrow> (case e of Printed _ _ \<Rightarrow> False | _ \<Rightarrow> True)"

definition unlock_failures :: "mutex_event list \<Rightarrow> nat" where
  "unlock_failures es = length (filter (\<lambda>e. case e of UnlockFailed _ _ \<Rightarrow> True | _ \<Rightarrow> False) es)"

definition no_failure :: "mutex_state \<Rightarrow> bool" where
  "no_failure s \<longleftrightarrow> (\<forall>e \<in> set (events s). \<not> failed_call e)"

text \<open>A thread between the lock and the unlock holds the mutex, and has read the current counter.\<close>

definition exclusive :: "mutex_state \<Rightarrow> bool" where
  "exclusive s \<longleftrightarrow> (\<forall>t < length (threads s).
     (inside (threads s ! t) \<longrightarrow> holder s = Some t) \<and>
     (\<forall>v. threads s ! t = MWrite v \<longrightarrow> v = counter s))"

text \<open>The values printed are the consecutive values of the counter, one for every increment.\<close>

definition counted :: "mutex_state \<Rightarrow> bool" where
  "counted s \<longleftrightarrow> printed (events s) = map int [0..<nat (counter s)] \<and>
     counter s = int (sum_list (map incremented (threads s)) + unlock_failures (events s)) \<and>
     int (sum_list (map pending (threads s))) + counter s \<le> int (length (threads s))"

text \<open>What the main thread has established at its program counter.\<close>

definition returns_ok :: "mutex_state \<Rightarrow> bool" where
  "returns_ok s \<longleftrightarrow> length (threads s) \<le> kMutexThreadsNumber \<and>
     (no_failure s \<longrightarrow> (\<forall>t v. t < length (threads s) \<longrightarrow> threads s ! t = MReturned v \<longrightarrow> v = kOkStatus) \<and>
        (\<forall>t. holder s = Some t \<longrightarrow> t < length (threads s) \<and> inside (threads s ! t)))"

definition runner_ok :: "mutex_state \<Rightarrow> bool" where
  "runner_ok s \<longleftrightarrow>
     (case runner s of
        Creating i \<Rightarrow> length (threads s) = i
      | Joining i \<Rightarrow> length (threads s) = kMutexThreadsNumber \<and> i \<le> kMutexThreadsNumber \<and>
          (no_failure s \<longrightarrow> (\<forall>t < i. threads s ! t = MReturned kOkStatus))
      | Finished \<Rightarrow> counter s = int kMutexThreadsNumber
      | ReturnedEarly \<Rightarrow> \<not> no_failure s
      | AssertFailed \<Rightarrow> \<not> no_failure s)"

lemma printed_simps [simp]:
  "printed [] = []" "printed (es @ fs) = printed es @ printed fs"
  "printed [Printed t v] = [v]" "failed_call e \<Longrightarrow> printed [e] = []"
  by (auto simp: printed_def failed_call_def split: mutex_event.splits)

lemma unlock_failures_simps [simp]:
  "unlock_failures [] = 0" "unlock_failures (es @ fs) = unlock_failures es + unlock_failures fs"
  "unlock_failures [UnlockFailed t c] = 1" "unlock_failures [Printed t v] = 0"
  "unlock_failures [LockFailed t c] = 0" "unlock_failures [CreateFailed t c] = 0" "unlock_failures [JoinFailed t c] = 0"
  by (simp_all add: unlock_failures_def)

lemma failed_call_simps [simp]:
  "\<not> failed_call (Printed t v)" "failed_call (LockFailed t c)" "failed_call (UnlockFailed t c)"
  "failed_call (CreateFailed t c)" "failed_call (JoinFailed t c)"
  by (simp_all add: failed_call_def)

lemma pc_simps [simp]:
  "inside MRead" "inside (MWrite v)" "inside MUnlock" "\<not> inside MLock" "\<not> inside (MReturned v)"
  "incremented MUnlock = 1" "incremented (MReturned kOkStatus) = 1" "incremented MLock = 0"
  "incremented MRead = 0" "incremented (MWrite v) = 0" "incremented (MReturned kBadStatus) = 0"
  "pending MLock = 1" "pending MRead = 1" "pending (MWrite v) = 1" "pending MUnlock = 0" "pending (MReturned v) = 0"
  by (simp_all add: inside_def incremented_def pending_def)

lemma counted_nonneg: "counted s \<Longrightarrow> 0 \<le> counter s"
  by (simp add: counted_def)

text \<open>The steps of a thread by the program counter it is at.\<close>

lemma MutexThread_cases:
  assumes "MutexThread t status s = Some s'"
  obtains
    (lock) "threads s ! t = MLock" "status = 0" "holder s = None"
      "s' = s\<lparr>threads := (threads s)[t := MRead], holder := Some t\<rparr>"
  | (lock_failed) "threads s ! t = MLock" "status \<noteq> 0"
      "s' = s\<lparr>threads := (threads s)[t := MReturned kBadStatus], events := events s @ [LockFailed t status]\<rparr>"
  | (load) "threads s ! t = MRead" "s' = s\<lparr>threads := (threads s)[t := MWrite (counter s)]\<rparr>"
  | (store) v where "threads s ! t = MWrite v"
      "s' = s\<lparr>threads := (threads s)[t := MUnlock], counter := v + 1, events := events s @ [Printed t v]\<rparr>"
  | (unlock) "threads s ! t = MUnlock" "status = 0"
      "s' = s\<lparr>threads := (threads s)[t := MReturned kOkStatus], holder := None\<rparr>"
  | (unlock_failed) "threads s ! t = MUnlock" "status \<noteq> 0"
      "s' = s\<lparr>threads := (threads s)[t := MReturned kBadStatus], events := events s @ [UnlockFailed t status]\<rparr>"
  using assms unfolding MutexThread_def by (auto split: if_splits mutex_pc.splits)

lemma MutexThread_range: "MutexThread t status s = Some s' \<Longrightarrow> t < length (threads s)"
  by (auto simp: MutexThread_def split: if_splits)

lemma runner_update [simp]:
  "exclusive (s\<lparr>runner := r\<rparr>) = exclusive s" "counted (s\<lparr>runner := r\<rparr>) = counted s"
  "returns_ok (s\<lparr>runner := r\<rparr>) = returns_ok s" "no_failure (s\<lparr>runner := r\<rparr>) = no_failure s"
  by (simp_all add: exclusive_def counted_def returns_ok_def no_failure_def)

lemma exclusiveD:
  assumes "exclusive s" "t < length (threads s)"
  shows "inside (threads s ! t) \<Longrightarrow> holder s = Some t" "threads s ! t = MWrite v \<Longrightarrow> v = counter s"
  using assms by (auto simp: exclusive_def)

lemma MutexThread_exclusive:
  assumes "MutexThread t status s = Some s'" "exclusive s"
  shows "exclusive s'"
proof -
  note t = MutexThread_range [OF assms(1)]
  have alone: "\<not> inside (threads s ! u)" if "inside (threads s ! t)" "u < length (threads s)" "u \<noteq> t" for u
    using exclusiveD(1) [OF assms(2) t that(1)] exclusiveD(1) [OF assms(2) that(2)] that(3) by auto
  have other: "(inside (threads s' ! u) \<longrightarrow> holder s' = Some u) \<and> (\<forall>v. threads s' ! u = MWrite v \<longrightarrow> v = counter s')"
    if "u < length (threads s)" "u \<noteq> t" for u
    using assms(1) exclusiveD [OF assms(2) that(1)] alone [OF _ that] that
    by (cases rule: MutexThread_cases) (auto simp: inside_def)
  have own: "(inside (threads s' ! t) \<longrightarrow> holder s' = Some t) \<and> (\<forall>v. threads s' ! t = MWrite v \<longrightarrow> v = counter s')"
    using assms(1) t exclusiveD(1) [OF assms(2) t] by (cases rule: MutexThread_cases) auto
  have "length (threads s') = length (threads s)" using assms(1) by (auto elim!: MutexThread_cases)
  with other own show ?thesis unfolding exclusive_def by metis
qed

lemma MutexThread_counted:
  assumes "MutexThread t status s = Some s'" "exclusive s" "counted s"
  shows "counted s'"
proof -
  note t = MutexThread_range [OF assms(1)]
  note w = sum_list_weight_update [OF t, of incremented] sum_list_weight_update [OF t, of pending]
  from assms(1) show ?thesis
  proof (cases rule: MutexThread_cases)
    case (store v)
    then have v: "v = counter s" using t assms(2) by (auto simp: exclusive_def)
    have "nat (counter s + 1) = Suc (nat (counter s))" using counted_nonneg [OF assms(3)] by simp
    with store v w [of MUnlock] w(2) [of MUnlock] assms(3) counted_nonneg [OF assms(3)] show ?thesis
      by (auto simp: counted_def)
  next
    case lock
    then show ?thesis using w(1) [of MRead] w(2) [of MRead] assms(3) by (auto simp: counted_def)
  next
    case lock_failed
    then show ?thesis using w(1) [of "MReturned kBadStatus"] w(2) [of "MReturned kBadStatus"] assms(3) by (auto simp: counted_def)
  next
    case load
    then show ?thesis using w(1) [of "MWrite (counter s)"] w(2) [of "MWrite (counter s)"] assms(3) by (auto simp: counted_def)
  next
    case unlock
    then show ?thesis using w(1) [of "MReturned kOkStatus"] w(2) [of "MReturned kOkStatus"] assms(3) by (auto simp: counted_def)
  next
    case unlock_failed
    then show ?thesis using w(1) [of "MReturned kBadStatus"] w(2) [of "MReturned kBadStatus"] assms(3) by (auto simp: counted_def)
  qed
qed

lemma no_failure_events [simp]:
  "no_failure (s\<lparr>events := es @ [e]\<rparr>) \<longleftrightarrow> (\<forall>e \<in> set es. \<not> failed_call e) \<and> \<not> failed_call e"
  by (auto simp: no_failure_def)

lemma MutexThread_no_failure: "MutexThread t status s = Some s' \<Longrightarrow> no_failure s' \<Longrightarrow> no_failure s"
  by (erule MutexThread_cases) (auto simp: no_failure_def)

lemma MutexThread_returns_ok:
  assumes "MutexThread t status s = Some s'" "exclusive s" "returns_ok s"
  shows "returns_ok s'"
proof -
  note t = MutexThread_range [OF assms(1)]
  have "holder s = Some t" if "inside (threads s ! t)" using assms(2) t that by (auto simp: exclusive_def)
  with assms(1) t assms(3) show ?thesis
    by (cases rule: MutexThread_cases)
       (auto simp: returns_ok_def no_failure_def nth_list_update split: if_splits)
qed

lemma counted_store:
  assumes "counted s" "t < length (threads s)" "threads s ! t = MWrite v" "returns_ok s"
  shows "counter s < int kMutexThreadsNumber"
  using weight_le_sum_list [OF assms(2), of pending] assms by (auto simp: counted_def returns_ok_def)

lemma MutexThread_runner_ok:
  assumes "MutexThread t status s = Some s'" "counted s" "returns_ok s" "runner_ok s"
  shows "runner_ok s'"
proof -
  note t = MutexThread_range [OF assms(1)]
  have fails: "\<not> no_failure s \<Longrightarrow> \<not> no_failure s'" using MutexThread_no_failure [OF assms(1)] by blast
  have same: "runner s' = runner s" "length (threads s') = length (threads s)"
    using assms(1) by (auto elim!: MutexThread_cases)
  have joined: "threads s' ! u = MReturned kOkStatus" if "threads s ! u = MReturned kOkStatus" for u
    using assms(1) that t by (cases rule: MutexThread_cases) (auto simp: nth_list_update)
  have "counter s' = counter s" if "runner s = Finished"
    using assms(1) that
    by (cases rule: MutexThread_cases)
       (use counted_store [OF assms(2) t _ assms(3)] assms(4) in \<open>auto simp: runner_ok_def\<close>)
  with assms(4) same fails joined show ?thesis
    by (auto simp: runner_ok_def split: runner_pc.splits)
qed

lemma RunMutexThreads_cases:
  assumes "RunMutexThreads status s = Some s'"
  obtains
    (create) i where "runner s = Creating i" "i < kMutexThreadsNumber" "status = 0"
      "s' = s\<lparr>runner := Creating (i + 1), threads := threads s @ [MLock]\<rparr>"
  | (create_failed) i where "runner s = Creating i" "i < kMutexThreadsNumber" "status \<noteq> 0"
      "s' = s\<lparr>runner := ReturnedEarly, events := events s @ [CreateFailed (i + 1) status]\<rparr>"
  | (created) i where "runner s = Creating i" "\<not> i < kMutexThreadsNumber" "s' = s\<lparr>runner := Joining 0\<rparr>"
  | (join_failed) i where "runner s = Joining i" "i < kMutexThreadsNumber" "status \<noteq> 0"
      "s' = s\<lparr>runner := Joining (i + 1), events := events s @ [JoinFailed (i + 1) status]\<rparr>"
  | (join) i where "runner s = Joining i" "i < kMutexThreadsNumber" "status = 0"
      "threads s ! i = MReturned kOkStatus" "s' = s\<lparr>runner := Joining (i + 1)\<rparr>"
  | (join_bad) i v where "runner s = Joining i" "i < kMutexThreadsNumber" "status = 0"
      "threads s ! i = MReturned v" "v \<noteq> kOkStatus" "s' = s\<lparr>runner := AssertFailed\<rparr>"
  | (finish) i where "runner s = Joining i" "\<not> i < kMutexThreadsNumber" "counter s = int kMutexThreadsNumber"
      "s' = s\<lparr>runner := Finished\<rparr>"
  | (wrong) i where "runner s = Joining i" "\<not> i < kMutexThreadsNumber" "counter s \<noteq> int kMutexThreadsNumber"
      "s' = s\<lparr>runner := AssertFailed\<rparr>"
  using assms unfolding RunMutexThreads_def by (auto split: if_splits mutex_pc.splits runner_pc.splits)

lemma RunMutexThreads_exclusive:
  "RunMutexThreads status s = Some s' \<Longrightarrow> exclusive s \<Longrightarrow> exclusive s'"
  by (erule RunMutexThreads_cases) (auto simp: exclusive_def nth_append less_Suc_eq split: if_splits)

lemma RunMutexThreads_counted:
  "RunMutexThreads status s = Some s' \<Longrightarrow> counted s \<Longrightarrow> counted s'"
  by (erule RunMutexThreads_cases) (simp_all, simp_all add: counted_def)

lemma RunMutexThreads_returns_ok:
  "RunMutexThreads status s = Some s' \<Longrightarrow> returns_ok s \<Longrightarrow> runner_ok s \<Longrightarrow> returns_ok s'"
  by (erule RunMutexThreads_cases)
     (simp_all, auto simp: returns_ok_def runner_ok_def no_failure_def nth_append less_Suc_eq split: if_splits)

text \<open>When all threads have been joined without a failure, every one of them has incremented the counter.\<close>

lemma all_joined_counter:
  assumes "counted s" "length (threads s) = n" "\<And>t. t < n \<Longrightarrow> threads s ! t = MReturned kOkStatus"
    and "no_failure s"
  shows "counter s = int n"
proof -
  have "threads s = replicate n (MReturned kOkStatus)"
    using assms(2,3) by (intro nth_equalityI) auto
  moreover have "unlock_failures (events s) = 0"
    using assms(4) by (auto simp: no_failure_def unlock_failures_def failed_call_def filter_empty_conv split: mutex_event.splits)
  ultimately show ?thesis using assms(1) by (simp add: counted_def sum_list_replicate)
qed

lemma RunMutexThreads_runner_ok:
  assumes "RunMutexThreads status s = Some s'" "counted s" "returns_ok s" "runner_ok s"
  shows "runner_ok s'"
  using assms(1)
proof (cases rule: RunMutexThreads_cases)
  case (wrong i)
  then have "i = kMutexThreadsNumber" using assms(4) by (auto simp: runner_ok_def)
  then have "\<not> no_failure s"
    using wrong assms(2,4) all_joined_counter [of s kMutexThreadsNumber] by (auto simp: runner_ok_def)
  then show ?thesis using wrong by (simp add: runner_ok_def no_failure_def)
next
  case (join i)
  then show ?thesis using assms(4) by (auto simp: runner_ok_def no_failure_def less_Suc_eq)
qed (use assms(3,4) in \<open>auto simp: runner_ok_def returns_ok_def no_failure_def\<close>)

definition mutex_inv :: "mutex_state \<Rightarrow> bool" where
  "mutex_inv s \<longleftrightarrow> exclusive s \<and> counted s \<and> returns_ok s \<and> runner_ok s"

interpretation mutex_run: inductive_invariant mutex_step "\<lambda>s. s = mutex_init" mutex_inv
proof unfold_locales
  show "mutex_inv s" if "s = mutex_init" for s
    using that by (simp add: mutex_inv_def mutex_init_def exclusive_def counted_def returns_ok_def runner_ok_def no_failure_def)
  show "mutex_inv s'" if "mutex_step s s'" "mutex_inv s" for s s'
    using that
    by (auto simp: mutex_inv_def elim!: mutex_stepE intro: MutexThread_exclusive MutexThread_counted
        MutexThread_returns_ok MutexThread_runner_ok RunMutexThreads_exclusive RunMutexThreads_counted
        RunMutexThreads_returns_ok RunMutexThreads_runner_ok)
qed

interpretation mutex_lock: lock_protocol mutex_step "\<lambda>s. s = mutex_init" mutex_inv holder
  "\<lambda>t s. t < length (threads s) \<and> inside (threads s ! t)"
  by unfold_locales (auto simp: mutex_inv_def exclusiveD)

subsection \<open>Every run ends\<close>

definition thread_remaining :: "mutex_pc \<Rightarrow> nat" where
  "thread_remaining p = (case p of MLock \<Rightarrow> 4 | MRead \<Rightarrow> 3 | MWrite _ \<Rightarrow> 2 | MUnlock \<Rightarrow> 1 | MReturned _ \<Rightarrow> 0)"

definition runner_remaining :: "runner_pc \<Rightarrow> nat" where
  "runner_remaining r =
     (case r of Creating i \<Rightarrow> (kMutexThreadsNumber - i) * 5 + (kMutexThreadsNumber + 2)
      | Joining i \<Rightarrow> (kMutexThreadsNumber - i) + 1 | _ \<Rightarrow> 0)"

definition mutex_remaining :: "mutex_state \<Rightarrow> nat" where
  "mutex_remaining s = sum_list (map thread_remaining (threads s)) + runner_remaining (runner s)"

lemma MutexThread_decreases:
  assumes "MutexThread t status s = Some s'"
  shows "mutex_remaining s' < mutex_remaining s"
proof -
  note w = sum_list_weight_update [OF MutexThread_range [OF assms], of thread_remaining]
  from assms show ?thesis
  proof (cases rule: MutexThread_cases)
    case lock
    with w [of MRead] show ?thesis by (auto simp: mutex_remaining_def thread_remaining_def)
  next
    case lock_failed
    with w [of "MReturned kBadStatus"] show ?thesis by (auto simp: mutex_remaining_def thread_remaining_def)
  next
    case load
    with w [of "MWrite (counter s)"] show ?thesis by (auto simp: mutex_remaining_def thread_remaining_def)
  next
    case (store v)
    with w [of MUnlock] show ?thesis by (auto simp: mutex_remaining_def thread_remaining_def)
  next
    case unlock
    with w [of "MReturned kOkStatus"] show ?thesis by (auto simp: mutex_remaining_def thread_remaining_def)
  next
    case unlock_failed
    with w [of "MReturned kBadStatus"] show ?thesis by (auto simp: mutex_remaining_def thread_remaining_def)
  qed
qed

lemma RunMutexThreads_decreases:
  "RunMutexThreads status s = Some s' \<Longrightarrow> mutex_remaining s' < mutex_remaining s"
  by (erule RunMutexThreads_cases)
     (auto simp: mutex_remaining_def runner_remaining_def thread_remaining_def Suc_diff_le)

interpretation mutex_bounded: bounded_run mutex_step "\<lambda>s. s = mutex_init" mutex_inv mutex_remaining
  by unfold_locales (auto elim!: mutex_stepE intro: MutexThread_decreases RunMutexThreads_decreases)

text \<open>As long as no call has failed, the run can go on without a failure until the main thread is through.\<close>

lemma inside_progress:
  assumes "t < length (threads s)" "inside (threads s ! t)" "no_failure s"
  shows "\<exists>s'. MutexThread t 0 s = Some s' \<and> no_failure s'"
  using assms by (cases "threads s ! t") (auto simp: MutexThread_def no_failure_def)

lemma main_progress:
  assumes "no_failure s" "runner s \<noteq> Finished" "runner_ok s"
  shows "(\<exists>s'. RunMutexThreads 0 s = Some s' \<and> no_failure s') \<or>
    (\<exists>i < length (threads s). \<forall>v. threads s ! i \<noteq> MReturned v)"
proof (cases "runner s")
  case (Joining i)
  then have i: "length (threads s) = kMutexThreadsNumber" using assms(3) by (simp add: runner_ok_def)
  have "\<exists>s'. RunMutexThreads 0 s = Some s' \<and> no_failure s'"
    if "i < kMutexThreadsNumber \<longrightarrow> threads s ! i = MReturned v" for v
    using that Joining assms(1) by (auto simp: RunMutexThreads_def no_failure_def)
  with i show ?thesis by metis
qed (use assms in \<open>auto simp: RunMutexThreads_def runner_ok_def no_failure_def\<close>)

lemma mutex_progress:
  assumes "mutex_inv s" "no_failure s" "runner s \<noteq> Finished"
  shows "\<exists>s'. mutex_step s s' \<and> no_failure s'"
proof -
  have runner: "returns_ok s" "runner_ok s" using assms(1) by (auto simp: mutex_inv_def)
  have step: "\<exists>s'. mutex_step s s' \<and> no_failure s'" if "MutexThread t 0 s = Some s'" "no_failure s'" for t s'
    using that mutex_step.thread by blast
  consider (main) s' where "RunMutexThreads 0 s = Some s'" "no_failure s'"
    | (wait) i where "i < length (threads s)" "\<And>v. threads s ! i \<noteq> MReturned v"
    using main_progress [OF assms(2,3) runner(2)] by blast
  then show ?thesis
  proof cases
    case main
    then show ?thesis using mutex_step.main by blast
  next
    case (wait i)
    show ?thesis
    proof (cases "threads s ! i = MLock \<and> holder s = None")
      case True
      then have "MutexThread i 0 s = Some (s\<lparr>threads := (threads s)[i := MRead], holder := Some i\<rparr>)"
        using wait(1) by (simp add: MutexThread_def)
      from step [OF this] assms(2) show ?thesis by (simp add: no_failure_def)
    next
      case False
      then obtain t where "t < length (threads s)" "inside (threads s ! t)"
        using wait runner(1) assms(2) by (cases "threads s ! i") (auto simp: returns_ok_def)
      with inside_progress assms(2) step show ?thesis by blast
    qed
  qed
qed

lemma mutex_exec_steps: "mutex_exec cs s = Some s' \<Longrightarrow> (mutex_step ^^ length cs) s s'"
proof (induction cs s rule: mutex_exec.induct)
  case (2 status cs s)
  then show ?case by (auto simp: relpowp_commute [symmetric] simp del: relpowp.simps(2)
      intro: relpowp_Suc_I2 mutex_step.main split: bind_splits)
next
  case (3 t status cs s)
  then show ?case by (auto simp: relpowp_commute [symmetric] simp del: relpowp.simps(2)
      intro: relpowp_Suc_I2 mutex_step.thread split: bind_splits)
qed simp


text \<open>The run in which the first two threads interleave and the others follow one another.\<close>

definition mutex_schedule :: "(nat option \<times> int) list" where
  "mutex_schedule = map (\<lambda>c. (c, 0))
     ([None, None, Some 0, Some 0, None, Some 0, None, Some 0, Some 1, None] @
      replicate 3 (Some 1) @ replicate 4 (Some 2) @ [None] @ replicate 4 (Some 3) @ replicate 4 (Some 4) @ replicate 6 None)"


text \<open>
  Property C16. Every run of the program part ends: it has at most 32 steps, whatever the calls
  return; and a run without a failing call never gets stuck (there is no deadlock) before
  \<open>RunMutexThreads\<close> has returned normally.
\<close>

theorem mutex_threads_finish:
  assumes "(mutex_step ^^ k) mutex_init s"
  shows "k \<le> 32 \<and> (no_failure s \<and> runner s \<noteq> Finished \<longrightarrow> (\<exists>s'. mutex_step s s' \<and> no_failure s'))"
  using mutex_bounded.run_length [OF assms refl] mutex_progress [of s]
  by (auto simp: mutex_remaining_def runner_remaining_def mutex_init_def kMutexThreadsNumber_def)

theorem mutex_threads_finish_witness:
  "\<exists>s s'. mutex_exec [(None, 0), (Some 0, 0)] mutex_init = Some s \<and> mutex_step s s' \<and> no_failure s'"
proof -
  obtain s where s: "mutex_exec [(None, 0), (Some 0, 0)] mutex_init = Some s" "no_failure s" "runner s = Creating 1"
    by (simp add: mutex_init_def RunMutexThreads_def MutexThread_def kMutexThreadsNumber_def no_failure_def)
  from mutex_threads_finish [OF mutex_exec_steps [OF s(1)]] s show ?thesis by auto
qed

end
