(* ===== verification/Pthread_Rwlock.thy ===== *)
theory Pthread_Rwlock
  imports Pthread_Mutex
begin

text \<open>
  \<open>posix_threads/pthread_mutex.cpp\<close>, second part: the producer and the consumer of the vector
  \<open>a\<close> under a read-write lock. The lock is a flag for the writer and a number of readers; a
  failing \<open>unlock\<close> leaves it as it is. The field \<open>lost\<close> is not in the code: it records the
  elements the consumer has taken and dropped.
\<close>

datatype producer_pc = PLock int | PPush int | PUnlock int | PReturned int
datatype consumer_pc = CLock nat | CTake nat | CUnlock nat int | CPrint nat int | CReturned int
datatype start_pc = RunP | RunC | JoinP | JoinC | RwDone | RwReturnedEarly | RwAssertFailed

datatype rw_event = ReadElement int | RwFailed string int

record rw_state =
  vec :: "int list"
  writer :: bool
  readers :: nat
  producer :: "producer_pc option"
  consumer :: "consumer_pc option"
  starter :: start_pc
  rw_events :: "rw_event list"
  lost :: "int list"

definition rw_log :: "string \<Rightarrow> int \<Rightarrow> rw_state \<Rightarrow> rw_state" where
  "rw_log msg status s = s\<lparr>rw_events := rw_events s @ [RwFailed msg status]\<rparr>"

text \<open>One step of \<open>Producer\<close>; \<open>i--\<close> and \<open>continue\<close> repeat the iteration.\<close>

definition Producer :: "int \<Rightarrow> rw_state \<Rightarrow> rw_state option" where
  "Producer status s =
     (case producer s of
        None \<Rightarrow> None
      | Some (PLock i) \<Rightarrow>
          if i < 10 then
            if status \<noteq> 0 then Some (rw_log ''Producer: failure during lock: '' status s)
            else if \<not> writer s \<and> readers s = 0 then Some (s\<lparr>writer := True, producer := Some (PPush i)\<rparr>)
            else None
          else Some (s\<lparr>producer := Some (PReturned kOkStatus)\<rparr>)
      | Some (PPush i) \<Rightarrow> Some (s\<lparr>vec := vec s @ [i], producer := Some (PUnlock i)\<rparr>)
      | Some (PUnlock i) \<Rightarrow>
          if status \<noteq> 0 then
            Some ((rw_log ''Producer: failure during unlock: '' status s)\<lparr>producer := Some (PLock (i + 1))\<rparr>)
          else Some (s\<lparr>writer := False, producer := Some (PLock (i + 1))\<rparr>)
      | Some (PReturned _) \<Rightarrow> None)"

text \<open>One step of \<open>Consumer\<close>.\<close>

definition Consumer :: "int \<Rightarrow> rw_state \<Rightarrow> rw_state option" where
  "Consumer status s =
     (case consumer s of
        None \<Rightarrow> None
      | Some (CLock n) \<Rightarrow>
          if n < 10 then
            if status \<noteq> 0 then Some (rw_log ''Consumer: failure during lock: '' status s)
            else if \<not> writer s then Some (s\<lparr>readers := readers s + 1, consumer := Some (CTake n)\<rparr>)
            else None
          else Some (s\<lparr>consumer := Some (CReturned kOkStatus)\<rparr>)
      | Some (CTake n) \<Rightarrow>
          if vec s \<noteq> [] then
            Some (s\<lparr>consumer := Some (CUnlock n (last (vec s))), vec := butlast (vec s)\<rparr>)
          else Some (s\<lparr>consumer := Some (CUnlock n kInvalidElement)\<rparr>)
      | Some (CUnlock n x) \<Rightarrow>
          if status \<noteq> 0 then
            Some ((rw_log ''Producer: failure during unlock: '' status s)
              \<lparr>consumer := Some (CLock n), lost := lost s @ (if x \<noteq> kInvalidElement then [x] else [])\<rparr>)
          else Some (s\<lparr>readers := readers s - 1, consumer := Some (CPrint n x)\<rparr>)
      | Some (CPrint n x) \<Rightarrow>
          if x \<noteq> kInvalidElement then
            Some (s\<lparr>rw_events := rw_events s @ [ReadElement x], consumer := Some (CLock (n + 1))\<rparr>)
          else Some (s\<lparr>consumer := Some (CLock n)\<rparr>)
      | Some (CReturned _) \<Rightarrow> None)"

text \<open>One step of \<open>ConsumerAndProducer\<close> with \<open>RunProducer\<close> and \<open>RunConsumer\<close>.\<close>

definition ConsumerAndProducer :: "int \<Rightarrow> rw_state \<Rightarrow> rw_state option" where
  "ConsumerAndProducer status s =
     (case starter s of
        RunP \<Rightarrow>
          if status \<noteq> 0 then Some ((rw_log ''Failed to run producer'' status s)\<lparr>starter := RwReturnedEarly\<rparr>)
          else Some (s\<lparr>producer := Some (PLock 0), starter := RunC\<rparr>)
      | RunC \<Rightarrow>
          if status \<noteq> 0 then Some ((rw_log ''Failed to run consumer'' status s)\<lparr>starter := RwReturnedEarly\<rparr>)
          else Some (s\<lparr>consumer := Some (CLock 0), starter := JoinP\<rparr>)
      | JoinP \<Rightarrow>
          if status \<noteq> 0 then Some ((rw_log ''Failed to join producer: '' status s)\<lparr>starter := JoinC\<rparr>)
          else (case producer s of
              Some (PReturned v) \<Rightarrow> Some (s\<lparr>starter := (if v = kOkStatus then JoinC else RwAssertFailed)\<rparr>)
            | _ \<Rightarrow> None)
      | JoinC \<Rightarrow>
          if status \<noteq> 0 then Some ((rw_log ''Failed to join consumer: '' status s)\<lparr>starter := RwDone\<rparr>)
          else (case consumer s of
              Some (CReturned v) \<Rightarrow> Some (s\<lparr>starter := (if v = kOkStatus then RwDone else RwAssertFailed)\<rparr>)
            | _ \<Rightarrow> None)
      | _ \<Rightarrow> None)"

definition rw_init :: rw_state where
  "rw_init = \<lparr>vec = [], writer = False, readers = 0, producer = None, consumer = None,
     starter = RunP, rw_events = [], lost = []\<rparr>"

datatype rw_thread = TProducer | TConsumer | TMain

definition rw_next :: "rw_thread \<Rightarrow> int \<Rightarrow> rw_state \<Rightarrow> rw_state option" where
  "rw_next t = (case t of TProducer \<Rightarrow> Producer | TConsumer \<Rightarrow> Consumer | TMain \<Rightarrow> ConsumerAndProducer)"

inductive rw_step :: "rw_state \<Rightarrow> rw_state \<Rightarrow> bool" where
  rw_step: "rw_next t status s = Some s' \<Longrightarrow> rw_step s s'"

inductive_cases rw_stepE: "rw_step s s'"

fun rw_exec :: "(rw_thread \<times> int) list \<Rightarrow> rw_state \<Rightarrow> rw_state option" where
  "rw_exec [] s = Some s"
| "rw_exec ((t, status) # cs) s = Option.bind (rw_next t status s) (rw_exec cs)"

section \<open>Invariants\<close>

definition reads :: "rw_event list \<Rightarrow> int list" where
  "reads es = concat (map (\<lambda>e. case e of ReadElement x \<Rightarrow> [x] | _ \<Rightarrow> []) es)"

text \<open>The number of elements pushed, and the element the consumer has taken and not printed yet.\<close>

definition pushed :: "producer_pc option \<Rightarrow> int" where
  "pushed p = (case p of None \<Rightarrow> 0 | Some (PLock i) \<Rightarrow> i | Some (PPush i) \<Rightarrow> i | Some (PUnlock i) \<Rightarrow> i + 1
     | Some (PReturned _) \<Rightarrow> 10)"

definition in_flight :: "consumer_pc option \<Rightarrow> int list" where
  "in_flight c = (case c of Some (CUnlock n x) \<Rightarrow> if x \<noteq> kInvalidElement then [x] else []
     | Some (CPrint n x) \<Rightarrow> if x \<noteq> kInvalidElement then [x] else [] | _ \<Rightarrow> [])"

definition writing :: "rw_state \<Rightarrow> bool" where
  "writing s \<longleftrightarrow> (case producer s of Some (PPush _) \<Rightarrow> True | Some (PUnlock _) \<Rightarrow> True | _ \<Rightarrow> False)"

definition reading :: "rw_state \<Rightarrow> bool" where
  "reading s \<longleftrightarrow> (case consumer s of Some (CTake _) \<Rightarrow> True | Some (CUnlock _ _) \<Rightarrow> True | _ \<Rightarrow> False)"

definition lock_inv :: "rw_state \<Rightarrow> bool" where
  "lock_inv s \<longleftrightarrow> (writing s \<longrightarrow> writer s \<and> readers s = 0) \<and> (reading s \<longrightarrow> \<not> writer s \<and> 0 < readers s)"

text \<open>Every element pushed is at exactly one place.\<close>

definition conserved :: "rw_state \<Rightarrow> bool" where
  "conserved s \<longleftrightarrow>
     mset (reads (rw_events s)) + mset (vec s) + mset (in_flight (consumer s)) + mset (lost s) =
     mset [0..pushed (producer s) - 1]"

definition producer_ok :: "producer_pc option \<Rightarrow> bool" where
  "producer_ok p \<longleftrightarrow> (case p of Some (PPush i) \<Rightarrow> 0 \<le> i \<and> i < 10 | Some (PUnlock i) \<Rightarrow> 0 \<le> i \<and> i < 10
     | Some (PLock i) \<Rightarrow> 0 \<le> i \<and> i \<le> 10 | Some (PReturned v) \<Rightarrow> v = kOkStatus | None \<Rightarrow> True)"

text \<open>The consumer counts the elements it has printed.\<close>

definition consumer_ok :: "consumer_pc option \<Rightarrow> int list \<Rightarrow> bool" where
  "consumer_ok c rs \<longleftrightarrow>
     (case c of None \<Rightarrow> rs = []
      | Some (CLock n) \<Rightarrow> n = length rs \<and> n \<le> 10
      | Some (CTake n) \<Rightarrow> n = length rs \<and> n < 10
      | Some (CUnlock n x) \<Rightarrow> n = length rs \<and> n < 10
      | Some (CPrint n x) \<Rightarrow> n = length rs \<and> n < 10
      | Some (CReturned v) \<Rightarrow> v = kOkStatus \<and> length rs = 10)"

definition starter_ok :: "rw_state \<Rightarrow> bool" where
  "starter_ok s \<longleftrightarrow>
     (case starter s of RunP \<Rightarrow> producer s = None \<and> consumer s = None
      | RunC \<Rightarrow> producer s \<noteq> None \<and> consumer s = None
      | RwReturnedEarly \<Rightarrow> consumer s = None
      | RwAssertFailed \<Rightarrow> False | _ \<Rightarrow> producer s \<noteq> None \<and> consumer s \<noteq> None)"

text \<open>Without a failed call the lock is held exactly in the critical sections and nothing is lost.\<close>

definition clean :: "rw_state \<Rightarrow> bool" where
  "clean s \<longleftrightarrow> (\<forall>e \<in> set (rw_events s). case e of ReadElement _ \<Rightarrow> True | RwFailed _ _ \<Rightarrow> False)"

definition clean_ok :: "rw_state \<Rightarrow> bool" where
  "clean_ok s \<longleftrightarrow> (clean s \<longrightarrow> writer s = writing s \<and> readers s = (if reading s then 1 else 0) \<and>
     lost s = [] \<and> starter s \<noteq> RwReturnedEarly)"

definition rw_inv :: "rw_state \<Rightarrow> bool" where
  "rw_inv s \<longleftrightarrow> lock_inv s \<and> conserved s \<and> producer_ok (producer s) \<and>
     consumer_ok (consumer s) (reads (rw_events s)) \<and> starter_ok s \<and> clean_ok s"

lemma reads_simps [simp]:
  "reads [] = []" "reads (es @ fs) = reads es @ reads fs"
  "reads [ReadElement x] = [x]" "reads [RwFailed m c] = []"
  by (simp_all add: reads_def)

lemma rw_log_simps [simp]:
  "vec (rw_log m c s) = vec s" "writer (rw_log m c s) = writer s" "readers (rw_log m c s) = readers s"
  "producer (rw_log m c s) = producer s" "consumer (rw_log m c s) = consumer s"
  "starter (rw_log m c s) = starter s" "lost (rw_log m c s) = lost s"
  "reads (rw_events (rw_log m c s)) = reads (rw_events s)"
  by (simp_all add: rw_log_def)

lemma clean_log [simp]:
  "\<not> clean (rw_log m c s)" "clean (s\<lparr>rw_events := rw_events s @ [ReadElement x]\<rparr>) = clean s"
  by (auto simp: clean_def rw_log_def)

lemma clean_updates [simp]:
  "clean (s\<lparr>vec := v\<rparr>) = clean s" "clean (s\<lparr>writer := w\<rparr>) = clean s" "clean (s\<lparr>readers := r\<rparr>) = clean s"
  "clean (s\<lparr>producer := p\<rparr>) = clean s" "clean (s\<lparr>consumer := c\<rparr>) = clean s" "clean (s\<lparr>starter := t\<rparr>) = clean s"
  "clean (s\<lparr>lost := l\<rparr>) = clean s"
  by (simp_all add: clean_def)

lemma upto_snoc: "0 \<le> i \<Longrightarrow> mset [0..i] = add_mset i (mset [0..i - 1 :: int])"
  by (simp add: upto_rec2)

lemma pc_fun_simps [simp]:
  "pushed None = 0" "pushed (Some (PLock i)) = i" "pushed (Some (PPush i)) = i" "pushed (Some (PUnlock i)) = i + 1"
  "pushed (Some (PReturned v)) = 10"
  "in_flight None = []" "in_flight (Some (CLock n)) = []" "in_flight (Some (CTake n)) = []" "in_flight (Some (CReturned v)) = []"
  "in_flight (Some (CUnlock n x)) = (if x \<noteq> kInvalidElement then [x] else [])"
  "in_flight (Some (CPrint n x)) = (if x \<noteq> kInvalidElement then [x] else [])"
  "producer_ok None" "producer_ok (Some (PLock i)) = (0 \<le> i \<and> i \<le> 10)" "producer_ok (Some (PPush i)) = (0 \<le> i \<and> i < 10)"
  "producer_ok (Some (PUnlock i)) = (0 \<le> i \<and> i < 10)" "producer_ok (Some (PReturned v)) = (v = kOkStatus)"
  "consumer_ok None rs = (rs = [])" "consumer_ok (Some (CLock n)) rs = (n = length rs \<and> n \<le> 10)"
  "consumer_ok (Some (CTake n)) rs = (n = length rs \<and> n < 10)" "consumer_ok (Some (CUnlock n x)) rs = (n = length rs \<and> n < 10)"
  "consumer_ok (Some (CPrint n x)) rs = (n = length rs \<and> n < 10)"
  "consumer_ok (Some (CReturned v)) rs = (v = kOkStatus \<and> length rs = 10)"
  by (auto simp: pushed_def in_flight_def producer_ok_def consumer_ok_def)

lemma Producer_cases:
  assumes "Producer status s = Some s'"
  obtains
    (lock_failed) i where "producer s = Some (PLock i)" "i < 10" "status \<noteq> 0"
      "s' = rw_log ''Producer: failure during lock: '' status s"
  | (lock) i where "producer s = Some (PLock i)" "i < 10" "status = 0" "\<not> writer s" "readers s = 0"
      "s' = s\<lparr>writer := True, producer := Some (PPush i)\<rparr>"
  | (return) i where "producer s = Some (PLock i)" "\<not> i < 10" "s' = s\<lparr>producer := Some (PReturned kOkStatus)\<rparr>"
  | (push) i where "producer s = Some (PPush i)" "s' = s\<lparr>vec := vec s @ [i], producer := Some (PUnlock i)\<rparr>"
  | (unlock_failed) i where "producer s = Some (PUnlock i)" "status \<noteq> 0"
      "s' = (rw_log ''Producer: failure during unlock: '' status s)\<lparr>producer := Some (PLock (i + 1))\<rparr>"
  | (unlock) i where "producer s = Some (PUnlock i)" "status = 0" "s' = s\<lparr>writer := False, producer := Some (PLock (i + 1))\<rparr>"
  using assms unfolding Producer_def by (auto split: option.splits producer_pc.splits if_splits)

lemma Consumer_cases:
  assumes "Consumer status s = Some s'"
  obtains
    (lock_failed) n where "consumer s = Some (CLock n)" "n < 10" "status \<noteq> 0"
      "s' = rw_log ''Consumer: failure during lock: '' status s"
  | (lock) n where "consumer s = Some (CLock n)" "n < 10" "status = 0" "\<not> writer s"
      "s' = s\<lparr>readers := readers s + 1, consumer := Some (CTake n)\<rparr>"
  | (return) n where "consumer s = Some (CLock n)" "\<not> n < 10" "s' = s\<lparr>consumer := Some (CReturned kOkStatus)\<rparr>"
  | (take) n where "consumer s = Some (CTake n)" "vec s \<noteq> []"
      "s' = s\<lparr>consumer := Some (CUnlock n (last (vec s))), vec := butlast (vec s)\<rparr>"
  | (empty) n where "consumer s = Some (CTake n)" "vec s = []" "s' = s\<lparr>consumer := Some (CUnlock n kInvalidElement)\<rparr>"
  | (unlock_failed) n x where "consumer s = Some (CUnlock n x)" "status \<noteq> 0"
      "s' = (rw_log ''Producer: failure during unlock: '' status s)
         \<lparr>consumer := Some (CLock n), lost := lost s @ (if x \<noteq> kInvalidElement then [x] else [])\<rparr>"
  | (unlock) n x where "consumer s = Some (CUnlock n x)" "status = 0"
      "s' = s\<lparr>readers := readers s - 1, consumer := Some (CPrint n x)\<rparr>"
  | (element) n x where "consumer s = Some (CPrint n x)" "x \<noteq> kInvalidElement"
      "s' = s\<lparr>rw_events := rw_events s @ [ReadElement x], consumer := Some (CLock (n + 1))\<rparr>"
  | (nothing) n x where "consumer s = Some (CPrint n x)" "x = kInvalidElement" "s' = s\<lparr>consumer := Some (CLock n)\<rparr>"
proof (cases "consumer s")
  case None
  with assms show ?thesis unfolding Consumer_def by simp
next
  case (Some c)
  with assms show ?thesis by (cases c) (auto simp: Consumer_def split: if_splits intro: that)
qed

lemma conserved_nonneg: "conserved s \<Longrightarrow> x \<in> set (vec s) \<Longrightarrow> x \<noteq> kInvalidElement"
proof -
  assume c: "conserved s" and x: "x \<in> set (vec s)"
  have "x \<in># mset (reads (rw_events s)) + mset (vec s) + mset (in_flight (consumer s)) + mset (lost s)"
    using x by simp
  with c have "x \<in> set [0..pushed (producer s) - 1]" unfolding conserved_def by (metis set_mset_mset)
  then show "x \<noteq> kInvalidElement" by (auto simp: kInvalidElement_def)
qed

lemma Producer_inv:
  assumes "Producer status s = Some s'" "rw_inv s"
  shows "rw_inv s'"
  using assms
  by (cases rule: Producer_cases)
     (auto simp: rw_inv_def lock_inv_def writing_def reading_def conserved_def starter_ok_def clean_ok_def upto_snoc
        split: start_pc.splits)

lemma last_vec_mset: "xs \<noteq> [] \<Longrightarrow> mset xs = add_mset (last xs) (mset (butlast xs))"
  by (induction xs) auto

lemma Consumer_inv:
  assumes "Consumer status s = Some s'" "rw_inv s"
  shows "rw_inv s'"
  using assms(1)
proof (cases rule: Consumer_cases)
  case (take n)
  have "last (vec s) \<noteq> kInvalidElement" using take(2) assms(2) conserved_nonneg by (auto simp: rw_inv_def)
  with take assms(2) last_vec_mset [OF take(2)] show ?thesis
    by (auto simp: rw_inv_def lock_inv_def writing_def reading_def conserved_def starter_ok_def clean_ok_def split: start_pc.splits)
qed (use assms(2) in \<open>auto simp: rw_inv_def lock_inv_def writing_def reading_def conserved_def starter_ok_def clean_ok_def
       split: start_pc.splits\<close>)

lemma Main_cases:
  assumes "ConsumerAndProducer status s = Some s'" "producer_ok (producer s)" "consumer_ok (consumer s) rs"
  obtains
    (failed) m r where "status \<noteq> 0" "s' = (rw_log m status s)\<lparr>starter := r\<rparr>"
      "(starter s, r) \<in> {(RunP, RwReturnedEarly), (RunC, RwReturnedEarly), (JoinP, JoinC), (JoinC, RwDone)}"
  | (run_producer) "starter s = RunP" "status = 0" "s' = s\<lparr>producer := Some (PLock 0), starter := RunC\<rparr>"
  | (run_consumer) "starter s = RunC" "status = 0" "s' = s\<lparr>consumer := Some (CLock 0), starter := JoinP\<rparr>"
  | (join_producer) "starter s = JoinP" "status = 0" "producer s = Some (PReturned kOkStatus)" "s' = s\<lparr>starter := JoinC\<rparr>"
  | (join_consumer) "starter s = JoinC" "status = 0" "consumer s = Some (CReturned kOkStatus)" "s' = s\<lparr>starter := RwDone\<rparr>"
  using assms unfolding ConsumerAndProducer_def
  by (auto split: start_pc.splits if_splits option.splits producer_pc.splits consumer_pc.splits)

lemma Main_inv:
  assumes "ConsumerAndProducer status s = Some s'" "rw_inv s"
  shows "rw_inv s'"
proof -
  have ok: "producer_ok (producer s)" "consumer_ok (consumer s) (reads (rw_events s))"
    using assms(2) by (simp_all add: rw_inv_def)
  from assms(1) ok show ?thesis
    by (cases rule: Main_cases)
       (use assms(2) in \<open>auto simp: rw_inv_def lock_inv_def writing_def reading_def conserved_def starter_ok_def clean_ok_def\<close>)
qed

lemma rw_next_inv: "rw_next t status s = Some s' \<Longrightarrow> rw_inv s \<Longrightarrow> rw_inv s'"
  by (cases t) (auto simp: rw_next_def intro: Producer_inv Consumer_inv Main_inv)

interpretation rw_run: lock_protocol rw_step "\<lambda>s. s = rw_init" rw_inv
  "\<lambda>s. if writer s then Some TProducer else if 0 < readers s then Some TConsumer else None"
  "\<lambda>t s. case t of TProducer \<Rightarrow> writing s | TConsumer \<Rightarrow> reading s | TMain \<Rightarrow> False"
proof unfold_locales
  show "rw_inv s" if "s = rw_init" for s
    using that by (simp add: rw_inv_def rw_init_def lock_inv_def conserved_def starter_ok_def clean_ok_def writing_def reading_def)
  show "rw_inv s'" if "rw_step s s'" "rw_inv s" for s s' using that rw_next_inv by (auto elim!: rw_stepE)
  show "(if writer s then Some TProducer else if 0 < readers s then Some TConsumer else None) = Some t"
    if "rw_inv s" "case t of TProducer \<Rightarrow> writing s | TConsumer \<Rightarrow> reading s | TMain \<Rightarrow> False" for s t
    using that by (auto simp: rw_inv_def lock_inv_def split: rw_thread.splits)
qed

section \<open>The end can always be reached\<close>

definition producer_distance :: "producer_pc option \<Rightarrow> nat" where
  "producer_distance p =
     (case p of None \<Rightarrow> 32 | Some (PLock i) \<Rightarrow> nat (3 * (10 - i) + 1) | Some (PPush i) \<Rightarrow> nat (3 * (10 - i))
      | Some (PUnlock i) \<Rightarrow> nat (3 * (10 - i) - 1) | Some (PReturned _) \<Rightarrow> 0)"

definition consumer_distance :: "consumer_pc option \<Rightarrow> int list \<Rightarrow> nat" where
  "consumer_distance c v =
     (case c of None \<Rightarrow> 42 | Some (CLock n) \<Rightarrow> 4 * (10 - n) + 1
      | Some (CTake n) \<Rightarrow> 4 * (10 - n) + (if v = [] then 4 else 0)
      | Some (CUnlock n x) \<Rightarrow> if x = kInvalidElement then 4 * (10 - n) + 3 else 4 * (10 - n) - 1
      | Some (CPrint n x) \<Rightarrow> if x = kInvalidElement then 4 * (10 - n) + 2 else 4 * (10 - n) - 2
      | Some (CReturned _) \<Rightarrow> 0)"

definition starter_distance :: "start_pc \<Rightarrow> nat" where
  "starter_distance r = (case r of RunP \<Rightarrow> 4 | RunC \<Rightarrow> 3 | JoinP \<Rightarrow> 2 | JoinC \<Rightarrow> 1 | _ \<Rightarrow> 0)"

definition rw_distance :: "rw_state \<Rightarrow> nat" where
  "rw_distance s = producer_distance (producer s) + consumer_distance (consumer s) (vec s) + starter_distance (starter s)"

lemma rw_stepI:
  "Producer status s = Some s' \<Longrightarrow> rw_step s s'" "Consumer status s = Some s' \<Longrightarrow> rw_step s s'"
  "ConsumerAndProducer status s = Some s' \<Longrightarrow> rw_step s s'"
  using rw_step [of TProducer status s s'] rw_step [of TConsumer status s s'] rw_step [of TMain status s s']
  by (simp_all add: rw_next_def)

lemma consumer_closer:
  assumes "rw_inv s" "clean s" "reading s \<or> consumer s = Some (CPrint n x)"
  shows "\<exists>s'. Consumer 0 s = Some s' \<and> clean s' \<and> rw_distance s' < rw_distance s"
proof -
  obtain c where c: "consumer s = Some c" using assms(3) by (cases "consumer s") (auto simp: reading_def)
  have last: "vec s \<noteq> [] \<Longrightarrow> last (vec s) \<noteq> kInvalidElement"
    using assms(1) conserved_nonneg by (auto simp: rw_inv_def)
  from c assms last show ?thesis
    by (cases c) (auto simp: Consumer_def rw_inv_def reading_def rw_distance_def consumer_distance_def)
qed

lemma producer_closer:
  assumes "rw_inv s" "clean s" "\<not> reading s" "producer s = Some p" "\<And>v. p \<noteq> PReturned v"
  shows "\<exists>s'. Producer 0 s = Some s' \<and> clean s' \<and> rw_distance s' < rw_distance s"
  using assms
  by (cases p) (auto simp: Producer_def rw_inv_def clean_ok_def writing_def rw_distance_def producer_distance_def
      consumer_distance_def reading_def split: option.splits consumer_pc.splits)

text \<open>When the producer is through, what has not been printed is in the vector.\<close>

lemma vector_holds_rest:
  assumes "rw_inv s" "clean s" "producer s = Some (PReturned v)" "consumer s = Some (CLock n)"
  shows "n + length (vec s) = 10"
proof -
  have "mset (reads (rw_events s)) + mset (vec s) = mset [0..9]"
    using assms by (auto simp: rw_inv_def conserved_def clean_ok_def)
  then have "size (mset (reads (rw_events s)) + mset (vec s)) = size (mset [0..9 :: int])" by simp
  then show ?thesis using assms by (simp add: rw_inv_def)
qed

lemma consumer_finishes:
  assumes "rw_inv s" "clean s" "producer s = Some (PReturned v)" "consumer s = Some (CLock n)"
  shows "\<exists>s'. Consumer 0 s = Some s' \<and> clean s' \<and> rw_distance s' < rw_distance s"
proof -
  have "\<not> writer s" using assms by (simp add: rw_inv_def clean_ok_def writing_def)
  with assms vector_holds_rest [OF assms] show ?thesis
    by (auto simp: Consumer_def rw_distance_def consumer_distance_def)
qed

lemma main_finishes:
  assumes "rw_inv s" "clean s" "starter s \<noteq> RwDone"
    and "starter s = RunP \<or> starter s = RunC \<or>
      (\<exists>v w. producer s = Some (PReturned v) \<and> consumer s = Some (CReturned w))"
  shows "\<exists>s'. ConsumerAndProducer 0 s = Some s' \<and> clean s' \<and> rw_distance s' < rw_distance s"
proof -
  have ok: "starter s \<noteq> RwReturnedEarly" "starter s \<noteq> RwAssertFailed" "producer_ok (producer s)"
      "consumer_ok (consumer s) (reads (rw_events s))"
    using assms(1,2) by (auto simp: rw_inv_def starter_ok_def clean_ok_def)
  show ?thesis
  proof (cases "starter s")
    case RunP
    then have "producer s = None" using assms(1) by (simp add: rw_inv_def starter_ok_def)
    with RunP assms(2) show ?thesis
      by (simp add: ConsumerAndProducer_def rw_distance_def starter_distance_def producer_distance_def)
  next
    case RunC
    then have "consumer s = None" using assms(1) by (simp add: rw_inv_def starter_ok_def)
    with RunC assms(2) show ?thesis
      by (simp add: ConsumerAndProducer_def rw_distance_def starter_distance_def consumer_distance_def)
  qed (use assms(2-4) ok in \<open>auto simp: ConsumerAndProducer_def rw_distance_def starter_distance_def\<close>)
qed

interpretation rw_end: possible_end rw_step "\<lambda>s. s = rw_init" rw_inv clean "\<lambda>s. starter s = RwDone" rw_distance
proof unfold_locales
  fix s assume inv: "rw_inv s" and s: "clean s" "starter s \<noteq> RwDone"
  show "\<exists>s'. rw_step s s' \<and> clean s' \<and> rw_distance s' < rw_distance s"
  proof (cases "starter s = RunP \<or> starter s = RunC")
    case True
    then show ?thesis using main_finishes [OF inv s] rw_stepI(3) by blast
  next
    case False
    then obtain p c where pc: "producer s = Some p" "consumer s = Some c"
      using inv s by (auto simp: rw_inv_def starter_ok_def clean_ok_def split: start_pc.splits)
    consider "reading s \<or> (\<exists>n x. consumer s = Some (CPrint n x))"
      | "\<not> reading s" "\<And>v. p \<noteq> PReturned v"
      | v n where "p = PReturned v" "c = CLock n"
      | v w where "p = PReturned v" "c = CReturned w"
      using pc by (cases c; cases p) (auto simp: reading_def)
    then show ?thesis
      using consumer_closer [OF inv s(1)] producer_closer [OF inv s(1) _ pc(1)]
        consumer_finishes [OF inv s(1)] main_finishes [OF inv s] rw_stepI pc
      by cases blast+
  qed
qed

section \<open>Properties\<close>

lemma rw_exec_steps: "rw_exec cs s = Some s' \<Longrightarrow> rw_step\<^sup>*\<^sup>* s s'"
proof (induction cs s rule: rw_exec.induct)
  case (2 t status cs s)
  then show ?case by (auto split: bind_splits intro: converse_rtranclp_into_rtranclp rw_step)
qed simp

lemma rw_next_lost: "rw_next t status s = Some s' \<Longrightarrow> lost s \<noteq> [] \<Longrightarrow> lost s' \<noteq> []"
  by (cases t) (auto simp: rw_next_def ConsumerAndProducer_def elim!: Producer_cases Consumer_cases
      split: start_pc.splits if_splits option.splits producer_pc.splits consumer_pc.splits)

lemma pushed_le: "producer_ok p \<Longrightarrow> pushed p \<le> 10"
  by (auto simp: producer_ok_def pushed_def split: option.splits producer_pc.splits)

lemma all_read:
  assumes "rw_inv s" "length (reads (rw_events s)) = 10"
  shows "mset (reads (rw_events s)) = mset [0..9] \<and> vec s = [] \<and> lost s = [] \<and> in_flight (consumer s) = []"
proof -
  let ?r = "mset (reads (rw_events s))" and ?o = "mset (vec s) + mset (in_flight (consumer s)) + mset (lost s)"
  have c: "?r + ?o = mset [0..pushed (producer s) - 1]" using assms(1) by (simp add: rw_inv_def conserved_def ac_simps)
  have p: "pushed (producer s) \<le> 10" using assms(1) pushed_le by (simp add: rw_inv_def)
  have "size (?r + ?o) = nat (pushed (producer s))" unfolding c by simp
  then have "10 + size ?o = nat (pushed (producer s))" using assms(2) by simp
  with p have "size ?o = 0" "pushed (producer s) = 10" by linarith+
  then have "?o = {#}" "pushed (producer s) = 10" by (simp_all only: size_eq_0_iff_empty)
  with c show ?thesis by simp
qed

text \<open>
  Property C17. In every interleaving of the producer, the consumer and the main thread, with
  any lock and unlock calls failing: the two threads are never both between their lock and
  their unlock; every number the producer has pushed is exactly once among the numbers printed,
  in the vector, in the hands of the consumer, or lost by it; and when the consumer has returned
  it has printed each of 0, \<dots>, 9 exactly once, the vector is empty and nothing has been lost.
\<close>

theorem producer_consumer_conserve:
  assumes "rw_step\<^sup>*\<^sup>* rw_init s"
  shows "\<not> (writing s \<and> reading s) \<and>
    mset (reads (rw_events s)) + mset (vec s) + mset (in_flight (consumer s)) + mset (lost s) =
      mset [0..pushed (producer s) - 1] \<and>
    (consumer s = Some (CReturned v) \<longrightarrow>
       mset (reads (rw_events s)) = mset [0..9] \<and> vec s = [] \<and> lost s = [])"
proof -
  have inv: "rw_inv s" using rw_run.holds_reachable [OF assms] by simp
  have "\<not> (writing s \<and> reading s)"
    using rw_run.mutual_exclusion [OF assms refl, of TProducer TConsumer] by auto
  moreover have "length (reads (rw_events s)) = 10" if "consumer s = Some (CReturned v)"
    using inv that by (simp add: rw_inv_def)
  ultimately show ?thesis using inv all_read [OF inv] by (auto simp: rw_inv_def conserved_def)
qed

definition rw_schedule :: "(rw_thread \<times> int) list" where
  "rw_schedule = [(TMain, 0), (TMain, 0)] @ replicate 3 (TProducer, 0) @ [(TConsumer, 0), (TConsumer, 0)] @
     [(TConsumer, 0), (TProducer, 35), (TConsumer, 0)] @ replicate 28 (TProducer, 0) @ replicate 37 (TConsumer, 0) @
     [(TMain, 0), (TMain, 0)]"

theorem producer_consumer_conserve_witness:
  "\<exists>s. rw_exec rw_schedule rw_init = Some s \<and> starter s = RwDone \<and> vec s = [] \<and>
     mset (reads (rw_events s)) = mset [0..9]"
proof -
  obtain s where s: "rw_exec rw_schedule rw_init = Some s" "starter s = RwDone" "consumer s = Some (CReturned kOkStatus)"
    by (simp add: rw_schedule_def rw_init_def rw_next_def ConsumerAndProducer_def Producer_def Consumer_def
        eval_nat_numeral kInvalidElement_def rw_log_def)
  from producer_consumer_conserve [OF rw_exec_steps [OF s(1)], of kOkStatus] s show ?thesis by auto
qed

text \<open>
  Property C18. As long as no call has failed, the program can be scheduled to its end, with all
  numbers printed: no interleaving leads into a deadlock or a state that cannot be left.
\<close>

theorem producer_consumer_end_reachable:
  assumes "rw_step\<^sup>*\<^sup>* rw_init s" "clean s"
  shows "\<exists>t. rw_step\<^sup>*\<^sup>* s t \<and> clean t \<and> starter t = RwDone"
  using rw_end.goal_possible [OF assms(1) refl assms(2)] .

theorem producer_consumer_end_reachable_witness:
  "\<exists>s t. rw_exec [(TMain, 0), (TProducer, 0), (TMain, 0), (TProducer, 0)] rw_init = Some s \<and>
     rw_step\<^sup>*\<^sup>* s t \<and> starter t = RwDone"
proof -
  obtain s where s: "rw_exec [(TMain, 0), (TProducer, 0), (TMain, 0), (TProducer, 0)] rw_init = Some s" "clean s"
    by (simp add: rw_init_def rw_next_def ConsumerAndProducer_def Producer_def clean_def)
  from producer_consumer_end_reachable [OF rw_exec_steps [OF s(1)] s(2)] s(1) show ?thesis by blast
qed

text \<open>
  Property C19. An element the consumer took before a failing unlock is dropped, and after that
  the consumer never returns, whatever happens: it waits for ten elements where only nine can
  still come.
\<close>

theorem consumer_loses_element:
  assumes "rw_step\<^sup>*\<^sup>* rw_init s" "lost s \<noteq> []" "rw_step\<^sup>*\<^sup>* s t"
  shows "consumer t \<noteq> Some (CReturned v)"
proof
  assume c: "consumer t = Some (CReturned v)"
  have "lost t \<noteq> []" using assms(3,2) by (induction rule: rtranclp_induct) (auto elim!: rw_stepE dest: rw_next_lost)
  moreover have "rw_inv t"
    using rw_run.holds_reachable [OF rtranclp_trans [OF assms(1,3)]] by simp
  ultimately show False using c all_read [of t] by (simp add: rw_inv_def)
qed

theorem consumer_loses_element_witness:
  "\<exists>s. rw_exec ([(TMain, 0), (TMain, 0)] @ replicate 3 (TProducer, 0) @ [(TConsumer, 0), (TConsumer, 0), (TConsumer, 1)]) rw_init = Some s \<and>
     lost s = [0] \<and> consumer s \<noteq> Some (CReturned kOkStatus)"
proof -
  obtain s where s: "rw_exec ([(TMain, 0), (TMain, 0)] @ replicate 3 (TProducer, 0) @ [(TConsumer, 0), (TConsumer, 0), (TConsumer, 1)]) rw_init = Some s"
      "lost s = [0]"
    by (simp add: rw_init_def rw_next_def ConsumerAndProducer_def Producer_def Consumer_def
        eval_nat_numeral kInvalidElement_def rw_log_def)
  from consumer_loses_element [OF rw_exec_steps [OF s(1)], of s] s show ?thesis by auto
qed

end
