(* ===== verification/Data_Race.thy ===== *)
theory Data_Race
  imports Prelude
begin

text \<open>
  Data races in the sense of C++: two accesses of different threads to one variable, at least one
  of them a write, that are not ordered by happens-before. An execution with a data race is
  undefined, whatever its accesses deliver.

  The programs of \<open>posix_threads/\<close> without a lock order the actions of their threads only by
  \<open>pthread_create\<close>, which comes before all of the new thread, and by \<open>pthread_join\<close>, which comes after all of
  the thread joined. A trace is the list of the accesses to the shared variable, the creations and the joins.
\<close>

datatype actor = Main_Thread | Thread nat

datatype action = Reads actor | Writes actor | Creates nat | Joins nat

fun performed_by :: "action \<Rightarrow> actor" where
  "performed_by (Reads a) = a"
| "performed_by (Writes a) = a"
| "performed_by (Creates t) = Main_Thread"
| "performed_by (Joins t) = Main_Thread"

definition program_order :: "action list \<Rightarrow> nat \<Rightarrow> nat \<Rightarrow> bool" where
  "program_order tr i j \<longleftrightarrow> i < j \<and> j < length tr \<and> performed_by (tr ! i) = performed_by (tr ! j)"

inductive synchronizes_with :: "action list \<Rightarrow> nat \<Rightarrow> nat \<Rightarrow> bool" for tr where
  start: "i < j \<Longrightarrow> j < length tr \<Longrightarrow> tr ! i = Creates t \<Longrightarrow> performed_by (tr ! j) = Thread t \<Longrightarrow> synchronizes_with tr i j"
| finish: "i < j \<Longrightarrow> j < length tr \<Longrightarrow> performed_by (tr ! i) = Thread t \<Longrightarrow> tr ! j = Joins t \<Longrightarrow> synchronizes_with tr i j"

definition ordered :: "action list \<Rightarrow> nat \<Rightarrow> nat \<Rightarrow> bool" where
  "ordered tr i j \<longleftrightarrow> program_order tr i j \<or> synchronizes_with tr i j"

definition happens_before :: "action list \<Rightarrow> nat \<Rightarrow> nat \<Rightarrow> bool" where
  "happens_before tr = (ordered tr)\<^sup>+\<^sup>+"

fun conflict :: "action \<Rightarrow> action \<Rightarrow> bool" where
  "conflict (Writes a) (Writes b) = (a \<noteq> b)"
| "conflict (Writes a) (Reads b) = (a \<noteq> b)"
| "conflict (Reads a) (Writes b) = (a \<noteq> b)"
| "conflict _ _ = False"

definition data_race :: "action list \<Rightarrow> bool" where
  "data_race tr \<longleftrightarrow> (\<exists>i j. i < j \<and> j < length tr \<and> conflict (tr ! i) (tr ! j) \<and> \<not> happens_before tr i j)"

text \<open>All threads are created before the first one is joined.\<close>

fun joins :: "action \<Rightarrow> bool" where
  "joins (Joins t) = True"
| "joins _ = False"

fun creates :: "action \<Rightarrow> bool" where
  "creates (Creates t) = True"
| "creates _ = False"

definition creates_first :: "action list \<Rightarrow> bool" where
  "creates_first tr \<longleftrightarrow> sorted_wrt (\<lambda>a b. \<not> (joins a \<and> creates b)) tr"

lemma creates_first_Nil [simp]: "creates_first []"
  by (simp add: creates_first_def)

lemma creates_first_snoc [simp]:
  "creates_first (tr @ [a]) \<longleftrightarrow> creates_first tr \<and> (creates a \<longrightarrow> (\<forall>b \<in> set tr. \<not> joins b))"
  by (auto simp: creates_first_def sorted_wrt_append)

section \<open>Threads that are created before the joins are not ordered\<close>

lemma ordered_less: "ordered tr i j \<Longrightarrow> i < j"
  by (auto simp: ordered_def program_order_def elim: synchronizes_with.cases)

text \<open>What a thread did happens before what the main thread does after joining it.\<close>

lemma joined_before:
  assumes "i < j" "j < k" "k < length tr" "performed_by (tr ! i) = Thread t" "tr ! j = Joins t" "performed_by (tr ! k) = Main_Thread"
  shows "happens_before tr i k"
proof -
  have "synchronizes_with tr i j" using assms by (intro synchronizes_with.finish) auto
  then have "ordered tr i j" "ordered tr j k" using assms by (auto simp: ordered_def program_order_def)
  then show ?thesis unfolding happens_before_def by auto
qed

text \<open>A path out of a thread passes its join, and a path into a thread its creation.\<close>

lemma out_of_thread:
  assumes "happens_before tr i j" "performed_by (tr ! i) = Thread t" "performed_by (tr ! j) \<noteq> Thread t"
  shows "\<exists>k \<le> j. tr ! k = Joins t \<and> i < k"
  using assms unfolding happens_before_def
proof (induction rule: tranclp_induct)
  case (base j)
  then show ?case using ordered_less [OF base(1)]
    by (auto simp: ordered_def program_order_def elim!: synchronizes_with.cases)
next
  case (step j k)
  show ?case
  proof (cases "performed_by (tr ! j) = Thread t")
    case True
    have "i < k" using step(1,2) ordered_less tranclp_induct [of "ordered tr" i j "\<lambda>j. i < j"] by fastforce
    then show ?thesis using step(2,5) True by (auto simp: ordered_def program_order_def elim!: synchronizes_with.cases)
  next
    case False
    then show ?thesis using step ordered_less [OF step(2)] by (meson le_trans less_imp_le)
  qed
qed

lemma into_thread:
  assumes "happens_before tr i j" "performed_by (tr ! i) \<noteq> Thread u" "performed_by (tr ! j) = Thread u"
  shows "\<exists>k. tr ! k = Creates u \<and> k < j \<and> (k = i \<or> happens_before tr i k)"
  using assms unfolding happens_before_def
proof (induction rule: tranclp_induct)
  case (base j)
  then show ?case using ordered_less [OF base(1)]
    by (auto simp: ordered_def program_order_def elim!: synchronizes_with.cases)
next
  case (step j k)
  show ?case
  proof (cases "performed_by (tr ! j) = Thread u")
    case True
    then show ?thesis using step ordered_less [OF step(2)] by (meson less_trans)
  next
    case False
    then have "tr ! j = Creates u" using step(2,5) by (auto simp: ordered_def program_order_def elim!: synchronizes_with.cases)
    then show ?thesis using step(1,2) ordered_less by blast
  qed
qed

lemma threads_unordered:
  assumes "creates_first tr" "j < length tr" "performed_by (tr ! i) = Thread t" "performed_by (tr ! j) = Thread u" "t \<noteq> u"
  shows "\<not> happens_before tr i j"
proof
  assume "happens_before tr i j"
  from into_thread [OF this, of u] assms(3-5) obtain k where k: "tr ! k = Creates u" "k < j" "k = i \<or> happens_before tr i k"
    by auto
  have "k \<noteq> i" using k(1) assms(3) by auto
  with k out_of_thread [of tr i k t] assms(3) obtain l where l: "l \<le> k" "tr ! l = Joins t" by auto
  then have "l < k" using k(1) by (metis action.distinct(11) le_neq_implies_less)
  with assms(1,2) k(2) have "\<not> (joins (tr ! l) \<and> creates (tr ! k))" by (simp add: creates_first_def sorted_wrt_iff_nth_less)
  with k(1) l(2) show False by simp
qed

lemma unsynchronised_race:
  assumes "creates_first tr" "Writes (Thread t) \<in> set tr" "Reads (Thread u) \<in> set tr" "t \<noteq> u"
  shows "data_race tr"
proof -
  obtain i j where i: "i < length tr" "tr ! i = Writes (Thread t)" and j: "j < length tr" "tr ! j = Reads (Thread u)"
    using assms(2,3) by (metis in_set_conv_nth)
  have "i \<noteq> j" using i j by auto
  then consider "i < j" | "j < i" by linarith
  then show ?thesis
  proof cases
    case 1
    have "\<not> happens_before tr i j" using threads_unordered [OF assms(1) j(1), of i t u] i j assms(4) by simp
    with 1 i j assms(4) show ?thesis unfolding data_race_def by (intro exI [of _ i] exI [of _ j]) simp
  next
    case 2
    have "\<not> happens_before tr j i" using threads_unordered [OF assms(1) i(1), of j u t] i j assms(4) by simp
    with 2 i j assms(4) show ?thesis unfolding data_race_def by (intro exI [of _ j] exI [of _ i]) simp
  qed
qed

end
