(* ===== verification/Pthread_Easy.thy ===== *)
theory Pthread_Easy
  imports Data_Race
begin

text \<open>
  \<open>posix_threads/easy_pthreads.cpp\<close>: two threads increment a variable without a lock. As in \<open>Pthread_Mutex\<close> a step of a thread is one access to shared state
  or one blocking call, and the status a call returns is an argument. The trace \<open>eactions\<close> records the
  accesses to the variable with the calls that order them: C++ gives an execution with a data race no
  meaning, and what the steps say about the value is what happens when each access is executed as one step.
\<close>

section \<open>Two increments without a lock\<close>

datatype easy_pc = EPrint | ERead | EWrite int | EReturned

datatype easy_main_pc = ECreate nat | EJoin nat | EEnded int | EAborted

datatype easy_event = EState int | ECreateFailed nat int | EJoinFailed nat int

record easy =
  estate :: int
  workers :: "easy_pc list"
  emain :: easy_main_pc
  elog :: "easy_event list"
  eactions :: "action list"

text \<open>One step of thread \<open>t\<close>; the process and its threads end with \<open>main\<close>.\<close>

definition ThreadFunction :: "nat \<Rightarrow> easy \<Rightarrow> easy option" where
  "ThreadFunction t s =
     (if t < length (workers s) \<and> (case emain s of EEnded _ \<Rightarrow> False | EAborted \<Rightarrow> False | _ \<Rightarrow> True) then
        (case workers s ! t of
           EPrint \<Rightarrow> Some (s\<lparr>workers := (workers s)[t := ERead], elog := elog s @ [EState (estate s)],
             eactions := eactions s @ [Reads (Thread t)]\<rparr>)
         | ERead \<Rightarrow> Some (s\<lparr>workers := (workers s)[t := EWrite (estate s)], eactions := eactions s @ [Reads (Thread t)]\<rparr>)
         | EWrite v \<Rightarrow> Some (s\<lparr>workers := (workers s)[t := EReturned], estate := v + 1,
             eactions := eactions s @ [Writes (Thread t)]\<rparr>)
         | EReturned \<Rightarrow> None)
      else None)"

text \<open>One step of \<open>main\<close>; the messages contain the variable instead of the status.\<close>

definition easy_main :: "int \<Rightarrow> easy \<Rightarrow> easy option" where
  "easy_main status s =
     (case emain s of
        ECreate i \<Rightarrow>
          if i < 2 then
            if status \<noteq> 0 then Some (s\<lparr>emain := EEnded (-1), elog := elog s @ [ECreateFailed (i + 1) (estate s)],
              eactions := eactions s @ [Reads Main_Thread]\<rparr>)
            else Some (s\<lparr>emain := ECreate (i + 1), workers := workers s @ [EPrint], eactions := eactions s @ [Creates i]\<rparr>)
          else Some (s\<lparr>emain := EJoin 0\<rparr>)
      | EJoin i \<Rightarrow>
          if i < 2 then
            if status \<noteq> 0 then Some (s\<lparr>emain := EEnded (-1), elog := elog s @ [EJoinFailed (i + 1) (estate s)],
              eactions := eactions s @ [Reads Main_Thread]\<rparr>)
            else if workers s ! i = EReturned then Some (s\<lparr>emain := EJoin (i + 1), eactions := eactions s @ [Joins i]\<rparr>) else None
          else Some (s\<lparr>emain := (if estate s = 3 then EEnded 0 else EAborted), eactions := eactions s @ [Reads Main_Thread]\<rparr>)
      | _ \<Rightarrow> None)"

definition easy_init :: easy where
  "easy_init = \<lparr>estate = 1, workers = [], emain = ECreate 0, elog = [], eactions = [Writes Main_Thread]\<rparr>"

inductive easy_step :: "easy \<Rightarrow> easy \<Rightarrow> bool" where
  thread: "ThreadFunction t s = Some s' \<Longrightarrow> easy_step s s'"
| main: "easy_main status s = Some s' \<Longrightarrow> easy_step s s'"

inductive_cases easy_stepE: "easy_step s s'"

text \<open>A run given by its choices: \<open>None\<close> for \<open>main\<close> with a successful call, \<open>Some t\<close> for thread \<open>t\<close>.\<close>

fun easy_exec :: "nat option list \<Rightarrow> easy \<Rightarrow> easy option" where
  "easy_exec [] s = Some s"
| "easy_exec (None # cs) s = Option.bind (easy_main 0 s) (easy_exec cs)"
| "easy_exec (Some t # cs) s = Option.bind (ThreadFunction t s) (easy_exec cs)"

definition returned :: "easy \<Rightarrow> int" where
  "returned s = int (sum_list (map (\<lambda>p. if p = EReturned then 1 else 0) (workers s)))"

definition failed_call :: "easy \<Rightarrow> bool" where
  "failed_call s \<longleftrightarrow> (\<exists>i v. ECreateFailed i v \<in> set (elog s) \<or> EJoinFailed i v \<in> set (elog s))"

definition easy_inv :: "easy \<Rightarrow> bool" where
  "easy_inv s \<longleftrightarrow> 1 \<le> estate s \<and> estate s \<le> 1 + returned s \<and> (0 < returned s \<longrightarrow> 2 \<le> estate s) \<and>
     (\<forall>t v. t < length (workers s) \<longrightarrow> workers s ! t = EWrite v \<longrightarrow> 1 \<le> v \<and> v \<le> 1 + returned s) \<and>
     (case emain s of
        ECreate i \<Rightarrow> length (workers s) = i \<and> i \<le> 2
      | EJoin i \<Rightarrow> length (workers s) = 2 \<and> i \<le> 2 \<and> (\<forall>t < i. workers s ! t = EReturned)
      | EEnded k \<Rightarrow> k = 0 \<and> estate s = 3 \<or> k = -1 \<and> failed_call s
      | EAborted \<Rightarrow> estate s = 2)"

text \<open>What the trace contains: the accesses of every thread so far, and no creation after a join.\<close>

definition easy_trace :: "easy \<Rightarrow> bool" where
  "easy_trace s \<longleftrightarrow> creates_first (eactions s) \<and>
     (\<forall>t < length (workers s). workers s ! t \<noteq> EPrint \<longrightarrow> Reads (Thread t) \<in> set (eactions s)) \<and>
     (\<forall>t < length (workers s). workers s ! t = EReturned \<longrightarrow> Writes (Thread t) \<in> set (eactions s)) \<and>
     (case emain s of
        ECreate i \<Rightarrow> \<forall>a \<in> set (eactions s). \<not> joins a
      | EJoin i \<Rightarrow> True
      | EEnded k \<Rightarrow> k = 0 \<longrightarrow> workers s = [EReturned, EReturned]
      | EAborted \<Rightarrow> workers s = [EReturned, EReturned])"

definition easy_weight :: "easy_pc \<Rightarrow> nat" where
  "easy_weight p = (case p of EPrint \<Rightarrow> 3 | ERead \<Rightarrow> 2 | EWrite _ \<Rightarrow> 1 | EReturned \<Rightarrow> 0)"

definition easy_remaining :: "easy \<Rightarrow> nat" where
  "easy_remaining s =
     sum_list (map easy_weight (workers s)) +
     (case emain s of ECreate i \<Rightarrow> 4 * (2 - i) + 4 | EJoin i \<Rightarrow> 3 - i | _ \<Rightarrow> 0)"

lemma ThreadFunction_cases:
  assumes "ThreadFunction t s = Some s'"
  obtains
    (print) "workers s ! t = EPrint" "s' = s\<lparr>workers := (workers s)[t := ERead], elog := elog s @ [EState (estate s)], eactions := eactions s @ [Reads (Thread t)]\<rparr>"
  | (load) "workers s ! t = ERead" "s' = s\<lparr>workers := (workers s)[t := EWrite (estate s)], eactions := eactions s @ [Reads (Thread t)]\<rparr>"
  | (store) v where "workers s ! t = EWrite v" "s' = s\<lparr>workers := (workers s)[t := EReturned], estate := v + 1, eactions := eactions s @ [Writes (Thread t)]\<rparr>"
  using assms unfolding ThreadFunction_def by (auto split: if_splits easy_pc.splits)

lemma ThreadFunction_running:
  assumes "ThreadFunction t s = Some s'"
  shows "t < length (workers s)" "emain s' = emain s" "\<exists>i. emain s = ECreate i \<or> emain s = EJoin i"
  using assms by (auto simp: ThreadFunction_def split: if_splits easy_pc.splits easy_main_pc.splits)

lemma ThreadFunction_inv:
  assumes "ThreadFunction t s = Some s'" "easy_inv s"
  shows "easy_inv s'"
proof -
  note t = ThreadFunction_running [OF assms(1)]
  note w = sum_list_weight_update [OF t(1), of "\<lambda>p. if p = EReturned then 1 else 0"]
  from assms(1) show ?thesis
  proof (cases rule: ThreadFunction_cases)
    case print
    have "returned s' = returned s" using w [of ERead] print by (simp add: returned_def)
    then show ?thesis using print assms(2) t
      by (auto simp: easy_inv_def nth_list_update split: easy_main_pc.splits)
  next
    case load
    have "returned s' = returned s" using w [of "EWrite (estate s)"] load by (simp add: returned_def)
    then show ?thesis using load assms(2) t
      by (auto simp: easy_inv_def nth_list_update split: easy_main_pc.splits)
  next
    case (store v)
    have r: "returned s' = returned s + 1" using w [of EReturned] store by (simp add: returned_def)
    have "1 \<le> v" "v \<le> 1 + returned s" using assms(2) store(1) t(1) by (auto simp: easy_inv_def)
    then show ?thesis using store assms(2) t r
      by (auto simp: easy_inv_def nth_list_update split: easy_main_pc.splits)
  qed
qed

lemma easy_main_cases:
  assumes "easy_main status s = Some s'"
  obtains
    (create) i where "emain s = ECreate i" "i < 2" "s' = s\<lparr>emain := ECreate (i + 1), workers := workers s @ [EPrint], eactions := eactions s @ [Creates i]\<rparr>"
  | (created) i where "emain s = ECreate i" "2 \<le> i" "s' = s\<lparr>emain := EJoin 0\<rparr>"
  | (joined) i where "emain s = EJoin i" "i < 2" "workers s ! i = EReturned" "s' = s\<lparr>emain := EJoin (i + 1), eactions := eactions s @ [Joins i]\<rparr>"
  | (failed) e i where "emain s = ECreate i \<or> emain s = EJoin i" "status \<noteq> 0" "i < 2" "e = ECreateFailed (i + 1) (estate s) \<or> e = EJoinFailed (i + 1) (estate s)"
      "s' = s\<lparr>emain := EEnded (-1), elog := elog s @ [e], eactions := eactions s @ [Reads Main_Thread]\<rparr>"
  | (asserted) i where "emain s = EJoin i" "2 \<le> i" "s' = s\<lparr>emain := (if estate s = 3 then EEnded 0 else EAborted), eactions := eactions s @ [Reads Main_Thread]\<rparr>"
  using assms unfolding easy_main_def by (auto split: if_splits easy_main_pc.splits)

lemma both_returned:
  assumes "easy_inv s" "emain s = EJoin i" "2 \<le> i"
  shows "workers s = [EReturned, EReturned]"
proof -
  have "length (workers s) = 2" "\<forall>t < 2. workers s ! t = EReturned" using assms by (auto simp: easy_inv_def)
  then show ?thesis by (auto simp: list_eq_iff_nth_eq nth_Cons split: nat.splits)
qed

lemma easy_main_inv:
  assumes "easy_main status s = Some s'" "easy_inv s"
  shows "easy_inv s'"
  using assms(1)
proof (cases rule: easy_main_cases)
  case (create i)
  have "returned s' = returned s" using create by (simp add: returned_def)
  then show ?thesis using create assms(2) by (auto simp: easy_inv_def nth_append)
next
  case (failed e i)
  then have "failed_call s'" by (auto simp: failed_call_def)
  then show ?thesis using failed assms(2) by (auto simp: easy_inv_def returned_def)
next
  case (asserted i)
  then have "workers s = [EReturned, EReturned]" using both_returned [OF assms(2)] by blast
  then have "returned s = 2" by (simp add: returned_def)
  then show ?thesis using asserted assms(2) by (auto simp: easy_inv_def returned_def)
qed (use assms(2) in \<open>auto simp: easy_inv_def returned_def less_Suc_eq\<close>)

lemma ThreadFunction_trace:
  assumes "ThreadFunction t s = Some s'" "easy_trace s"
  shows "easy_trace s'"
proof -
  obtain i where i: "emain s = ECreate i \<or> emain s = EJoin i" using ThreadFunction_running(3) [OF assms(1)] by blast
  from assms(1) show ?thesis
    by (cases rule: ThreadFunction_cases) (use assms(2) i ThreadFunction_running(1) [OF assms(1)] in \<open>auto simp: easy_trace_def nth_list_update split: if_splits\<close>)
qed

lemma easy_main_trace:
  assumes "easy_main status s = Some s'" "easy_trace s" "easy_inv s"
  shows "easy_trace s'"
  using assms(1)
proof (cases rule: easy_main_cases)
  case (create i)
  then show ?thesis using assms(2) by (auto simp: easy_trace_def nth_append)
next
  case (asserted i)
  then show ?thesis using assms(2) both_returned [OF assms(3)] by (auto simp: easy_trace_def)
qed (use assms(2) in \<open>auto simp: easy_trace_def\<close>)

lemma easy_decreases:
  assumes "easy_step s s'" "easy_inv s"
  shows "easy_remaining s' < easy_remaining s"
  using assms(1)
proof (cases rule: easy_step.cases)
  case (thread t)
  note running = ThreadFunction_running [OF thread]
  note w = sum_list_weight_update [OF running(1), of easy_weight]
  from thread show ?thesis
  proof (cases rule: ThreadFunction_cases)
    case print
    then show ?thesis using w [of ERead] by (simp add: easy_remaining_def easy_weight_def)
  next
    case load
    then show ?thesis using w [of "EWrite (estate s)"] by (simp add: easy_remaining_def easy_weight_def)
  next
    case (store v)
    then show ?thesis using w [of EReturned] by (simp add: easy_remaining_def easy_weight_def)
  qed
next
  case (main status)
  then show ?thesis using assms(2) by (cases rule: easy_main_cases) (auto simp: easy_remaining_def easy_weight_def easy_inv_def)
qed

interpretation easy_bounded: bounded_run easy_step "\<lambda>s. s = easy_init" "\<lambda>s. easy_inv s \<and> easy_trace s" easy_remaining
proof unfold_locales
  show "easy_inv s \<and> easy_trace s" if "s = easy_init" for s
    using that by (simp add: easy_inv_def easy_trace_def easy_init_def returned_def creates_first_def)
  show "easy_inv s' \<and> easy_trace s'" if "easy_step s s'" "easy_inv s \<and> easy_trace s" for s s'
    using that by (auto elim!: easy_stepE intro: ThreadFunction_inv easy_main_inv ThreadFunction_trace easy_main_trace)
qed (blast intro: easy_decreases)

text \<open>A run in which both threads have finished has a data race: the write of one and the reads of the other are not ordered.\<close>

lemma easy_race:
  assumes "easy_trace s" "workers s = [EReturned, EReturned]"
  shows "data_race (eactions s)"
proof -
  have "Writes (Thread 0) \<in> set (eactions s)" "Reads (Thread 1) \<in> set (eactions s)"
    using assms by (auto simp: easy_trace_def)
  then show ?thesis using assms(1) by (intro unsynchronised_race [of _ 0 1]) (auto simp: easy_trace_def)
qed

lemma easy_exec_steps: "easy_exec cs s = Some s' \<Longrightarrow> (easy_step ^^ length cs) s s'"
proof (induction cs s rule: easy_exec.induct)
  case (2 cs s)
  then show ?case by (auto simp: relpowp_commute [symmetric] simp del: relpowp.simps(2)
      intro: relpowp_Suc_I2 easy_step.main split: bind_splits)
next
  case (3 t cs s)
  then show ?case by (auto simp: relpowp_commute [symmetric] simp del: relpowp.simps(2)
      intro: relpowp_Suc_I2 easy_step.thread split: bind_splits)
qed simp

lemma easy_exec_reaches: "easy_exec cs s = Some s' \<Longrightarrow> easy_step\<^sup>*\<^sup>* s s'"
  by (rule relpowp_imp_rtranclp) (rule easy_exec_steps)

lemma easy_not_stuck:
  assumes "easy_inv s" "\<And>s'. \<not> easy_step s s'"
  shows "(\<exists>k. emain s = EEnded k) \<or> emain s = EAborted"
proof (rule ccontr)
  assume "\<not> ?thesis"
  then obtain i where run: "emain s = ECreate i \<or> emain s = EJoin i" by (cases "emain s") auto
  have no: "easy_main 0 s = None" "ThreadFunction t s = None" for t
    using assms(2) easy_step.intros by (meson not_None_eq)+
  then have i: "emain s = EJoin i" "i < 2" "workers s ! i \<noteq> EReturned" using run by (auto simp: easy_main_def split: if_splits)
  then have "i < length (workers s)" using assms(1) by (auto simp: easy_inv_def)
  then show False using no(2) [of i] i by (auto simp: ThreadFunction_def split: easy_pc.splits)
qed

definition both_increments :: "nat option list" where
  "both_increments = [None, None, None, Some 0, Some 0, Some 0, Some 1, Some 1, Some 1, None, None, None]"

lemma easy_good_run:
  "\<exists>s. easy_exec both_increments easy_init = Some s \<and> emain s = EEnded 0"
  by (simp add: both_increments_def easy_init_def ThreadFunction_def easy_main_def)

definition lost_increment :: "nat option list" where
  "lost_increment = [None, None, None, Some 0, Some 0, Some 1, Some 1, Some 0, Some 1, None, None, None]"

lemma length_lost_increment: "length lost_increment = 12"
  by (simp add: lost_increment_def)

lemma easy_lost_run: "\<exists>s. easy_exec lost_increment easy_init = Some s \<and> emain s = EAborted"
  by (simp add: lost_increment_def easy_init_def ThreadFunction_def easy_main_def)

text \<open>
  Property C32. Two increments without a lock. A run has at most 12 steps and stops only when \<open>main\<close> has
  returned or its assertion has failed. It returns \<open>-1\<close> only after a failed call was reported. In every
  other run that comes to its end, with 0 or with the failed assertion, the accesses of the two
  threads form a data race, so that C++ does not define what the program does. When each access is
  executed as one step, the value at the end is 3 and the assertion holds, or the value is 2, because an increment was
  lost, and the assertion fails; both happen.
\<close>

theorem easy_pthreads_outcomes:
  assumes "(easy_step ^^ k) easy_init s"
  shows "k \<le> 12 \<and>
    ((\<nexists>s'. easy_step s s') \<longrightarrow> emain s \<in> {EEnded (-1), EEnded 0, EAborted}) \<and>
    (emain s = EEnded (-1) \<longrightarrow> failed_call s) \<and>
    (emain s \<in> {EEnded 0, EAborted} \<longrightarrow> data_race (eactions s)) \<and>
    (emain s = EEnded 0 \<longrightarrow> estate s = 3) \<and> (emain s = EAborted \<longrightarrow> estate s = 2) \<and>
    (\<exists>s. easy_step\<^sup>*\<^sup>* easy_init s \<and> emain s = EEnded 0) \<and> (\<exists>s. easy_step\<^sup>*\<^sup>* easy_init s \<and> emain s = EAborted)"
proof -
  note run = easy_bounded.run_length [OF assms refl]
  have k: "k \<le> 12" using run by (simp add: easy_remaining_def easy_init_def)
  have inv: "easy_inv s" "easy_trace s" using run by simp_all
  have both: "\<exists>s. easy_step\<^sup>*\<^sup>* easy_init s \<and> emain s = EEnded 0" "\<exists>s. easy_step\<^sup>*\<^sup>* easy_init s \<and> emain s = EAborted"
    using easy_good_run easy_lost_run by (auto dest: easy_exec_reaches)
  have vals: "emain s = EEnded 0 \<longrightarrow> estate s = 3" "emain s = EAborted \<longrightarrow> estate s = 2"
    "\<forall>v. emain s = EEnded v \<longrightarrow> v = 0 \<or> v = -1 \<and> failed_call s" using inv(1) by (auto simp: easy_inv_def)
  have "emain s \<in> {EEnded 0, EAborted} \<longrightarrow> data_race (eactions s)"
    using easy_race [OF inv(2)] inv(2) by (auto simp: easy_trace_def)
  moreover have "emain s \<in> {EEnded (-1), EEnded 0, EAborted}" if "\<nexists>s'. easy_step s s'"
    using easy_not_stuck [OF inv(1)] that vals(3) by auto
  ultimately show ?thesis using k both vals by auto
qed

theorem easy_pthreads_outcomes_witness:
  "\<exists>s. (easy_step ^^ 12) easy_init s \<and> emain s = EAborted \<and> estate s = 2 \<and> data_race (eactions s)"
proof -
  obtain s where s: "easy_exec lost_increment easy_init = Some s" "emain s = EAborted" using easy_lost_run by blast
  have run: "(easy_step ^^ 12) easy_init s" using easy_exec_steps [OF s(1)] length_lost_increment by metis
  from easy_pthreads_outcomes [OF run] s(2) run show ?thesis by blast
qed

end
