(* ===== verification/Pthread_Wait.thy ===== *)
theory Pthread_Wait
  imports Pthread_Mutex Data_Race
begin

text \<open>
  \<open>posix_threads/wait_pthread.cpp\<close>: one thread waits for another at a condition variable.
  As in \<open>Pthread_Mutex\<close> a step of a thread is one access to shared state
  or one blocking call, and the status a call returns is an argument. Time does not exist:
  \<open>sleep\<close> may take any number of steps of the other threads.
  POSIX leaves \<open>pthread_cond_wait\<close> undefined for a mutex that the calling thread has not locked; such a call ends the
  run as undefined. The accesses to the shared variable are recorded for data races.
  The status constants are those of \<open>Pthread_Mutex\<close>, which has the same definitions.
\<close>

section \<open>Waiting for another thread\<close>

datatype wait1_pc = W1Sleep | W1Signal | W1Done | W1Returned int

datatype wait2_pc = W2Assert | W2Call | W2Blocked | W2Woken | W2Returned int

datatype wait_main_pc = WCreate nat | WJoin nat | WEnded | WAborted | WUndefined

datatype wait_event = SignalFailed int | WaitFailed int | SpuriousWakeup | WCreateFailed nat int | WJoinFailed nat int

text \<open>\<open>wmutex_held\<close>: the second thread holds the mutex.\<close>

record waiting =
  wstate :: int
  first :: "wait1_pc option"
  second :: "wait2_pc option"
  wmutex_held :: bool
  wmain :: wait_main_pc
  wlog :: "wait_event list"
  wactions :: "action list"

definition running :: "waiting \<Rightarrow> bool" where
  "running s \<longleftrightarrow> wmain s \<noteq> WEnded \<and> wmain s \<noteq> WAborted \<and> wmain s \<noteq> WUndefined"

text \<open>A signal wakes the waiting thread, and is lost when no thread waits.\<close>

definition WaitThread1 :: "int \<Rightarrow> waiting \<Rightarrow> waiting option" where
  "WaitThread1 status s =
     (if running s then
        (case first s of
           Some W1Sleep \<Rightarrow> Some (s\<lparr>wstate := 1, first := Some W1Signal, wactions := wactions s @ [Writes (Thread 0)]\<rparr>)
         | Some W1Signal \<Rightarrow>
             if status \<noteq> 0 then Some (s\<lparr>first := Some (W1Returned kBadStatus), wlog := wlog s @ [SignalFailed status]\<rparr>)
             else Some (s\<lparr>first := Some W1Done, second := (if second s = Some W2Blocked then Some W2Woken else second s)\<rparr>)
         | Some W1Done \<Rightarrow> Some (s\<lparr>first := Some (W1Returned kOkStatus)\<rparr>)
         | _ \<Rightarrow> None)
      else None)"

text \<open>
  The call of \<open>pthread_cond_wait\<close> is undefined unless the thread holds the mutex. If it does, the call releases the
  mutex and blocks, and the mutex is held again when the call returns.
\<close>

definition WaitThread2 :: "int \<Rightarrow> waiting \<Rightarrow> waiting option" where
  "WaitThread2 status s =
     (if running s then
        (case second s of
           Some W2Assert \<Rightarrow>
             (let s = s\<lparr>wactions := wactions s @ [Reads (Thread 1)]\<rparr> in
              if wstate s = 0 then Some (s\<lparr>second := Some W2Call\<rparr>) else Some (s\<lparr>wmain := WAborted\<rparr>))
         | Some W2Call \<Rightarrow>
             if \<not> wmutex_held s then Some (s\<lparr>wmain := WUndefined\<rparr>)
             else if status \<noteq> 0 then Some (s\<lparr>second := Some (W2Returned kBadStatus), wlog := wlog s @ [WaitFailed status]\<rparr>)
             else Some (s\<lparr>wmutex_held := False, second := Some W2Blocked\<rparr>)
         | Some W2Woken \<Rightarrow>
             (let s = s\<lparr>wmutex_held := True, wactions := wactions s @ [Reads (Thread 1)]\<rparr> in
              if wstate s = 1 then Some (s\<lparr>second := Some (W2Returned kOkStatus)\<rparr>) else Some (s\<lparr>wmain := WAborted\<rparr>))
         | _ \<Rightarrow> None)
      else None)"

text \<open>The system may wake a waiting thread without a signal.\<close>

definition spurious_wakeup :: "waiting \<Rightarrow> waiting option" where
  "spurious_wakeup s =
     (if running s \<and> second s = Some W2Blocked then Some (s\<lparr>second := Some W2Woken, wlog := wlog s @ [SpuriousWakeup]\<rparr>) else None)"

definition RunWaitThreads :: "int \<Rightarrow> waiting \<Rightarrow> waiting option" where
  "RunWaitThreads status s =
     (case wmain s of
        WCreate i \<Rightarrow>
          if status \<noteq> 0 then Some (s\<lparr>wmain := WEnded, wlog := wlog s @ [WCreateFailed (i + 1) status]\<rparr>)
          else if i = 0 then Some (s\<lparr>first := Some W1Sleep, wmain := WCreate 1, wactions := wactions s @ [Creates 0]\<rparr>)
          else Some (s\<lparr>second := Some W2Assert, wmain := WJoin 0, wactions := wactions s @ [Creates 1]\<rparr>)
      | WJoin i \<Rightarrow>
          if i < 2 then
            if status \<noteq> 0 then Some (s\<lparr>wmain := WJoin (i + 1), wlog := wlog s @ [WJoinFailed (i + 1) status]\<rparr>)
            else (case if i = 0 then map_option (\<lambda>p. case p of W1Returned v \<Rightarrow> Some v | _ \<Rightarrow> None) (first s)
                       else map_option (\<lambda>p. case p of W2Returned v \<Rightarrow> Some v | _ \<Rightarrow> None) (second s) of
                Some (Some v) \<Rightarrow>
                  Some (s\<lparr>wmain := (if v = kOkStatus then WJoin (i + 1) else WAborted), wactions := wactions s @ [Joins i]\<rparr>)
              | _ \<Rightarrow> None)
          else Some (s\<lparr>wmain := WEnded\<rparr>)
      | _ \<Rightarrow> None)"

text \<open>\<open>RunWaitThreads\<close> begins with \<open>state = 0\<close> and an unlocked mutex.\<close>

definition wait_init :: waiting where
  "wait_init = \<lparr>wstate = 0, first = None, second = None, wmutex_held = False, wmain = WCreate 0, wlog = [],
     wactions = [Writes Main_Thread]\<rparr>"

inductive wait_step :: "waiting \<Rightarrow> waiting \<Rightarrow> bool" where
  first: "WaitThread1 status s = Some s' \<Longrightarrow> wait_step s s'"
| second: "WaitThread2 status s = Some s' \<Longrightarrow> wait_step s s'"
| main: "RunWaitThreads status s = Some s' \<Longrightarrow> wait_step s s'"
| spurious: "spurious_wakeup s = Some s' \<Longrightarrow> wait_step s s'"

inductive_cases wait_stepE: "wait_step s s'"

subsection \<open>Invariant and measure\<close>

definition wait_inv :: "waiting \<Rightarrow> bool" where
  "wait_inv s \<longleftrightarrow>
     \<not> wmutex_held s \<and> second s \<in> {None, Some W2Assert, Some W2Call} \<and> creates_first (wactions s) \<and>
     (wstate s \<noteq> 0 \<longrightarrow> wstate s = 1 \<and> Writes (Thread 0) \<in> set (wactions s)) \<and>
     (\<forall>v. first s = Some (W1Returned v) \<longrightarrow> v = kOkStatus \<or> v = kBadStatus \<and> wlog s \<noteq> []) \<and>
     (case wmain s of
        WCreate i \<Rightarrow> i < 2 \<and> second s = None \<and> (first s = None \<longleftrightarrow> i = 0) \<and> (\<forall>a \<in> set (wactions s). \<not> joins a)
      | WJoin i \<Rightarrow> i \<le> 2 \<and> first s \<noteq> None \<and> second s \<noteq> None \<and> (i = 2 \<longrightarrow> wlog s \<noteq> [])
      | WEnded \<Rightarrow> wlog s \<noteq> []
      | WAborted \<Rightarrow> wlog s \<noteq> [] \<or> second s = Some W2Assert \<and> wstate s = 1 \<and> Reads (Thread 1) \<in> set (wactions s)
      | WUndefined \<Rightarrow> second s = Some W2Call)"

definition wait1_weight :: "wait1_pc option \<Rightarrow> nat" where
  "wait1_weight p = (case p of None \<Rightarrow> 0 | Some W1Sleep \<Rightarrow> 3 | Some W1Signal \<Rightarrow> 2 | Some W1Done \<Rightarrow> 1 | Some (W1Returned _) \<Rightarrow> 0)"

definition wait2_weight :: "wait2_pc option \<Rightarrow> nat" where
  "wait2_weight p = (case p of Some W2Assert \<Rightarrow> 1 | _ \<Rightarrow> 0)"

definition wait_main_weight :: "wait_main_pc \<Rightarrow> nat" where
  "wait_main_weight p = (case p of WCreate i \<Rightarrow> (if i = 0 then 9 else 5) | WJoin i \<Rightarrow> 3 - i | _ \<Rightarrow> 0)"

definition wait_remaining :: "waiting \<Rightarrow> nat" where
  "wait_remaining s = wait1_weight (first s) + wait2_weight (second s) + wait_main_weight (wmain s)"

lemmas wait_weights = wait1_weight_def wait2_weight_def wait_main_weight_def

lemma WaitThread1_cases:
  assumes "WaitThread1 status s = Some s'" "wait_inv s"
  obtains
    (set_state) "first s = Some W1Sleep" "s' = s\<lparr>wstate := 1, first := Some W1Signal, wactions := wactions s @ [Writes (Thread 0)]\<rparr>"
  | (signal) "first s = Some W1Signal" "s' = s\<lparr>first := Some W1Done\<rparr>"
  | (failed) "first s = Some W1Signal" "status \<noteq> 0"
      "s' = s\<lparr>first := Some (W1Returned kBadStatus), wlog := wlog s @ [SignalFailed status]\<rparr>"
  | (return) "first s = Some W1Done" "s' = s\<lparr>first := Some (W1Returned kOkStatus)\<rparr>"
  using assms unfolding WaitThread1_def wait_inv_def by (auto split: if_splits option.splits wait1_pc.splits)

lemma WaitThread2_cases:
  assumes "WaitThread2 status s = Some s'" "wait_inv s"
  obtains
    (check) "second s = Some W2Assert" "wstate s = 0" "s' = s\<lparr>second := Some W2Call, wactions := wactions s @ [Reads (Thread 1)]\<rparr>"
  | (late) "second s = Some W2Assert" "wstate s \<noteq> 0" "s' = s\<lparr>wmain := WAborted, wactions := wactions s @ [Reads (Thread 1)]\<rparr>"
  | (call) "second s = Some W2Call" "s' = s\<lparr>wmain := WUndefined\<rparr>"
  using assms unfolding WaitThread2_def wait_inv_def by (auto simp: Let_def split: if_splits)

lemma RunWaitThreads_cases:
  assumes "RunWaitThreads status s = Some s'" "wait_inv s"
  obtains
    (create1) "wmain s = WCreate 0" "s' = s\<lparr>first := Some W1Sleep, wmain := WCreate 1, wactions := wactions s @ [Creates 0]\<rparr>"
  | (create2) i where "wmain s = WCreate i" "i \<noteq> 0" "s' = s\<lparr>second := Some W2Assert, wmain := WJoin 0, wactions := wactions s @ [Creates 1]\<rparr>"
  | (create_failed) i where "wmain s = WCreate i" "s' = s\<lparr>wmain := WEnded, wlog := wlog s @ [WCreateFailed (i + 1) status]\<rparr>"
  | (join_failed) i where "wmain s = WJoin i" "i < 2" "s' = s\<lparr>wmain := WJoin (i + 1), wlog := wlog s @ [WJoinFailed (i + 1) status]\<rparr>"
  | (join1) v where "wmain s = WJoin 0" "first s = Some (W1Returned v)"
      "s' = s\<lparr>wmain := (if v = kOkStatus then WJoin 1 else WAborted), wactions := wactions s @ [Joins 0]\<rparr>"
  | (finish) i where "wmain s = WJoin i" "2 \<le> i" "s' = s\<lparr>wmain := WEnded\<rparr>"
proof (cases "wmain s")
  case (WCreate i)
  then show ?thesis using assms(1) create1 create2 create_failed by (auto simp: RunWaitThreads_def split: if_splits)
next
  case (WJoin i)
  consider "2 \<le> i" | "status \<noteq> 0" "i < 2" | "status = 0" "i = 0" | "status = 0" "i = 1" by linarith
  then show ?thesis
  proof cases
    case 1
    then show ?thesis using assms(1) WJoin finish by (simp add: RunWaitThreads_def)
  next
    case 2
    then show ?thesis using assms(1) WJoin join_failed by (simp add: RunWaitThreads_def)
  next
    case 3
    then show ?thesis using assms(1) WJoin join1
      by (cases "first s") (auto simp: RunWaitThreads_def split: wait1_pc.splits if_splits)
  next
    case 4
    then show ?thesis using assms WJoin by (auto simp: RunWaitThreads_def wait_inv_def)
  qed
qed (use assms(1) in \<open>simp_all add: RunWaitThreads_def\<close>)

lemma WaitThread1_running: "WaitThread1 status s = Some s' \<Longrightarrow> running s"
  and WaitThread2_running: "WaitThread2 status s = Some s' \<Longrightarrow> running s"
  by (auto simp: WaitThread1_def WaitThread2_def split: if_splits)

lemma WaitThread1_inv:
  assumes "WaitThread1 status s = Some s'" "wait_inv s"
  shows "wait_inv s'"
  using assms(1,2) assms(2) WaitThread1_running [OF assms(1)]
  by (cases rule: WaitThread1_cases) (cases "wmain s"; force simp: wait_inv_def running_def)+

lemma WaitThread2_inv:
  assumes "WaitThread2 status s = Some s'" "wait_inv s"
  shows "wait_inv s'"
  using assms(1,2) assms(2) WaitThread2_running [OF assms(1)]
  by (cases rule: WaitThread2_cases) (cases "wmain s"; force simp: wait_inv_def running_def)+

lemma kStatus_differ: "kOkStatus \<noteq> kBadStatus"
  by (simp add: kOkStatus_def kBadStatus_def)

lemma RunWaitThreads_inv:
  assumes "RunWaitThreads status s = Some s'" "wait_inv s"
  shows "wait_inv s'"
  using assms(1,2) assms(2) kStatus_differ
  by (cases rule: RunWaitThreads_cases) (auto simp: wait_inv_def)

lemma spurious_wakeup_never: "wait_inv s \<Longrightarrow> spurious_wakeup s = None"
  by (auto simp: spurious_wakeup_def wait_inv_def)


lemma running_weight: "running s \<Longrightarrow> wait_inv s \<Longrightarrow> 0 < wait_main_weight (wmain s)"
  by (cases "wmain s") (auto simp: running_def wait_inv_def wait_main_weight_def)

lemma wait_decreases:
  assumes "wait_step s s'" "wait_inv s"
  shows "wait_remaining s' < wait_remaining s"
  using assms(1)
proof (cases rule: wait_step.cases)
  case (first status)
  from first assms(2) show ?thesis by (cases rule: WaitThread1_cases) (simp_all add: wait_remaining_def wait1_weight_def)
next
  case (second status)
  note pos = running_weight [OF WaitThread2_running [OF second] assms(2)]
  from second assms(2) show ?thesis
    by (cases rule: WaitThread2_cases) (use pos in \<open>simp_all add: wait_remaining_def wait2_weight_def wait_main_weight_def\<close>)
next
  case (main status)
  from main assms(2) assms(2) show ?thesis
    by (cases rule: RunWaitThreads_cases) (auto simp: wait_remaining_def wait_weights wait_inv_def)
qed (use spurious_wakeup_never [OF assms(2)] in simp)

interpretation wait_bounded: bounded_run wait_step "\<lambda>s. s = wait_init" wait_inv wait_remaining
proof unfold_locales
  show "wait_inv s" if "s = wait_init" for s using that by (simp add: wait_inv_def wait_init_def creates_first_def)
  show "wait_inv s'" if "wait_step s s'" "wait_inv s" for s s'
    using that WaitThread1_inv WaitThread2_inv RunWaitThreads_inv by (auto simp: spurious_wakeup_never elim!: wait_stepE)
qed (rule wait_decreases)

text \<open>As long as a run has not ended it can go on without a further failure.\<close>

lemma wait_progress:
  assumes "wait_inv s" "running s"
  shows "\<exists>s'. wait_step s s' \<and> wlog s' = wlog s"
proof (cases "second s")
  case None
  then obtain i where "wmain s = WCreate i" using assms by (cases "wmain s") (auto simp: wait_inv_def running_def)
  then obtain s' where "RunWaitThreads 0 s = Some s'" "wlog s' = wlog s" by (cases "i = 0") (auto simp: RunWaitThreads_def)
  then show ?thesis using wait_step.main by blast
next
  case (Some p)
  then have "p = W2Assert \<or> p = W2Call" using assms(1) by (auto simp: wait_inv_def)
  with Some assms obtain s' where "WaitThread2 0 s = Some s'" "wlog s' = wlog s"
    by (cases "wstate s = 0") (auto simp: WaitThread2_def wait_inv_def Let_def)
  then show ?thesis using wait_step.second by blast
qed

text \<open>A run given by its choices: the thread that takes the next step, with successful calls.\<close>

fun wait_exec :: "nat list \<Rightarrow> waiting \<Rightarrow> waiting option" where
  "wait_exec [] s = Some s"
| "wait_exec (t # ts) s = Option.bind (if t = 0 then RunWaitThreads 0 s else if t = 1 then WaitThread1 0 s else WaitThread2 0 s) (wait_exec ts)"

lemma wait_exec_steps: "wait_exec ts s = Some s' \<Longrightarrow> (wait_step ^^ length ts) s s'"
proof (induction ts s rule: wait_exec.induct)
  case (2 t ts s)
  then obtain s1 where s1: "(if t = 0 then RunWaitThreads 0 s else if t = 1 then WaitThread1 0 s else WaitThread2 0 s) = Some s1"
    "wait_exec ts s1 = Some s'" by (auto split: bind_splits)
  then have "wait_step s s1" using wait_step.intros by (auto split: if_splits)
  then show ?case using 2 s1 relpowp_Suc_I2 by fastforce
qed simp

definition late_start :: "nat list" where
  "late_start = [0, 1, 0, 2]"

lemma late_start_run: "\<exists>s. wait_exec late_start wait_init = Some s \<and> wmain s = WAborted \<and> wlog s = []"
  by (simp add: late_start_def wait_init_def RunWaitThreads_def WaitThread1_def WaitThread2_def running_def)

lemma length_late_start: "length late_start = 4"
  by (simp add: late_start_def)

definition early_wait :: "nat list" where
  "early_wait = [0, 0, 2, 2]"

lemma early_wait_run: "\<exists>s. wait_exec early_wait wait_init = Some s \<and> wmain s = WUndefined \<and> wlog s = []"
  by (simp add: early_wait_def wait_init_def RunWaitThreads_def WaitThread1_def WaitThread2_def running_def)

text \<open>
  Property C33. The program that waits at a condition variable never ends normally unless a call has failed.
  Every run has at most 9 steps, and before its end it can always go on without a failure. Without a
  failed call it ends in one of two ways, both of which happen: the first assertion of \<open>WaitThread2\<close> fails, because the
  thread has read the new state, which is a data race with the write of \<open>WaitThread1\<close>; or \<open>WaitThread2\<close>
  calls \<open>pthread_cond_wait\<close> with a mutex it has not locked, which is undefined. In no run does the thread get past that call.
\<close>

theorem wait_pthread_outcomes:
  assumes "(wait_step ^^ k) wait_init s"
  shows "k \<le> 9 \<and>
    (running s \<longrightarrow> (\<exists>s'. wait_step s s' \<and> wlog s' = wlog s)) \<and>
    (wlog s = [] \<and> \<not> running s \<longrightarrow>
       wmain s = WAborted \<and> second s = Some W2Assert \<and> wstate s = 1 \<and> data_race (wactions s) \<or>
       wmain s = WUndefined \<and> second s = Some W2Call \<and> \<not> wmutex_held s) \<and>
    second s \<in> {None, Some W2Assert, Some W2Call} \<and>
    (\<exists>t. wait_step\<^sup>*\<^sup>* wait_init t \<and> wlog t = [] \<and> wmain t = WAborted) \<and>
    (\<exists>t. wait_step\<^sup>*\<^sup>* wait_init t \<and> wlog t = [] \<and> wmain t = WUndefined)"
proof -
  note run = wait_bounded.run_length [OF assms refl]
  have k: "k \<le> 9" using run by (simp add: wait_remaining_def wait_init_def wait_weights)
  have inv: "wait_inv s" using run by simp
  have both: "\<exists>t. wait_step\<^sup>*\<^sup>* wait_init t \<and> wlog t = [] \<and> wmain t = WAborted"
    "\<exists>t. wait_step\<^sup>*\<^sup>* wait_init t \<and> wlog t = [] \<and> wmain t = WUndefined"
    using late_start_run early_wait_run by (auto dest: wait_exec_steps intro: relpowp_imp_rtranclp)
  have race: "data_race (wactions s)" if "wstate s = 1" "Reads (Thread 1) \<in> set (wactions s)"
    using inv that by (intro unsynchronised_race [of _ 0 1]) (auto simp: wait_inv_def)
  have "wmain s = WAborted \<and> second s = Some W2Assert \<and> wstate s = 1 \<and> data_race (wactions s) \<or>
       wmain s = WUndefined \<and> second s = Some W2Call \<and> \<not> wmutex_held s" if "wlog s = []" "\<not> running s"
    using inv that race by (cases "wmain s") (auto simp: wait_inv_def running_def)
  moreover have "second s \<in> {None, Some W2Assert, Some W2Call}" using inv by (auto simp: wait_inv_def)
  ultimately show ?thesis using k both wait_progress [OF inv] by blast
qed

theorem wait_pthread_outcomes_witness:
  "\<exists>s. (wait_step ^^ 4) wait_init s \<and> wmain s = WAborted \<and> data_race (wactions s)"
proof -
  obtain s where s: "wait_exec late_start wait_init = Some s" "wmain s = WAborted" "wlog s = []" using late_start_run by blast
  have run: "(wait_step ^^ 4) wait_init s" using wait_exec_steps [OF s(1)] length_late_start by metis
  have "\<not> running s" using s(2) by (simp add: running_def)
  with wait_pthread_outcomes [OF run] s run show ?thesis by auto
qed

end
