(* ===== verification/Pthread_Cancel.thy ===== *)
theory Pthread_Cancel
  imports Prelude
begin

text \<open>
  \<open>posix_threads/pthread_canceled.cpp\<close>: a thread is cancelled while another one waits to join it.
  As in \<open>Pthread_Mutex\<close> a step of a thread is one access to shared state
  or one blocking call, and the status a call returns is an argument. Time does not exist:
  \<open>sleep\<close> may take any number of steps of the other threads.
\<close>

section \<open>Cancelling a thread\<close>

text \<open>What a thread returns: a pointer to a new \<open>int\<close>, or \<open>PTHREAD_CANCELED\<close>.\<close>

datatype thread_value = NewInt int | PTHREAD_CANCELED

datatype join_pc = JPrint1 | JEnable | JPrint2 | JSleep | JPrint3 | JRestore | JPrint4 | JEnded thread_value

datatype detach_pc = DStart | DSleep | DJoin | DReport thread_value | DEnded thread_value

datatype cancel_main_pc = CRunJoin | CSetDetach | CRunDetach | CCancel | CWait | CEnded int | CUndefined

record cancelling =
  cancel_enabled :: bool
  old_state :: bool
  cancel_pending :: bool
  join_thread :: "join_pc option"
  join_joined :: bool
  detach_thread :: "detach_pc option"
  cmain :: cancel_main_pc
  clog :: "string list"

definition alive :: "cancelling \<Rightarrow> bool" where
  "alive s \<longleftrightarrow> (case cmain s of CEnded _ \<Rightarrow> False | CUndefined \<Rightarrow> False | _ \<Rightarrow> True)"

text \<open>An output may be a cancellation point, \<open>sleep\<close> is one; \<open>act\<close> says whether an output acts on a request.\<close>

definition join_print :: "bool \<Rightarrow> string \<Rightarrow> join_pc \<Rightarrow> cancelling \<Rightarrow> cancelling" where
  "join_print act line next s =
     (if act \<and> cancel_pending s \<and> cancel_enabled s then s\<lparr>join_thread := Some (JEnded PTHREAD_CANCELED)\<rparr>
      else s\<lparr>join_thread := Some next, clog := clog s @ [''Join Thread: '' @ line]\<rparr>)"

definition JoinThreadFunction :: "bool \<Rightarrow> cancelling \<Rightarrow> cancelling option" where
  "JoinThreadFunction act s =
     (if alive s then
        (case join_thread s of
           Some JPrint1 \<Rightarrow> Some (join_print act ''6'' JEnable s)
         | Some JEnable \<Rightarrow> Some (s\<lparr>old_state := cancel_enabled s, cancel_enabled := True, join_thread := Some JPrint2\<rparr>)
         | Some JPrint2 \<Rightarrow> Some (join_print act ''11'' JSleep s)
         | Some JSleep \<Rightarrow>
             if cancel_pending s \<and> cancel_enabled s then Some (s\<lparr>join_thread := Some (JEnded PTHREAD_CANCELED)\<rparr>)
             else Some (s\<lparr>join_thread := Some JPrint3\<rparr>)
         | Some JPrint3 \<Rightarrow> Some (join_print act ''15'' JRestore s)
         | Some JRestore \<Rightarrow> Some (s\<lparr>cancel_enabled := old_state s, join_thread := Some JPrint4\<rparr>)
         | Some JPrint4 \<Rightarrow> Some (join_print act ''20'' (JEnded (NewInt 10)) s)
         | _ \<Rightarrow> None)
      else None)"

definition DetachThreadFunction :: "int \<Rightarrow> cancelling \<Rightarrow> cancelling option" where
  "DetachThreadFunction status s =
     (if alive s then
        (case detach_thread s of
           Some DStart \<Rightarrow> Some (s\<lparr>detach_thread := Some DSleep, clog := clog s @ [''Detach Thread: 26'', ''Detach Thread: 31'']\<rparr>)
         | Some DSleep \<Rightarrow> Some (s\<lparr>detach_thread := Some DJoin, clog := clog s @ [''Detach Thread: 35'']\<rparr>)
         | Some DJoin \<Rightarrow>
             if status \<noteq> 0 then
               Some (s\<lparr>detach_thread := Some (DEnded (NewInt 10)), clog := clog s @ [''Detach Thread: Failed to join thread'']\<rparr>)
             else (case join_thread s of
                 Some (JEnded v) \<Rightarrow> Some (s\<lparr>detach_thread := Some (DReport v), join_joined := True\<rparr>)
               | _ \<Rightarrow> None)
         | Some (DReport v) \<Rightarrow>
             Some (s\<lparr>detach_thread := Some (DEnded v), clog := clog s @ [''Detach Thread: 43''] @
               (if v = PTHREAD_CANCELED then [''Detach Thread: Join thread was canceled''] else [])\<rparr>)
         | _ \<Rightarrow> None)
      else None)"

text \<open>The calls of \<open>RunJoinThread\<close>, \<open>RunDetachThread\<close> and \<open>main\<close>; cancelling a thread that was joined is undefined.\<close>

definition RunJoinThread :: "int \<Rightarrow> cancelling \<Rightarrow> cancelling" where
  "RunJoinThread status s =
     (if status \<noteq> 0 then s\<lparr>cmain := CEnded (-1), clog := clog s @ [''Failed to run join thread'']\<rparr>
      else s\<lparr>cmain := CSetDetach, join_thread := Some JPrint1\<rparr>)"

definition RunDetachThread :: "int \<Rightarrow> cancelling \<Rightarrow> cancelling" where
  "RunDetachThread status s =
     (if cmain s = CSetDetach then
        if status \<noteq> 0 then s\<lparr>cmain := CEnded (-1), clog := clog s @ [''Failed to set detach state'']\<rparr>
        else s\<lparr>cmain := CRunDetach\<rparr>
      else
        if status \<noteq> 0 then s\<lparr>cmain := CEnded (-1), clog := clog s @ [''Failed to run detach thread'']\<rparr>
        else s\<lparr>cmain := CCancel, detach_thread := Some DStart\<rparr>)"

definition cancel_main :: "int \<Rightarrow> cancelling \<Rightarrow> cancelling option" where
  "cancel_main status s =
     (case cmain s of
        CRunJoin \<Rightarrow> Some (RunJoinThread status s)
      | CSetDetach \<Rightarrow> Some (RunDetachThread status s)
      | CRunDetach \<Rightarrow> Some (RunDetachThread status s)
      | CCancel \<Rightarrow> Some (if join_joined s then s\<lparr>cmain := CUndefined\<rparr> else s\<lparr>cmain := CWait, cancel_pending := True\<rparr>)
      | CWait \<Rightarrow> Some (s\<lparr>cmain := CEnded 0\<rparr>)
      | _ \<Rightarrow> None)"

definition cancel_init :: cancelling where
  "cancel_init = \<lparr>cancel_enabled = True, old_state = True, cancel_pending = False, join_thread = None, join_joined = False,
     detach_thread = None, cmain = CRunJoin, clog = []\<rparr>"

inductive cancel_step :: "cancelling \<Rightarrow> cancelling \<Rightarrow> bool" where
  join: "JoinThreadFunction act s = Some s' \<Longrightarrow> cancel_step s s'"
| detach: "DetachThreadFunction status s = Some s' \<Longrightarrow> cancel_step s s'"
| main: "cancel_main status s = Some s' \<Longrightarrow> cancel_step s s'"

inductive_cases cancel_stepE: "cancel_step s s'"

definition before_wakeup :: "cancelling \<Rightarrow> bool" where
  "before_wakeup s \<longleftrightarrow> join_thread s \<in> {Some JPrint1, Some JEnable, Some JPrint2, Some JSleep}"

text \<open>The value the detached thread has got from \<open>pthread_join\<close>, the line it prints, and what is printed after the \<open>sleep\<close>.\<close>

definition got :: "thread_value \<Rightarrow> cancelling \<Rightarrow> bool" where
  "got v s \<longleftrightarrow> join_joined s \<and> (detach_thread s = Some (DReport v) \<or> detach_thread s = Some (DEnded v))"

abbreviation canceled_line :: string where
  "canceled_line \<equiv> ''Detach Thread: Join thread was canceled''"

definition slept_lines :: "string set" where
  "slept_lines = {''Join Thread: 15'', ''Join Thread: 20''}"

definition cancel_inv :: "cancelling \<Rightarrow> bool" where
  "cancel_inv s \<longleftrightarrow> cancel_enabled s \<and> old_state s \<and>
     (\<forall>v. join_thread s = Some (JEnded v) \<longrightarrow> v = NewInt 10 \<or> v = PTHREAD_CANCELED \<and> cancel_pending s) \<and>
     (\<forall>v. got v s \<longrightarrow> join_thread s = Some (JEnded v)) \<and>
     (join_joined s \<longrightarrow> (\<exists>v. got v s)) \<and> (\<forall>v. detach_thread s = Some (DReport v) \<longrightarrow> join_joined s) \<and>
     (cmain s = CRunJoin \<longrightarrow> join_thread s = None) \<and> (cmain s \<in> {CSetDetach, CRunDetach, CCancel} \<longrightarrow> join_thread s \<noteq> None) \<and>
     (cmain s \<in> {CRunJoin, CSetDetach, CRunDetach} \<longrightarrow> detach_thread s = None) \<and>
     (cancel_pending s \<longrightarrow> join_thread s \<noteq> None) \<and>
     (canceled_line \<in> set (clog s) \<longrightarrow> got PTHREAD_CANCELED s)"

lemma alive_simps [simp]: "alive (s\<lparr>join_thread := j\<rparr>) = alive s" "alive (s\<lparr>detach_thread := d\<rparr>) = alive s"
  by (simp_all add: alive_def)

definition early :: "join_pc \<Rightarrow> bool" where
  "early p \<longleftrightarrow> p \<in> {JPrint1, JEnable, JPrint2, JSleep}"

text \<open>What a step of the thread to be joined can change.\<close>

lemma JoinThreadFunction_step:
  assumes "JoinThreadFunction act s = Some s'" "cancel_enabled s" "old_state s"
  shows "\<exists>p p'. join_thread s = Some p \<and> join_thread s' = Some p' \<and> (\<forall>v. p \<noteq> JEnded v) \<and>
      (\<forall>v. p' = JEnded v \<longrightarrow> v = NewInt 10 \<or> v = PTHREAD_CANCELED \<and> cancel_pending s) \<and>
      (cancel_pending s \<longrightarrow> early p \<longrightarrow> early p' \<or> p' = JEnded PTHREAD_CANCELED) \<and>
      (early p' \<longrightarrow> early p) \<and> (early p \<longrightarrow> slept_lines \<inter> set (clog s') = slept_lines \<inter> set (clog s))"
    and "cancel_enabled s' \<and> old_state s' \<and> cancel_pending s' = cancel_pending s \<and> join_joined s' = join_joined s \<and>
      cmain s' = cmain s \<and> detach_thread s' = detach_thread s \<and> set (clog s') \<subseteq> set (clog s) \<union> range ((@) ''Join Thread: '')"
proof -
  obtain p where p: "join_thread s = Some p" using assms(1) by (auto simp: JoinThreadFunction_def split: if_splits option.splits)
  have alive: "alive s" using assms(1) by (simp add: JoinThreadFunction_def split: if_splits)
  show "\<exists>p p'. join_thread s = Some p \<and> join_thread s' = Some p' \<and> (\<forall>v. p \<noteq> JEnded v) \<and>
      (\<forall>v. p' = JEnded v \<longrightarrow> v = NewInt 10 \<or> v = PTHREAD_CANCELED \<and> cancel_pending s) \<and>
      (cancel_pending s \<longrightarrow> early p \<longrightarrow> early p' \<or> p' = JEnded PTHREAD_CANCELED) \<and>
      (early p' \<longrightarrow> early p) \<and> (early p \<longrightarrow> slept_lines \<inter> set (clog s') = slept_lines \<inter> set (clog s))"
    using assms p alive by (cases p) (auto simp: JoinThreadFunction_def join_print_def early_def slept_lines_def split: if_splits)
  show "cancel_enabled s' \<and> old_state s' \<and> cancel_pending s' = cancel_pending s \<and> join_joined s' = join_joined s \<and>
      cmain s' = cmain s \<and> detach_thread s' = detach_thread s \<and> set (clog s') \<subseteq> set (clog s) \<union> range ((@) ''Join Thread: '')"
    using assms p alive by (cases p) (auto simp: JoinThreadFunction_def join_print_def split: if_splits)
qed

lemma JoinThreadFunction_inv:
  assumes "JoinThreadFunction act s = Some s'" "cancel_inv s"
  shows "cancel_inv s'"
proof -
  have on: "cancel_enabled s" "old_state s" using assms(2) by (simp_all add: cancel_inv_def)
  note same = JoinThreadFunction_step(2) [OF assms(1) on]
  obtain p p' where p: "join_thread s = Some p" "join_thread s' = Some p'" "\<forall>v. p \<noteq> JEnded v"
    "\<forall>v. p' = JEnded v \<longrightarrow> v = NewInt 10 \<or> v = PTHREAD_CANCELED \<and> cancel_pending s"
    using JoinThreadFunction_step(1) [OF assms(1) on] by blast
  have rep: "\<not> got v s" for v using assms(2) p(1,3) by (auto simp: cancel_inv_def)
  then have "\<not> join_joined s" using assms(2) by (auto simp: cancel_inv_def)
  then have rep': "\<not> got v s'" "\<not> join_joined s'" for v using same by (auto simp: got_def)
  have "canceled_line \<notin> set (clog s')"
    using same rep assms(2) by (auto simp: cancel_inv_def)
  then show ?thesis using same p rep' assms(2) by (auto simp: cancel_inv_def)
qed

lemma DetachThreadFunction_cases:
  assumes "DetachThreadFunction status s = Some s'"
  obtains
    (waits) d ls where "detach_thread s = Some DStart \<or> detach_thread s = Some DSleep" "d = DSleep \<or> d = DJoin"
      "canceled_line \<notin> set ls" "s' = s\<lparr>detach_thread := Some d, clog := clog s @ ls\<rparr>"
  | (failed) "detach_thread s = Some DJoin"
      "s' = s\<lparr>detach_thread := Some (DEnded (NewInt 10)), clog := clog s @ [''Detach Thread: Failed to join thread'']\<rparr>"
  | (joins) v where "detach_thread s = Some DJoin" "join_thread s = Some (JEnded v)"
      "s' = s\<lparr>detach_thread := Some (DReport v), join_joined := True\<rparr>"
  | (reports) v where "detach_thread s = Some (DReport v)" "s' = s\<lparr>detach_thread := Some (DEnded v), clog := clog s @ [''Detach Thread: 43''] @
      (if v = PTHREAD_CANCELED then [canceled_line] else [])\<rparr>"
proof -
  obtain d where d: "detach_thread s = Some d" "alive s"
    using assms by (auto simp: DetachThreadFunction_def split: if_splits option.splits)
  show ?thesis
  proof (cases d)
    case DStart
    then show ?thesis using assms d by (intro waits [of DSleep "[''Detach Thread: 26'', ''Detach Thread: 31'']"]) (auto simp: DetachThreadFunction_def)
  next
    case DSleep
    then show ?thesis using assms d by (intro waits [of DJoin "[''Detach Thread: 35'']"]) (auto simp: DetachThreadFunction_def)
  next
    case DJoin
    then show ?thesis using assms d failed joins by (auto simp: DetachThreadFunction_def split: if_splits option.splits join_pc.splits)
  next
    case (DReport v)
    then show ?thesis using assms d by (intro reports [of v]) (auto simp: DetachThreadFunction_def)
  qed (use assms d in \<open>simp add: DetachThreadFunction_def\<close>)
qed

lemma cancel_inv_not_joined:
  assumes "cancel_inv s" "\<And>v. detach_thread s \<noteq> Some (DReport v)" "\<And>v. detach_thread s \<noteq> Some (DEnded v)"
  shows "\<not> join_joined s" "canceled_line \<notin> set (clog s)"
  using assms by (auto simp: cancel_inv_def got_def)

lemma DetachThreadFunction_inv:
  assumes "DetachThreadFunction status s = Some s'" "cancel_inv s"
  shows "cancel_inv s'"
  using assms(1)
proof (cases rule: DetachThreadFunction_cases)
  case (waits d ls)
  then have "\<not> join_joined s" "canceled_line \<notin> set (clog s)"
    using cancel_inv_not_joined [OF assms(2)] by auto
  moreover have "cmain s \<notin> {CRunJoin, CSetDetach, CRunDetach}" using waits(1) assms(2) unfolding cancel_inv_def by force
  moreover have "\<forall>v. d \<noteq> DReport v" using waits(2) by auto
  ultimately show ?thesis using waits(3,4) assms(2) by (simp add: cancel_inv_def got_def)
next
  case failed
  then have "\<not> join_joined s" "canceled_line \<notin> set (clog s)"
    using cancel_inv_not_joined [OF assms(2)] by auto
  then show ?thesis using failed assms(2) by (simp add: cancel_inv_def got_def)
next
  case (joins v)
  then have "canceled_line \<notin> set (clog s)"
    using cancel_inv_not_joined [OF assms(2)] by auto
  then show ?thesis using joins assms(2) by (simp add: cancel_inv_def got_def)
next
  case (reports v)
  then show ?thesis using assms(2) by (auto simp: cancel_inv_def got_def split: if_splits)
qed

lemma cancel_main_inv:
  assumes "cancel_main status s = Some s'" "cancel_inv s"
  shows "cancel_inv s'"
proof -
  have none: "\<not> join_joined s" "canceled_line \<notin> set (clog s)"
    if "cmain s \<in> {CRunJoin, CSetDetach, CRunDetach}"
  proof -
    have "detach_thread s = None" using assms(2) that by (auto simp: cancel_inv_def)
    then show "\<not> join_joined s" "canceled_line \<notin> set (clog s)"
      using cancel_inv_not_joined [OF assms(2)] by auto
  qed
  show ?thesis
  proof (cases "cmain s")
    case CRunJoin
    then show ?thesis using assms none by (auto simp: cancel_main_def RunJoinThread_def cancel_inv_def got_def split: if_splits)
  next
    case CSetDetach
    then show ?thesis using assms none by (auto simp: cancel_main_def RunDetachThread_def cancel_inv_def got_def split: if_splits)
  next
    case CRunDetach
    then show ?thesis using assms none by (auto simp: cancel_main_def RunDetachThread_def cancel_inv_def got_def split: if_splits)
  next
    case CCancel
    then have s': "s' = (if join_joined s then s\<lparr>cmain := CUndefined\<rparr> else s\<lparr>cmain := CWait, cancel_pending := True\<rparr>)"
      using assms(1) by (simp add: cancel_main_def)
    then show ?thesis using CCancel assms(2) by (simp add: cancel_inv_def got_def) blast
  next
    case CWait
    then have "s' = s\<lparr>cmain := CEnded 0\<rparr>" using assms(1) by (simp add: cancel_main_def)
    then show ?thesis using CWait assms(2) by (simp add: cancel_inv_def got_def)
  qed (use assms in \<open>simp_all add: cancel_main_def\<close>)
qed

interpretation cancel_run: inductive_invariant cancel_step "\<lambda>s. s = cancel_init" cancel_inv
proof unfold_locales
  show "cancel_inv s" if "s = cancel_init" for s using that by (simp add: cancel_inv_def cancel_init_def got_def)
  show "cancel_inv s'" if "cancel_step s s'" "cancel_inv s" for s s'
    using that JoinThreadFunction_inv DetachThreadFunction_inv cancel_main_inv by (auto elim!: cancel_stepE)
qed


subsection \<open>What is printed\<close>

lemma before_wakeup_early: "before_wakeup s \<longleftrightarrow> (\<exists>p. join_thread s = Some p \<and> early p)"
  by (auto simp: before_wakeup_def early_def)

definition cancel_lines :: "cancelling \<Rightarrow> bool" where
  "cancel_lines s \<longleftrightarrow>
     (join_joined s \<and> detach_thread s = Some (DEnded PTHREAD_CANCELED) \<longrightarrow> canceled_line \<in> set (clog s)) \<and>
     (join_thread s = None \<or> before_wakeup s \<longrightarrow> slept_lines \<inter> set (clog s) = {}) \<and>
     (cancel_pending s \<longrightarrow> detach_thread s \<noteq> None) \<and> (cmain s = CCancel \<longrightarrow> detach_thread s \<noteq> None)"

lemma DetachThreadFunction_lines:
  assumes "DetachThreadFunction status s = Some s'"
  shows "join_thread s' = join_thread s" "cancel_pending s' = cancel_pending s" "cmain s' = cmain s" "detach_thread s' \<noteq> None"
    "slept_lines \<inter> set (clog s') = slept_lines \<inter> set (clog s)"
  using assms by (auto simp: DetachThreadFunction_def slept_lines_def split: if_splits option.splits detach_pc.splits join_pc.splits)

lemma cancel_lines_step:
  assumes "cancel_step s s'" "cancel_lines s" "cancel_inv s"
  shows "cancel_lines s'"
  using assms(1)
proof (cases rule: cancel_step.cases)
  case (join act)
  have on: "cancel_enabled s" "old_state s" using assms(3) by (simp_all add: cancel_inv_def)
  note same = JoinThreadFunction_step(2) [OF join on]
  obtain p p' where p: "join_thread s = Some p" "join_thread s' = Some p'" "\<forall>v. p \<noteq> JEnded v"
    "early p' \<longrightarrow> early p" "early p \<longrightarrow> slept_lines \<inter> set (clog s') = slept_lines \<inter> set (clog s)"
    using JoinThreadFunction_step(1) [OF join on] by blast
  have "\<not> join_joined s" using assms(3) p(1,3) by (auto simp: cancel_inv_def)
  then show ?thesis using assms(2) p same by (auto simp: cancel_lines_def before_wakeup_early)
next
  case (detach status)
  have "canceled_line \<in> set (clog s')" if "join_joined s'" "detach_thread s' = Some (DEnded PTHREAD_CANCELED)"
    using detach that by (cases rule: DetachThreadFunction_cases) auto
  then show ?thesis using assms(2) DetachThreadFunction_lines [OF detach] by (simp add: cancel_lines_def before_wakeup_def)
next
  case (main status)
  have none: "join_thread s = None" if "cmain s = CRunJoin" using assms(3) that by (simp add: cancel_inv_def)
  show ?thesis
  proof (cases "cmain s")
    case CRunJoin
    with main have "s' = RunJoinThread status s" by (simp add: cancel_main_def)
    with none [OF CRunJoin] assms(2) show ?thesis
      by (cases "status = 0") (simp_all add: RunJoinThread_def cancel_lines_def before_wakeup_def slept_lines_def)
  next
    case CSetDetach
    with main have "s' = RunDetachThread status s" by (simp add: cancel_main_def)
    with CSetDetach assms(2) show ?thesis
      by (cases "status = 0") (auto simp: RunDetachThread_def cancel_lines_def before_wakeup_def slept_lines_def)
  next
    case CRunDetach
    with main have "s' = RunDetachThread status s" by (simp add: cancel_main_def)
    moreover have "\<not> join_joined s" using CRunDetach assms(3) cancel_inv_not_joined(1) [OF assms(3)] by (auto simp: cancel_inv_def)
    ultimately show ?thesis using CRunDetach assms(2)
      by (cases "status = 0") (auto simp: RunDetachThread_def cancel_lines_def before_wakeup_def slept_lines_def)
  next
    case CCancel
    with main have "s' = (if join_joined s then s\<lparr>cmain := CUndefined\<rparr> else s\<lparr>cmain := CWait, cancel_pending := True\<rparr>)"
      by (simp add: cancel_main_def)
    with CCancel assms(2) show ?thesis by (simp add: cancel_lines_def before_wakeup_def)
  next
    case CWait
    with main have "s' = s\<lparr>cmain := CEnded 0\<rparr>" by (simp add: cancel_main_def)
    with assms(2) show ?thesis by (simp add: cancel_lines_def before_wakeup_def)
  qed (use main in \<open>simp_all add: cancel_main_def\<close>)
qed

interpretation lines_run: inductive_invariant cancel_step "\<lambda>s. s = cancel_init" "\<lambda>s. cancel_inv s \<and> cancel_lines s"
proof unfold_locales
  show "cancel_inv s \<and> cancel_lines s" if "s = cancel_init" for s
    using that cancel_run.holds_init by (simp add: cancel_lines_def cancel_init_def)
  show "cancel_inv s' \<and> cancel_lines s'" if "cancel_step s s'" "cancel_inv s \<and> cancel_lines s" for s s'
    using that cancel_run.holds_step cancel_lines_step by blast
qed

subsection \<open>A request in time\<close>

definition cancel_taken :: "cancelling \<Rightarrow> bool" where
  "cancel_taken s \<longleftrightarrow> cancel_inv s \<and> cancel_lines s \<and> cancel_pending s \<and>
     (before_wakeup s \<or> join_thread s = Some (JEnded PTHREAD_CANCELED)) \<and> slept_lines \<inter> set (clog s) = {}"

lemma cancel_main_lines:
  assumes "cancel_main status s = Some s'"
  shows "slept_lines \<inter> set (clog s') = slept_lines \<inter> set (clog s)" "cancel_pending s \<longrightarrow> cancel_pending s'"
    "cmain s \<noteq> CRunJoin \<longrightarrow> join_thread s' = join_thread s"
  using assms by (auto simp: cancel_main_def RunJoinThread_def RunDetachThread_def slept_lines_def
      split: cancel_main_pc.splits if_splits)

lemma cancel_taken_step:
  assumes "cancel_step s s'" "cancel_taken s"
  shows "cancel_taken s'"
proof -
  have inv: "cancel_inv s" "cancel_inv s'" "cancel_lines s'"
    using assms lines_run.holds_step by (auto simp: cancel_taken_def)
  have on: "cancel_enabled s" "old_state s" "join_thread s \<noteq> None" using inv(1) assms(2) by (auto simp: cancel_inv_def cancel_taken_def)
  from assms(1) have "cancel_pending s' \<and> (before_wakeup s' \<or> join_thread s' = Some (JEnded PTHREAD_CANCELED)) \<and>
      slept_lines \<inter> set (clog s') = {}"
  proof (cases rule: cancel_step.cases)
    case (join act)
    obtain p p' where p: "join_thread s = Some p" "join_thread s' = Some p'" "\<forall>v. p \<noteq> JEnded v"
      "cancel_pending s \<longrightarrow> early p \<longrightarrow> early p' \<or> p' = JEnded PTHREAD_CANCELED"
      "early p \<longrightarrow> slept_lines \<inter> set (clog s') = slept_lines \<inter> set (clog s)"
      using JoinThreadFunction_step(1) [OF join on(1,2)] by blast
    then show ?thesis using JoinThreadFunction_step(2) [OF join on(1,2)] assms(2)
      by (auto simp: cancel_taken_def before_wakeup_early)
  next
    case (detach status)
    then show ?thesis using assms(2) DetachThreadFunction_lines [OF detach] by (simp add: cancel_taken_def before_wakeup_def)
  next
    case (main status)
    have "cmain s \<noteq> CRunJoin" using inv(1) on(3) by (auto simp: cancel_inv_def)
    then show ?thesis using assms(2) cancel_main_lines [OF main] by (simp add: cancel_taken_def before_wakeup_def)
  qed
  with inv(2,3) show ?thesis by (simp add: cancel_taken_def)
qed

interpretation taken_run: inductive_invariant cancel_step
  "\<lambda>s. cancel_inv s \<and> cancel_lines s \<and> cancel_pending s \<and> before_wakeup s" cancel_taken
proof unfold_locales
  show "cancel_taken s" if "cancel_inv s \<and> cancel_lines s \<and> cancel_pending s \<and> before_wakeup s" for s
    using that by (simp add: cancel_taken_def cancel_lines_def)
qed (rule cancel_taken_step)

lemma cancel_taken_got:
  assumes "cancel_taken t" "got v t"
  shows "v = PTHREAD_CANCELED"
proof -
  have "join_thread t = Some (JEnded v)" using assms unfolding cancel_taken_def cancel_inv_def by blast
  with assms(1) show ?thesis by (auto simp: cancel_taken_def before_wakeup_def)
qed

text \<open>The cancelled thread ends, and then the detached thread reports it, unless the program ends before.\<close>

lemma cancelled_thread_ends:
  assumes "alive s" "cancel_pending s" "cancel_enabled s" "before_wakeup s"
  shows "\<exists>s'. cancel_step\<^sup>*\<^sup>* s s' \<and> join_thread s' = Some (JEnded PTHREAD_CANCELED) \<and> cmain s' = cmain s \<and> detach_thread s' = detach_thread s"
    (is "?ends s")
proof -
  have step: "?ends s" if "JoinThreadFunction False s = Some s'" "?ends s'" "cmain s' = cmain s" "detach_thread s' = detach_thread s" for s s'
    using that cancel_step.join converse_rtranclp_into_rtranclp [of cancel_step] by metis
  have sleep: "?ends s" if "alive s" "cancel_pending s" "cancel_enabled s" "join_thread s = Some JSleep" for s
  proof (rule step)
    show "JoinThreadFunction False s = Some (s\<lparr>join_thread := Some (JEnded PTHREAD_CANCELED)\<rparr>)"
      using that by (simp add: JoinThreadFunction_def)
    show "?ends (s\<lparr>join_thread := Some (JEnded PTHREAD_CANCELED)\<rparr>)" by (intro exI [of _ "s\<lparr>join_thread := Some (JEnded PTHREAD_CANCELED)\<rparr>"]) simp
  qed simp_all
  have print: "?ends s" if "alive s" "cancel_pending s" "cancel_enabled s" "join_thread s = Some JPrint2" for s
    using that by (intro step [of s "s\<lparr>join_thread := Some JSleep, clog := clog s @ [''Join Thread: 11'']\<rparr>", OF _ sleep])
      (auto simp: JoinThreadFunction_def join_print_def alive_def)
  have enable: "?ends s" if "alive s" "cancel_pending s" "cancel_enabled s" "join_thread s = Some JEnable" for s
    using that by (intro step [of s "s\<lparr>old_state := cancel_enabled s, cancel_enabled := True, join_thread := Some JPrint2\<rparr>", OF _ print])
      (auto simp: JoinThreadFunction_def alive_def)
  have "?ends s" if "alive s" "cancel_pending s" "cancel_enabled s" "join_thread s = Some JPrint1" for s
    using that by (intro step [of s "s\<lparr>join_thread := Some JEnable, clog := clog s @ [''Join Thread: 6'']\<rparr>", OF _ enable])
      (auto simp: JoinThreadFunction_def join_print_def alive_def)
  with sleep print enable assms show ?thesis by (auto simp: before_wakeup_def)
qed

lemma cancelled_thread_reported:
  assumes "alive s" "join_thread s = Some (JEnded PTHREAD_CANCELED)"
    "detach_thread s \<in> {Some DStart, Some DSleep, Some DJoin, Some (DReport PTHREAD_CANCELED)}"
  shows "\<exists>u. cancel_step\<^sup>*\<^sup>* s u \<and> canceled_line \<in> set (clog u)" (is "?reports s")
proof -
  have step: "?reports s" if st: "DetachThreadFunction 0 s = Some s'" and rs: "?reports s'" for s s'
  proof -
    obtain u where "cancel_step\<^sup>*\<^sup>* s' u" "canceled_line \<in> set (clog u)" using rs by blast
    then show ?thesis using cancel_step.detach [OF st] by (intro exI [of _ u]) (simp add: converse_rtranclp_into_rtranclp)
  qed
  let ?s4 = "\<lambda>s. s\<lparr>detach_thread := Some (DEnded PTHREAD_CANCELED), clog := clog s @ [''Detach Thread: 43'', canceled_line]\<rparr>"
  have report: "?reports s" if "alive s" "detach_thread s = Some (DReport PTHREAD_CANCELED)" for s
  proof (rule step [of s "?s4 s"])
    show "DetachThreadFunction 0 s = Some (?s4 s)" using that by (simp add: DetachThreadFunction_def)
    show "?reports (?s4 s)" by (intro exI [of _ "?s4 s"]) simp
  qed
  have join: "?reports s" if "alive s" "join_thread s = Some (JEnded PTHREAD_CANCELED)" "detach_thread s = Some DJoin" for s
    using that by (intro step [of s "s\<lparr>detach_thread := Some (DReport PTHREAD_CANCELED), join_joined := True\<rparr>", OF _ report])
      (auto simp: DetachThreadFunction_def alive_def)
  have sleep: "?reports s" if "alive s" "join_thread s = Some (JEnded PTHREAD_CANCELED)" "detach_thread s = Some DSleep" for s
    using that by (intro step [of s "s\<lparr>detach_thread := Some DJoin, clog := clog s @ [''Detach Thread: 35'']\<rparr>", OF _ join])
      (auto simp: DetachThreadFunction_def alive_def)
  have "?reports s" if "alive s" "join_thread s = Some (JEnded PTHREAD_CANCELED)" "detach_thread s = Some DStart" for s
    using that by (intro step [of s "s\<lparr>detach_thread := Some DSleep, clog := clog s @ [''Detach Thread: 26'', ''Detach Thread: 31'']\<rparr>", OF _ sleep])
      (auto simp: DetachThreadFunction_def alive_def)
  with report join sleep assms show ?thesis by auto
qed

lemma taken_can_report:
  assumes "cancel_taken t" "alive t" "\<nexists>v. detach_thread t = Some (DEnded v)"
  shows "\<exists>u. cancel_step\<^sup>*\<^sup>* t u \<and> canceled_line \<in> set (clog u)"
proof -
  have on: "cancel_pending t" "cancel_enabled t" "detach_thread t \<noteq> None"
    using assms(1) by (auto simp: cancel_taken_def cancel_inv_def cancel_lines_def)
  obtain d where d: "detach_thread t = Some d" using on(3) by auto
  have rep: "d = DReport PTHREAD_CANCELED" if "d = DReport v" for v
  proof -
    have "join_joined t" using assms(1) d that by (auto simp: cancel_taken_def cancel_inv_def)
    then have "got v t" using d that by (simp add: got_def)
    then show ?thesis using cancel_taken_got [OF assms(1)] that by simp
  qed
  have ds: "detach_thread t \<in> {Some DStart, Some DSleep, Some DJoin, Some (DReport PTHREAD_CANCELED)}"
    using d assms(3) rep by (cases d) auto
  obtain t' where t': "cancel_step\<^sup>*\<^sup>* t t'" "join_thread t' = Some (JEnded PTHREAD_CANCELED)" "cmain t' = cmain t"
    "detach_thread t' = detach_thread t"
  proof (cases "before_wakeup t")
    case True
    then show ?thesis using that cancelled_thread_ends [OF assms(2) on(1,2)] by blast
  next
    case False
    then show ?thesis using that [of t] assms(1) by (simp add: cancel_taken_def)
  qed
  have "alive t'" using assms(2) t'(3) by (simp add: alive_def)
  from cancelled_thread_reported [OF this t'(2)] ds t'(4) obtain u where "cancel_step\<^sup>*\<^sup>* t' u" "canceled_line \<in> set (clog u)" by auto
  with t'(1) show ?thesis by (meson rtranclp_trans)
qed

text \<open>
  Property C34. In every interleaving, whatever the calls answer, the line saying that the thread was
  cancelled is printed only when cancellation was requested and the thread ended by it. A request made before the thread wakes up from its
  \<open>sleep\<close> is honoured: from then on the thread only gets to its end with \<open>PTHREAD_CANCELED\<close> and never prints what
  follows the \<open>sleep\<close>; the detached thread, once its \<open>pthread_join\<close> has succeeded and it has ended, has printed
  the line; and as long as the program runs and the detached thread has not ended, the line can still be printed.
\<close>

theorem cancel_honoured:
  assumes "cancel_step\<^sup>*\<^sup>* cancel_init s" "cancel_step\<^sup>*\<^sup>* s t"
  shows "(''Detach Thread: Join thread was canceled'' \<in> set (clog t) \<longrightarrow>
      cancel_pending t \<and> join_thread t = Some (JEnded PTHREAD_CANCELED)) \<and>
    (cancel_pending s \<and> before_wakeup s \<longrightarrow>
      (before_wakeup t \<or> join_thread t = Some (JEnded PTHREAD_CANCELED)) \<and>
      ''Join Thread: 15'' \<notin> set (clog t) \<and> ''Join Thread: 20'' \<notin> set (clog t) \<and>
      (join_joined t \<and> (\<exists>v. detach_thread t = Some (DEnded v)) \<longrightarrow>
        ''Detach Thread: Join thread was canceled'' \<in> set (clog t)) \<and>
      (alive t \<and> (\<nexists>v. detach_thread t = Some (DEnded v)) \<longrightarrow>
        (\<exists>u. cancel_step\<^sup>*\<^sup>* t u \<and> ''Detach Thread: Join thread was canceled'' \<in> set (clog u))))"
proof -
  have inv: "cancel_inv s \<and> cancel_lines s" "cancel_inv t \<and> cancel_lines t"
    using lines_run.holds_reachable [OF assms(1)] lines_run.holds_reachable [OF rtranclp_trans [OF assms]] by simp_all
  have "cancel_pending t \<and> join_thread t = Some (JEnded PTHREAD_CANCELED)" if "canceled_line \<in> set (clog t)"
  proof -
    have "got PTHREAD_CANCELED t" using inv(2) that by (simp add: cancel_inv_def)
    then have "join_thread t = Some (JEnded PTHREAD_CANCELED)" using inv(2) unfolding cancel_inv_def by blast
    moreover from this have "cancel_pending t" using inv(2) unfolding cancel_inv_def by blast
    ultimately show ?thesis by blast
  qed
  moreover have "(before_wakeup t \<or> join_thread t = Some (JEnded PTHREAD_CANCELED)) \<and>
      ''Join Thread: 15'' \<notin> set (clog t) \<and> ''Join Thread: 20'' \<notin> set (clog t) \<and>
      (join_joined t \<and> (\<exists>v. detach_thread t = Some (DEnded v)) \<longrightarrow> canceled_line \<in> set (clog t)) \<and>
      (alive t \<and> (\<nexists>v. detach_thread t = Some (DEnded v)) \<longrightarrow> (\<exists>u. cancel_step\<^sup>*\<^sup>* t u \<and> canceled_line \<in> set (clog u)))"
    if "cancel_pending s \<and> before_wakeup s"
  proof -
    have taken: "cancel_taken t" using taken_run.holds_reachable [OF assms(2)] inv(1) that by blast
    have "canceled_line \<in> set (clog t)" if "join_joined t" "detach_thread t = Some (DEnded v)" for v
    proof -
      have "v = PTHREAD_CANCELED" using cancel_taken_got [OF taken] that by (simp add: got_def)
      then show ?thesis using inv(2) that by (simp add: cancel_lines_def)
    qed
    with taken taken_can_report [OF taken] show ?thesis by (auto simp: cancel_taken_def slept_lines_def)
  qed
  ultimately show ?thesis by blast
qed

text \<open>A run given by its choices: 0 for \<open>main\<close>, 1 for the joined, 2 for the detached thread.\<close>

fun cancel_exec :: "nat list \<Rightarrow> cancelling \<Rightarrow> cancelling option" where
  "cancel_exec [] s = Some s"
| "cancel_exec (t # ts) s = Option.bind (if t = 0 then cancel_main 0 s else if t = 1 then JoinThreadFunction False s
     else DetachThreadFunction 0 s) (cancel_exec ts)"

lemma cancel_exec_reaches: "cancel_exec ts s = Some s' \<Longrightarrow> cancel_step\<^sup>*\<^sup>* s s'"
proof (induction ts s rule: cancel_exec.induct)
  case (2 t ts s)
  then obtain s1 where s1: "(if t = 0 then cancel_main 0 s else if t = 1 then JoinThreadFunction False s else DetachThreadFunction 0 s) = Some s1"
    "cancel_exec ts s1 = Some s'" by (auto split: bind_splits)
  then have "cancel_step s s1" using cancel_step.intros by (auto split: if_splits)
  then show ?case using 2 s1 by (auto intro: converse_rtranclp_into_rtranclp)
qed simp

theorem cancel_honoured_witness:
  "\<exists>s t. cancel_step\<^sup>*\<^sup>* cancel_init s \<and> cancel_pending s \<and> before_wakeup s \<and> cancel_step\<^sup>*\<^sup>* s t \<and>
     ''Detach Thread: Join thread was canceled'' \<in> set (clog t) \<and> ''Join Thread: 15'' \<notin> set (clog t)"
proof -
  obtain s where s: "cancel_exec [0, 0, 0, 1, 1, 1, 2, 0] cancel_init = Some s" "cancel_pending s" "before_wakeup s"
    "\<exists>t v. cancel_exec [1, 2, 2, 2] s = Some t \<and> join_joined t \<and> detach_thread t = Some (DEnded v)"
    by (simp add: cancel_init_def cancel_main_def RunJoinThread_def RunDetachThread_def JoinThreadFunction_def join_print_def
        DetachThreadFunction_def alive_def before_wakeup_def)
  then obtain t v where t: "cancel_exec [1, 2, 2, 2] s = Some t" "join_joined t" "detach_thread t = Some (DEnded v)" by blast
  note r = cancel_exec_reaches [OF s(1)] and r' = cancel_exec_reaches [OF t(1)]
  from cancel_honoured [OF r r'] s(2,3) t(2,3)
  have "''Detach Thread: Join thread was canceled'' \<in> set (clog t)" "''Join Thread: 15'' \<notin> set (clog t)" by blast+
  with r r' s(2,3) show ?thesis by blast
qed

end
