(* ===== verification/Net_Common.thy ===== *)
theory Net_Common
  imports Text_IO
begin

text \<open>
  What the five echo servers of \<open>sockets_multiplexing/\<close> share: the system calls, the opening of
  the listening socket, and \<open>echo\<close>. The operating system is a parameter \<open>sys\<close>: its reply to a
  call may depend on all calls and replies before. The history is kept with the last call first.
\<close>

unbundle bit_operations_syntax

section \<open>System calls\<close>

text \<open>
  \<open>Getaddrinfo\<close> is the call of the echo servers, with the port; \<open>Resolve\<close> that of the TCP
  server and client, with the node, the service, and the flags, family, type and protocol asked for;
  \<open>OpenFifo\<close> opens a named pipe, for writing or for reading.
\<close>

record addrinfo =
  ai_family :: int
  ai_socktype :: int
  ai_protocol :: int
  ai_addr :: "byte list"

datatype syscall =
    Getaddrinfo string
  | Socket addrinfo
  | Setsockopt int
  | Bind int "byte list"
  | Close int
  | FcntlGetfl int
  | FcntlSetfl int int
  | Listen int int
  | Accept int
  | Recv int nat
  | Send int nat "byte list"
  | Select int "int list"
  | Poll "int list"
  | EpollCreate
  | EpollAdd int int
  | EpollWait int nat
  | Kqueue
  | KeventAdd int "int list"
  | KeventWait int nat
  | Shutdown int
  | Getpeername int
  | Resolve "string option" string int int int int
  | Connect int "byte list"
  | Sigaction
  | Fork
  | Mkfifo string
  | OpenFifo string bool
  | ReadFd int nat
  | WriteFd int "byte list"
  | Unlink string
  | Socketpair

text \<open>
  A reply: the value returned, the error number set when it is \<open>-1\<close>, the bytes received, the
  address list, the descriptors \<open>select\<close> leaves in the set, the \<open>revents\<close> of \<open>poll\<close>, and the
  events of \<open>epoll_wait\<close> and \<open>kevent\<close> as descriptor and mask or filter.
\<close>

record reply =
  ret :: int
  err :: int
  bytes :: "byte list"
  addrs :: "addrinfo list"
  fds :: "int list"
  revents :: "int list"
  occurred :: "(int \<times> int) list"

type_synonym history = "(syscall \<times> reply) list"
type_synonym os = "history \<Rightarrow> syscall \<Rightarrow> reply"

record io =
  history :: history
  errno :: int
  cerr :: "string list"
  buffer :: "byte list"

definition call :: "os \<Rightarrow> syscall \<Rightarrow> 'a io_scheme \<Rightarrow> reply \<times> 'a io_scheme" where
  "call sys c w = (let r = sys (history w) c in
     (r, w\<lparr>history := (c, r) # history w, errno := (if ret r = -1 then err r else errno w)\<rparr>))"

definition print_line :: "string \<Rightarrow> 'a io_scheme \<Rightarrow> 'a io_scheme" where
  "print_line m w = w\<lparr>cerr := cerr w @ [m]\<rparr>"

section \<open>C strings\<close>

text \<open>A string literal as bytes, without the final zero, and the string an array of bytes holds.\<close>

definition ascii :: "string \<Rightarrow> byte list" where
  "ascii s = map of_char s"

definition c_string :: "byte list \<Rightarrow> byte list" where
  "c_string bs = takeWhile (\<lambda>b. b \<noteq> 0) bs"

text \<open>The characters of bytes that are printed.\<close>

definition text_of :: "byte list \<Rightarrow> string" where
  "text_of bs = map (\<lambda>b. char_of (unat b)) bs"

section \<open>Utilities\<close>

definition ERROR :: int where "ERROR = -1"
definition EAGAIN :: int where "EAGAIN = 11"
definition O_NONBLOCK :: int where "O_NONBLOCK = 2048"
definition SOMAXCONN :: int where "SOMAXCONN = 4096"

definition print_errno :: "string \<Rightarrow> 'a io_scheme \<Rightarrow> 'a io_scheme" where
  "print_errno message w = print_line (message @ '': '' @ message) w"

text \<open>
  The constants above are those of Linux. The servers on \<open>kqueue\<close> run on the BSD systems, where \<open>O_NONBLOCK\<close> and
  \<open>EAGAIN\<close> have other values: \<open>set_nonblock\<close> and \<open>echo\<close>, whose text the servers share, take them as an argument.
\<close>

definition set_nonblock :: "int \<Rightarrow> os \<Rightarrow> int \<Rightarrow> 'a io_scheme \<Rightarrow> int \<times> 'a io_scheme" where
  "set_nonblock nonblock sys socket_fd w =
     (let (r, w) = call sys (FcntlGetfl socket_fd) w;
          flags = (if ret r = ERROR then 0 else ret r);
          (r, w) = call sys (FcntlSetfl socket_fd (flags OR nonblock)) w
      in (ret r, w))"

definition get_max_socket :: "int \<Rightarrow> int list \<Rightarrow> int" where
  "get_max_socket server_socket open_sockets =
     (if open_sockets \<noteq> [] then max server_socket (last open_sockets) else server_socket)"

section \<open>The listening socket\<close>

text \<open>
  The status of \<open>getaddrinfo\<close> is compared with \<open>-1\<close> only; on any other error the pointer that
  is returned has never been set.
\<close>

definition gai_strerror_badflags :: string where
  "gai_strerror_badflags = ''Bad value for ai_flags''"

definition initialize_addr_info :: "os \<Rightarrow> string \<Rightarrow> 'a io_scheme \<Rightarrow> addrinfo list option result \<times> 'a io_scheme" where
  "initialize_addr_info sys port w =
     (let (r, w) = call sys (Getaddrinfo port) w in
      if ret r = ERROR then (Inr None, print_line (''Server failure during getaddrinfo: '' @ gai_strerror_badflags) w)
      else if ret r = 0 then (Inr (Some (addrs r)), w)
      else (Inl Uninitialised, w))"

text \<open>The loop over the addresses: \<open>None\<close> when it returns from within, else the last \<open>socket_fd\<close>.\<close>

fun socket_loop :: "(string \<Rightarrow> 'a io_scheme \<Rightarrow> 'a io_scheme) \<Rightarrow> os \<Rightarrow> addrinfo list \<Rightarrow> int \<Rightarrow> 'a io_scheme \<Rightarrow>
    int option \<times> 'a io_scheme" where
  "socket_loop perr sys [] socket_fd w = (Some socket_fd, w)"
| "socket_loop perr sys (current # rest) socket_fd w =
     (let (r, w) = call sys (Socket current) w; socket_fd = ret r in
      if socket_fd = ERROR then
        socket_loop perr sys rest socket_fd (perr ''Server: Failed to connect to the socket'' w)
      else
        let (r, w) = call sys (Setsockopt socket_fd) w in
        if ret r = ERROR then (None, perr ''Server: Failed to reuse the socket'' w)
        else
          let (r, w) = call sys (Bind socket_fd (ai_addr current)) w in
          if ret r = ERROR then
            let (_, w) = call sys (Close socket_fd) w in
            socket_loop perr sys rest socket_fd (perr ''Server: Failed to bind the socket'' w)
          else (Some socket_fd, w))"

definition get_socket_fd :: "(string \<Rightarrow> 'a io_scheme \<Rightarrow> 'a io_scheme) \<Rightarrow> os \<Rightarrow> addrinfo list \<Rightarrow> 'a io_scheme \<Rightarrow>
    int \<times> 'a io_scheme" where
  "get_socket_fd perr sys addr_info w =
     (case socket_loop perr sys addr_info ERROR w of
        (None, w) \<Rightarrow> (ERROR, w)
      | (Some socket_fd, w) \<Rightarrow>
          (socket_fd, if socket_fd = ERROR then print_line ''Server: Failed to find socket'' w else w))"

section \<open>Echo\<close>

definition kBufferSize :: nat where "kBufferSize = 1024"

text \<open>The result of \<open>recv\<close> is converted to \<open>size_t\<close> before it is compared with zero.\<close>

definition echo :: "(string \<Rightarrow> 'a io_scheme \<Rightarrow> 'a io_scheme) \<Rightarrow> int \<Rightarrow> os \<Rightarrow> int \<Rightarrow> 'a io_scheme \<Rightarrow> bool \<times> 'a io_scheme" where
  "echo perr eagain sys socket w =
     (let (r, w) = call sys (Recv socket kBufferSize) w;
          w = w\<lparr>buffer := bytes r @ drop (length (bytes r)) (buffer w)\<rparr>;
          received_message_size = to_size (ret r)
      in if received_message_size = 0 then
           (errno w = eagain,
            if errno w \<noteq> eagain then perr ''Server: Failed to receive a message'' w else w)
         else
           let (r, w) = call sys (Send socket received_message_size (take received_message_size (buffer w))) w in
           (True, if ret r = ERROR then perr ''Server: Failed to send the message'' w else w))"

section \<open>The start and the loop of a server\<close>

datatype progress = Next | Exited int | Undefined cpp_error

text \<open>The statements every \<open>main\<close> begins with; \<open>Inl\<close> when it ends there.\<close>

definition open_server :: "('w \<Rightarrow> addrinfo list option result \<times> 'w) \<Rightarrow> (addrinfo list \<Rightarrow> 'w \<Rightarrow> int \<times> 'w) \<Rightarrow> 'w \<Rightarrow>
    (progress + int) \<times> 'w" where
  "open_server init get_fd w =
     (case init w of
        (Inl e, w) \<Rightarrow> (Inl (Undefined e), w)
      | (Inr None, w) \<Rightarrow> (Inl (Exited (-1)), w)
      | (Inr (Some server_addr_info), w) \<Rightarrow>
          (case get_fd server_addr_info w of
             (server_socket, w) \<Rightarrow>
               if server_socket = ERROR then (Inl (Exited (-1)), w) else (Inr server_socket, w)))"

text \<open>At most \<open>n\<close> iterations of \<open>while (true)\<close>; \<open>Next\<close> says that it is still running.\<close>

primrec server_loop :: "('s \<Rightarrow> progress \<times> 's) \<Rightarrow> nat \<Rightarrow> 's \<Rightarrow> progress \<times> 's" where
  "server_loop iteration 0 s = (Next, s)"
| "server_loop iteration (Suc n) s =
     (case iteration s of (Next, s) \<Rightarrow> server_loop iteration n s | (p, s) \<Rightarrow> (p, s))"

text \<open>What every iteration keeps, the loop keeps.\<close>

locale multiplexer =
  fixes iteration :: "'s \<Rightarrow> progress \<times> 's"
    and served :: "'s \<Rightarrow> bool"
  assumes served_iteration: "served s \<Longrightarrow> iteration s = (p, s') \<Longrightarrow> served s'"
begin

lemma served_loop: "served s \<Longrightarrow> server_loop iteration n s = (p, s') \<Longrightarrow> served s'"
proof (induction n arbitrary: s)
  case (Suc n)
  obtain q s1 where it: "iteration s = (q, s1)" by fastforce
  with Suc.prems served_iteration have "served s1" by blast
  with Suc it show ?case by (cases q) auto
qed simp

end

section \<open>Descriptors in use\<close>

text \<open>The sockets that are open after a history.\<close>

fun live :: "history \<Rightarrow> int set" where
  "live [] = {}"
| "live ((c, r) # h) =
     (case c of
        Socket _ \<Rightarrow> if ret r \<noteq> ERROR then insert (ret r) (live h) else live h
      | Accept _ \<Rightarrow> if ret r \<noteq> ERROR then insert (ret r) (live h) else live h
      | Close fd \<Rightarrow> live h - {fd}
      | _ \<Rightarrow> live h)"

text \<open>The socket a call works on, and histories in which no call works on a socket that is not open.\<close>

definition subject :: "syscall \<Rightarrow> int set" where
  "subject c = (case c of Setsockopt fd \<Rightarrow> {fd} | Bind fd _ \<Rightarrow> {fd} | Close fd \<Rightarrow> {fd} | FcntlGetfl fd \<Rightarrow> {fd}
     | FcntlSetfl fd _ \<Rightarrow> {fd} | Listen fd _ \<Rightarrow> {fd} | Accept fd \<Rightarrow> {fd} | Recv fd _ \<Rightarrow> {fd} | Send fd _ _ \<Rightarrow> {fd}
     | Shutdown fd \<Rightarrow> {fd} | Connect fd _ \<Rightarrow> {fd} | EpollAdd _ fd \<Rightarrow> {fd} | KeventAdd _ fs \<Rightarrow> set fs | Select _ fs \<Rightarrow> set fs | Poll fs \<Rightarrow> set fs | _ \<Rightarrow> {})"

fun disciplined :: "history \<Rightarrow> bool" where
  "disciplined [] = True"
| "disciplined ((c, r) # h) = (subject c \<subseteq> live h \<and> disciplined h)"

text \<open>What the system documents: a new descriptor is not one that is open, and is not negative.\<close>

definition fresh_fds :: "os \<Rightarrow> bool" where
  "fresh_fds sys \<longleftrightarrow> (\<forall>h c fd. (case c of Socket _ \<Rightarrow> True | Accept _ \<Rightarrow> True | _ \<Rightarrow> False) \<longrightarrow>
     ret (sys h c) = fd \<longrightarrow> fd \<noteq> ERROR \<longrightarrow> 0 \<le> fd \<and> fd \<notin> live h)"

section \<open>Facts about the calls\<close>

lemma call_simps [simp]:
  "fst (call sys c w) = sys (history w) c"
  "history (snd (call sys c w)) = (c, sys (history w) c) # history w"
  "errno (snd (call sys c w)) = (if ret (sys (history w) c) = -1 then err (sys (history w) c) else errno w)"
  "buffer (snd (call sys c w)) = buffer w" "cerr (snd (call sys c w)) = cerr w"
  "io.more (snd (call sys c w)) = io.more w"
  by (simp_all add: call_def Let_def)

lemma print_line_simps [simp]:
  "history (print_line m w) = history w" "errno (print_line m w) = errno w"
  "buffer (print_line m w) = buffer w" "io.more (print_line m w) = io.more w"
  by (simp_all add: print_line_def)

text \<open>The functions that report an error only write a line.\<close>

definition quiet :: "(string \<Rightarrow> 'a io_scheme \<Rightarrow> 'a io_scheme) \<Rightarrow> bool" where
  "quiet perr \<longleftrightarrow> (\<forall>m w. \<exists>l. perr m w = print_line l w)"

lemma quiet_simps:
  assumes "quiet perr"
  shows "history (perr m w) = history w" "errno (perr m w) = errno w"
    "buffer (perr m w) = buffer w" "io.more (perr m w) = io.more w"
proof -
  obtain l where "perr m w = print_line l w" using assms unfolding quiet_def by blast
  then show "history (perr m w) = history w" "errno (perr m w) = errno w"
    "buffer (perr m w) = buffer w" "io.more (perr m w) = io.more w" by simp_all
qed

lemma quiet_print_errno [simp]: "quiet print_errno"
  by (auto simp: quiet_def print_errno_def)

lemma subject_simps [simp]:
  "subject (Getaddrinfo p) = {}" "subject (Socket a) = {}" "subject (Setsockopt fd) = {fd}" "subject (Bind fd b) = {fd}"
  "subject (Close fd) = {fd}" "subject (FcntlGetfl fd) = {fd}" "subject (FcntlSetfl fd z) = {fd}"
  "subject (Listen fd z) = {fd}" "subject (Accept fd) = {fd}" "subject (Recv fd k) = {fd}" "subject (Send fd k bs) = {fd}"
  "subject (Select z fs) = set fs" "subject (Poll fs) = set fs" "subject EpollCreate = {}" "subject (EpollAdd z fd) = {fd}"
  "subject (EpollWait z m) = {}" "subject Kqueue = {}" "subject (KeventAdd z fs) = set fs" "subject (KeventWait z m) = {}"
  "subject (Shutdown fd) = {fd}" "subject (Getpeername fd) = {}" "subject (Resolve x y f1 f2 f3 f4) = {}"
  "subject (Connect fd b) = {fd}" "subject Sigaction = {}" "subject Fork = {}"
  "subject (Mkfifo n) = {}" "subject (OpenFifo n wr) = {}" "subject (ReadFd fd k) = {}" "subject (WriteFd fd bs) = {}"
  "subject (Unlink n) = {}" "subject Socketpair = {}"
  by (simp_all add: subject_def)

lemma fresh_fdsD:
  assumes "fresh_fds sys"
  shows "ret (sys h (Socket a)) \<noteq> ERROR \<Longrightarrow> 0 \<le> ret (sys h (Socket a)) \<and> ret (sys h (Socket a)) \<notin> live h"
    "ret (sys h (Accept fd)) \<noteq> ERROR \<Longrightarrow> 0 \<le> ret (sys h (Accept fd)) \<and> ret (sys h (Accept fd)) \<notin> live h"
  using assms unfolding fresh_fds_def by force+

lemma set_nonblock_simps:
  assumes "set_nonblock nonblock sys fd w = (k, w')"
  shows "live (history w') = live (history w)" "io.more w' = io.more w"
    "disciplined (history w') \<longleftrightarrow> fd \<in> live (history w) \<and> disciplined (history w)"
  using assms by (auto simp: set_nonblock_def Let_def call_def split: prod.splits if_splits)

lemma c_string_buffer:
  assumes "length bs < length buf"
  shows "c_string ((bs @ drop (length bs) buf)[length bs := 0]) = c_string bs"
proof -
  obtain x rest where "drop (length bs) buf = x # rest" using assms by (metis Cons_nth_drop_Suc)
  then have "(bs @ drop (length bs) buf)[length bs := 0] = bs @ 0 # rest" by simp
  then show ?thesis by (simp add: c_string_def takeWhile_append takeWhile_eq_all_conv [THEN iffD2, symmetric])
qed

lemma c_string_take: "0 \<notin> set bs \<Longrightarrow> c_string (bs @ r) = bs @ c_string r"
  by (induction bs) (auto simp: c_string_def)

lemma c_string_prefix: "0 \<notin> set bs \<Longrightarrow> c_string (take k (bs @ [0])) = take k bs"
proof -
  assume "0 \<notin> set bs"
  then have nz: "\<forall>b \<in> set (take k bs). b \<noteq> 0" by (auto dest: in_set_takeD)
  show ?thesis
  proof (cases "k \<le> length bs")
    case True
    then show ?thesis using nz by (simp add: c_string_def takeWhile_eq_all_conv)
  next
    case False
    then show ?thesis using nz takeWhile_append2 [of bs "\<lambda>b. b \<noteq> 0" "[0]"] by (simp add: c_string_def)
  qed
qed

lemma text_of_ascii: "text_of (ascii s) = s"
proof -
  have "char_of (unat (of_char c :: byte)) = c" for c
  proof -
    have "of_char c = (of_nat (of_char c) :: byte)" by (simp add: of_nat_of_char)
    then have "unat (of_char c :: byte) = of_char c mod 256" by (simp add: unat_of_nat)
    then show ?thesis by (simp add: char_of_mod_256)
  qed
  then show ?thesis by (induction s) (simp_all add: text_of_def ascii_def)
qed

section \<open>What \<open>echo\<close> does\<close>

text \<open>
  The system's promise for \<open>recv\<close>: a positive result is the number of bytes delivered, at most
  the size asked for, and nothing is delivered otherwise.
\<close>

definition recv_ok :: "nat \<Rightarrow> reply \<Rightarrow> bool" where
  "recv_ok k r \<longleftrightarrow> (ret r = int (length (bytes r)) \<and> length (bytes r) \<le> k) \<or> (ret r = ERROR \<and> bytes r = [])"

lemma to_size_minus_one: "to_size (- 1) = 2 ^ 64 - 1"
  by (simp add: to_size_def)

lemma echo_cases:
  fixes sys :: os and w :: "'a io_scheme" and socket :: int
  assumes "quiet perr"
  defines "r \<equiv> sys (history w) (Recv socket kBufferSize)"
  defines "n \<equiv> to_size (ret r)"
  defines "b \<equiv> bytes r @ drop (length (bytes r)) (buffer w)"
  defines "h \<equiv> (Recv socket kBufferSize, r) # history w"
  shows "n = 0 \<Longrightarrow> fst (echo perr eagain sys socket w) = (errno (snd (call sys (Recv socket kBufferSize) w)) = eagain) \<and>
      history (snd (echo perr eagain sys socket w)) = h"
    and "n \<noteq> 0 \<Longrightarrow> fst (echo perr eagain sys socket w) \<and>
      history (snd (echo perr eagain sys socket w)) = (Send socket n (take n b), sys h (Send socket n (take n b))) # h"
    and "io.more (snd (echo perr eagain sys socket w)) = io.more w"
  by (simp_all add: echo_def Let_def call_def quiet_simps [OF assms(1)] r_def n_def b_def h_def)

lemma echo_live:
  assumes "quiet perr" "echo perr eagain sys socket w = (ok, w')"
  shows "live (history w') = live (history w)" "io.more w' = io.more w"
    "disciplined (history w') \<longleftrightarrow> socket \<in> live (history w) \<and> disciplined (history w)"
proof -
  note c = echo_cases [OF assms(1), where sys = sys and socket = socket and w = w]
  have w': "w' = snd (echo perr eagain sys socket w)" using assms(2) by simp
  show "io.more w' = io.more w" using c(3) w' by simp
  show "live (history w') = live (history w)"
    "disciplined (history w') \<longleftrightarrow> socket \<in> live (history w) \<and> disciplined (history w)"
    unfolding w'
    by (cases "to_size (ret (sys (history w) (Recv socket kBufferSize))) = 0"; use c(1,2) in force)+
qed

text \<open>
  When \<open>recv\<close> delivers bytes, \<open>echo\<close> returns true and makes exactly two calls:
  the \<open>recv\<close>, and a \<open>send\<close> of exactly the bytes received, to the same socket.
\<close>

lemma echo_returns_bytes:
  assumes "quiet perr" "sys (history w) (Recv socket kBufferSize) = r"
    and "ret r = int (length (bytes r))" "0 < length (bytes r)" "length (bytes r) \<le> kBufferSize"
  shows "fst (echo perr eagain sys socket w) \<and>
    map fst (history (snd (echo perr eagain sys socket w))) =
      [Send socket (length (bytes r)) (bytes r), Recv socket kBufferSize] @ map fst (history w)"
proof -
  have n: "to_size (ret r) = length (bytes r)"
    using assms(3,5) by (simp add: kBufferSize_def)
  then have "to_size (ret r) \<noteq> 0" using assms(4) by simp
  from echo_cases(2) [OF assms(1), where sys = sys and socket = socket and w = w, unfolded assms(2), OF this]
  show ?thesis by (simp add: n)
qed

text \<open>
  When \<open>recv\<close> fails, the conversion to \<open>size_t\<close> hides it: \<open>echo\<close> returns true
  and asks \<open>send\<close> for \<open>2 ^ 64 - 1\<close> bytes of the buffer of 1024. The branch for failures is taken
  exactly when the peer has closed the connection, and there the result depends on an \<open>errno\<close>
  that \<open>recv\<close> has not set: with an old \<open>EAGAIN\<close> the connection is kept.
\<close>

lemma echo_misses_failure:
  assumes "quiet perr" "sys (history w) (Recv socket kBufferSize) = r" "bytes r = []"
  shows "(ret r = ERROR \<longrightarrow> fst (echo perr eagain sys socket w) \<and>
      map fst (history (snd (echo perr eagain sys socket w))) =
        [Send socket (2 ^ 64 - 1) (take (2 ^ 64 - 1) (buffer w)), Recv socket kBufferSize] @ map fst (history w)) \<and>
    (ret r = 0 \<longrightarrow> fst (echo perr eagain sys socket w) = (errno w = eagain) \<and>
      map fst (history (snd (echo perr eagain sys socket w))) = [Recv socket kBufferSize] @ map fst (history w))"
proof -
  note c = echo_cases [OF assms(1), where sys = sys and socket = socket and w = w, unfolded assms(2)]
  have "to_size (ret r) = 2 ^ 64 - 1" "to_size (ret r) \<noteq> 0" if "ret r = ERROR"
    using that to_size_minus_one by (auto simp: ERROR_def)
  moreover have "to_size (ret r) = 0" if "ret r = 0" using that by (simp add: to_size_def)
  ultimately show ?thesis using c(1,2) assms(2,3) by (auto simp: ERROR_def)
qed

text \<open>
  Property C20. The calls \<open>echo\<close> makes and its result, for every answer of \<open>recv\<close>. When bytes
  arrive, they are sent back to the same socket. When \<open>recv\<close> fails, the conversion
  to \<open>size_t\<close> hides it: \<open>send\<close> is asked for \<open>2 ^ 64 - 1\<close> bytes of the buffer of 1024. When
  the peer has closed the connection, nothing is sent, and it is kept when \<open>EAGAIN\<close> is the value of an \<open>errno\<close> that
  \<open>recv\<close> has not set.
\<close>

theorem echo_behaviour:
  assumes "quiet perr" "sys (history w) (Recv socket kBufferSize) = r"
  shows "(ret r = int (length (bytes r)) \<and> 0 < length (bytes r) \<and> length (bytes r) \<le> kBufferSize \<longrightarrow>
      fst (echo perr eagain sys socket w) \<and>
      map fst (history (snd (echo perr eagain sys socket w))) =
        [Send socket (length (bytes r)) (bytes r), Recv socket kBufferSize] @ map fst (history w)) \<and>
    (ret r = ERROR \<and> bytes r = [] \<longrightarrow> fst (echo perr eagain sys socket w) \<and>
      map fst (history (snd (echo perr eagain sys socket w))) =
        [Send socket (2 ^ 64 - 1) (take (2 ^ 64 - 1) (buffer w)), Recv socket kBufferSize] @ map fst (history w)) \<and>
    (ret r = 0 \<and> bytes r = [] \<longrightarrow> fst (echo perr eagain sys socket w) = (errno w = eagain) \<and>
      map fst (history (snd (echo perr eagain sys socket w))) = [Recv socket kBufferSize] @ map fst (history w))"
  using echo_returns_bytes [where sys = sys and w = w, OF assms] echo_misses_failure [where sys = sys and w = w, OF assms] by blast

theorem echo_behaviour_witness:
  "map fst (history (snd (echo print_errno EAGAIN
      (\<lambda>h c. \<lparr>ret = 2, err = 0, bytes = [104, 105], addrs = [], fds = [], revents = [], occurred = []\<rparr>) 5
      \<lparr>history = [], errno = 0, cerr = [], buffer = replicate 1024 0\<rparr>))) =
   [Send 5 2 [104, 105], Recv 5 1024]"
proof -
  let ?r = "\<lparr>ret = 2, err = 0, bytes = [104, 105], addrs = [], fds = [], revents = [], occurred = []\<rparr>"
  let ?w = "\<lparr>history = [], errno = 0, cerr = [], buffer = replicate 1024 0\<rparr>"
  from echo_behaviour [of print_errno "\<lambda>h c. ?r" ?w 5 ?r] show ?thesis by (simp add: kBufferSize_def)
qed

section \<open>What \<open>get_socket_fd\<close> returns\<close>

text \<open>The last call of a search that ended with a bound socket, or with a closed one.\<close>

definition bound :: "int \<Rightarrow> history \<Rightarrow> bool" where
  "bound fd h \<longleftrightarrow> (case h of (Bind fd' _, r) # _ \<Rightarrow> fd' = fd \<and> ret r \<noteq> ERROR | _ \<Rightarrow> False)"

definition closed_last :: "int \<Rightarrow> history \<Rightarrow> bool" where
  "closed_last fd h \<longleftrightarrow> (case h of (Close fd', _) # (Bind fd'' _, r) # _ \<Rightarrow> fd' = fd \<and> fd'' = fd \<and> ret r = ERROR | _ \<Rightarrow> False)"

lemma socket_loop_result:
  assumes "quiet perr" "fresh_fds sys" "socket_loop perr sys as fd w = (f, w')"
    and "live (history w) = {}" "disciplined (history w)" "fd = ERROR \<or> closed_last fd (history w)"
  shows "disciplined (history w') \<and> io.more w' = io.more w \<and>
    (\<forall>fd'. f = Some fd' \<longrightarrow>
       (bound fd' (history w') \<and> live (history w') = {fd'}) \<or>
       (live (history w') = {} \<and> (fd' = ERROR \<or> closed_last fd' (history w'))))"
  using assms(3-)
proof (induction as arbitrary: fd w)
  case (Cons a as)
  note q = quiet_simps [OF assms(1)]
  let ?h = "history w"
  define r where "r = sys ?h (Socket a)"
  show ?case
  proof (cases "ret r = ERROR")
    case True
    let ?w = "perr ''Server: Failed to connect to the socket'' (snd (call sys (Socket a) w))"
    have "socket_loop perr sys as ERROR ?w = (f, w')"
      using Cons.prems(1) True by (simp add: r_def call_def Let_def)
    moreover have "live (history ?w) = {}" "disciplined (history ?w)" "io.more ?w = io.more w"
      using Cons.prems True by (simp_all add: q r_def)
    ultimately show ?thesis using Cons.IH [of ERROR ?w] by simp
  next
    case False
    define w1 where "w1 = snd (call sys (Socket a) w)"
    define w2 where "w2 = snd (call sys (Setsockopt (ret r)) w1)"
    define w3 where "w3 = snd (call sys (Bind (ret r) (ai_addr a)) w2)"
    define w4 where "w4 = perr ''Server: Failed to bind the socket'' (snd (call sys (Close (ret r)) w3))"
    have h3: "live (history w3) = {ret r}" "disciplined (history w2)" "disciplined (history w3)"
      "io.more w2 = io.more w" "io.more w3 = io.more w"
      using Cons.prems False by (simp_all add: w1_def w2_def w3_def r_def)
    have split: "socket_loop perr sys (a # as) fd w =
      (if ret (sys (history w1) (Setsockopt (ret r))) = ERROR then (None, perr ''Server: Failed to reuse the socket'' w2)
       else if ret (sys (history w2) (Bind (ret r) (ai_addr a))) = ERROR then socket_loop perr sys as (ret r) w4
       else (Some (ret r), w3))"
      using False by (simp add: r_def w1_def w2_def w3_def w4_def call_def Let_def)
    show ?thesis
    proof (cases "ret (sys (history w1) (Setsockopt (ret r))) = ERROR")
      case True
      with split Cons.prems(1) have "f = None" "w' = perr ''Server: Failed to reuse the socket'' w2" by auto
      then show ?thesis using h3 by (simp add: q)
    next
      case set: False
      show ?thesis
      proof (cases "ret (sys (history w2) (Bind (ret r) (ai_addr a))) = ERROR")
        case True
        have "socket_loop perr sys as (ret r) w4 = (f, w')" using split Cons.prems(1) set True by simp
        moreover have "live (history w4) = {}" "disciplined (history w4)" "closed_last (ret r) (history w4)"
            "io.more w4 = io.more w"
          using h3 True by (simp_all add: w4_def q closed_last_def, simp_all add: w3_def)
        ultimately show ?thesis using Cons.IH [of "ret r" w4] by simp
      next
        case False
        then have "f = Some (ret r)" "w' = w3" using split Cons.prems(1) set by auto
        then show ?thesis using h3 False by (simp add: bound_def, simp add: w3_def)
      qed
    qed
  qed
qed auto

text \<open>
  Property C21. \<open>get_socket_fd\<close> never works on a descriptor that is not open. When it returns
  a descriptor, either the descriptor is the only open one and its \<open>bind\<close> has succeeded, or
  \<open>bind\<close> has failed for the last address and the descriptor returned has been closed: the
  caller cannot tell the two cases apart.
\<close>

theorem get_socket_fd_result:
  assumes "fresh_fds sys" "live (history w) = {}" "disciplined (history w)"
    and "get_socket_fd print_errno sys as w = (fd, w')"
  shows "disciplined (history w') \<and>
    (fd \<noteq> ERROR \<longrightarrow>
      (bound fd (history w') \<and> live (history w') = {fd}) \<or>
      (closed_last fd (history w') \<and> live (history w') = {}))"
proof -
  obtain f w1 where loop: "socket_loop print_errno sys as ERROR w = (f, w1)" by fastforce
  with assms(4) have w1: "history w' = history w1" "fd = (case f of None \<Rightarrow> ERROR | Some fd \<Rightarrow> fd)"
    by (auto simp: get_socket_fd_def split: option.splits if_splits)
  from socket_loop_result [OF quiet_print_errno assms(1) loop assms(2,3)] w1
  show ?thesis by (cases f) auto
qed

text \<open>A system that hands out the descriptor after the largest open one, and answers the other calls by \<open>answer\<close>.\<close>

definition no_reply :: reply where
  "no_reply = \<lparr>ret = 0, err = 0, bytes = [], addrs = [], fds = [], revents = [], occurred = []\<rparr>"

definition sample_os :: "os \<Rightarrow> os" where
  "sample_os answer h c =
     (case c of Socket _ \<Rightarrow> no_reply\<lparr>ret := 1 + Max (insert 2 (live h))\<rparr>
      | Accept _ \<Rightarrow> no_reply\<lparr>ret := 1 + Max (insert 2 (live h))\<rparr> | _ \<Rightarrow> answer h c)"

definition sample_io :: io where
  "sample_io = \<lparr>history = [], errno = 0, cerr = [], buffer = replicate kBufferSize 0\<rparr>"

lemma finite_live [simp]: "finite (live h)"
  by (induction h rule: live.induct) (auto split: syscall.splits)

lemma fresh_sample_os [simp]: "fresh_fds (sample_os answer)"
proof -
  have "1 + Max (insert 2 (live h)) \<notin> live h" "0 \<le> 1 + Max (insert 2 (live h))" for h
  proof -
    have "1 + Max (insert 2 (live h)) \<in> live h \<Longrightarrow> 1 + Max (insert 2 (live h)) \<le> Max (insert 2 (live h))"
      by (intro Max_ge) simp_all
    then show "1 + Max (insert 2 (live h)) \<notin> live h" by auto
    have "2 \<le> Max (insert 2 (live h))" by (intro Max_ge) simp_all
    then show "0 \<le> 1 + Max (insert 2 (live h))" by linarith
  qed
  then show ?thesis by (auto simp: fresh_fds_def sample_os_def split: syscall.splits)
qed

theorem get_socket_fd_result_witness:
  "\<exists>w'. get_socket_fd print_errno (sample_os (\<lambda>h c. no_reply\<lparr>ret := (case c of Bind _ _ \<Rightarrow> -1 | _ \<Rightarrow> 0)\<rparr>))
       [\<lparr>ai_family = 2, ai_socktype = 1, ai_protocol = 6, ai_addr = []\<rparr>] sample_io = (3, w') \<and>
     closed_last 3 (history w') \<and> live (history w') = {}"
proof -
  let ?sys = "sample_os (\<lambda>h c. no_reply\<lparr>ret := (case c of Bind _ _ \<Rightarrow> -1 | _ \<Rightarrow> 0)\<rparr>)"
  let ?as = "[\<lparr>ai_family = 2, ai_socktype = 1, ai_protocol = 6, ai_addr = []\<rparr>]"
  obtain w' where w': "get_socket_fd print_errno ?sys ?as sample_io = (3, w')" "\<not> bound 3 (history w')"
    by (simp add: get_socket_fd_def sample_os_def sample_io_def no_reply_def call_def Let_def ERROR_def
        bound_def print_errno_def print_line_def)
  have "live (history sample_io) = {}" "disciplined (history sample_io)" by (simp_all add: sample_io_def)
  from get_socket_fd_result [OF fresh_sample_os this w'(1)] w' show ?thesis by (simp add: ERROR_def)
qed

end
