(* ===== verification/Select_Poll.thy ===== *)
theory Select_Poll
  imports Net_Common
begin

text \<open>
  \<open>sockets_multiplexing/echo_server_select.cpp\<close> and \<open>echo_server_poll.cpp\<close>: the servers that
  keep their connections in a \<open>std::set<int>\<close>. An \<open>fd_set\<close> is the list of its descriptors, and
  the array of \<open>pollfd\<close> the list of its \<open>fd\<close> fields (the \<open>events\<close> are always \<open>POLLIN\<close>).
\<close>

record server = io +
  open_sockets :: "int list"

section \<open>Operations of both\<close>

definition accept_new_connection :: "os \<Rightarrow> int \<Rightarrow> 'a server_scheme \<Rightarrow> int \<times> 'a server_scheme" where
  "accept_new_connection sys server_socket s =
     (let (r, s) = call sys (Accept server_socket) s; new_socket = ret r in
      if new_socket \<noteq> ERROR then
        let (_, s) = set_nonblock O_NONBLOCK sys new_socket s in
        (new_socket, s\<lparr>open_sockets := oset_insert id new_socket (open_sockets s)\<rparr>)
      else (new_socket, print_errno ''Server: Failed to accept new connection'' s))"

text \<open>\<open>echo\<close> on one connection that is ready, closing it when it is to be closed.\<close>

definition echo_or_close :: "os \<Rightarrow> int \<Rightarrow> int list \<times> 'a server_scheme \<Rightarrow> int list \<times> 'a server_scheme" where
  "echo_or_close sys socket cs =
     (let (closed_sockets, s) = cs; (ok, s) = echo print_errno EAGAIN sys socket s in
      if \<not> ok then let (_, s) = call sys (Close socket) s in (closed_sockets @ [socket], s)
      else (closed_sockets, s))"

definition erase_closed :: "int list \<Rightarrow> 'a server_scheme \<Rightarrow> 'a server_scheme" where
  "erase_closed closed_sockets s =
     s\<lparr>open_sockets := fold (\<lambda>socket. oset_erase id socket) closed_sockets (open_sockets s)\<rparr>"

definition accept_if_ready :: "os \<Rightarrow> int \<Rightarrow> bool \<Rightarrow> 'a server_scheme \<Rightarrow> progress \<times> 'a server_scheme" where
  "accept_if_ready sys server_socket server_ready s =
     (if server_ready then
        let (new_socket, s) = accept_new_connection sys server_socket s in
        (if new_socket = ERROR then Exited 0 else Next, s)
      else (Next, s))"

section \<open>The server on \<open>select\<close>\<close>

definition FD_SETSIZE :: int where "FD_SETSIZE = 1024"

definition FD_SET :: "int \<Rightarrow> int list \<Rightarrow> int list result" where
  "FD_SET fd fs = (if 0 \<le> fd \<and> fd < FD_SETSIZE then Inr (fs @ [fd]) else Inl OutOfBounds)"

fun FD_SETs :: "int list \<Rightarrow> int list \<Rightarrow> int list result" where
  "FD_SETs [] fs = Inr fs"
| "FD_SETs (socket # sockets) fs = bindE (FD_SET socket fs) (FD_SETs sockets)"

fun select_scan :: "os \<Rightarrow> int list \<Rightarrow> int list \<Rightarrow> int list \<times> 'a server_scheme \<Rightarrow> int list \<times> 'a server_scheme" where
  "select_scan sys ready [] cs = cs"
| "select_scan sys ready (socket # sockets) cs =
     select_scan sys ready sockets (if socket \<in> set ready then echo_or_close sys socket cs else cs)"

definition select_iteration :: "os \<Rightarrow> int \<Rightarrow> server \<Rightarrow> progress \<times> server" where
  "select_iteration sys server_socket s =
     (case bindE (FD_SET server_socket []) (FD_SETs (open_sockets s)) of
        Inl e \<Rightarrow> (Undefined e, s)
      | Inr set\<^sub>0 \<Rightarrow>
          let max_socket = get_max_socket server_socket (open_sockets s);
              (r, s) = call sys (Select (max_socket + 1) set\<^sub>0) s in
          if ret r = ERROR then
            if errno s = EAGAIN then (Next, s)
            else (Exited 0, print_errno ''Server: Failure during select'' s)
          else
            let (closed_sockets, s) = select_scan sys (fds r) (open_sockets s) ([], s) in
            accept_if_ready sys server_socket (server_socket \<in> set (fds r)) (erase_closed closed_sockets s))"

definition listen_message :: "int \<Rightarrow> string" where
  "listen_message server_socket = ''Server: Failed to listen the socket '' @ to_string server_socket"

definition select_main :: "os \<Rightarrow> nat \<Rightarrow> server \<Rightarrow> progress \<times> server" where
  "select_main sys n s =
     (case open_server (initialize_addr_info sys ''12345'') (get_socket_fd print_errno sys) s of
        (Inl p, s) \<Rightarrow> (p, s)
      | (Inr server_socket, s) \<Rightarrow>
          let (_, s) = set_nonblock O_NONBLOCK sys server_socket s;
              (r, s) = call sys (Listen server_socket 1024) s in
          if ret r = ERROR then (Exited (-1), print_errno (listen_message server_socket) s)
          else server_loop (select_iteration sys server_socket) n (s\<lparr>open_sockets := []\<rparr>))"

section \<open>The server on \<open>poll\<close>\<close>

text \<open>The helpers of \<open>echo_server_poll.cpp\<close> have the text of those of the server on \<open>select\<close>, with another port.\<close>

abbreviation print_errno_poll :: "string \<Rightarrow> 'a io_scheme \<Rightarrow> 'a io_scheme" where
  "print_errno_poll \<equiv> print_errno"

abbreviation set_nonblock_poll :: "os \<Rightarrow> int \<Rightarrow> 'a io_scheme \<Rightarrow> int \<times> 'a io_scheme" where
  "set_nonblock_poll \<equiv> set_nonblock O_NONBLOCK"

abbreviation initialize_addr_info_poll :: "os \<Rightarrow> 'a io_scheme \<Rightarrow> addrinfo list option result \<times> 'a io_scheme" where
  "initialize_addr_info_poll sys \<equiv> initialize_addr_info sys ''12346''"

abbreviation get_socket_fd_poll :: "os \<Rightarrow> addrinfo list \<Rightarrow> 'a io_scheme \<Rightarrow> int \<times> 'a io_scheme" where
  "get_socket_fd_poll \<equiv> get_socket_fd print_errno_poll"

definition kPollSize :: nat where "kPollSize = 2048"
definition POLLIN :: int where "POLLIN = 1"

record poll_server = server +
  pollset :: "int list"

fun poll_fill :: "nat \<Rightarrow> int list \<Rightarrow> int list \<Rightarrow> (nat \<times> int list) result" where
  "poll_fill index [] arr = Inr (index, arr)"
| "poll_fill index (socket # sockets) arr =
     (if index < kPollSize then poll_fill (index + 1) sockets (arr[index := socket]) else Inl OutOfBounds)"

fun poll_scan :: "os \<Rightarrow> int list \<Rightarrow> nat list \<Rightarrow> int list \<times> poll_server \<Rightarrow> int list \<times> poll_server" where
  "poll_scan sys rv [] cs = cs"
| "poll_scan sys rv (i # is) cs =
     (let cs = (if rv ! i AND POLLIN \<noteq> 0 then echo_or_close sys (pollset (snd cs) ! i) cs else cs);
          (closed_sockets, s) = cs
      in poll_scan sys rv is (closed_sockets, s\<lparr>pollset := (pollset s)[i := -1]\<rparr>))"

definition poll_iteration :: "os \<Rightarrow> int \<Rightarrow> poll_server \<Rightarrow> progress \<times> poll_server" where
  "poll_iteration sys server_socket s =
     (case poll_fill 1 (open_sockets s) (pollset s) of
        Inl e \<Rightarrow> (Undefined e, s)
      | Inr (set_size, arr) \<Rightarrow>
          let s = s\<lparr>pollset := arr\<rparr>;
              (r, s) = call sys (Poll (take set_size arr)) s in
          if ret r = ERROR then
            if errno s = EAGAIN then (Next, s)
            else (Exited 0, print_errno_poll ''Server: Failure during poll'' s)
          else
            let (closed_sockets, s) = poll_scan sys (revents r) [1..<set_size] ([], s) in
            accept_if_ready sys server_socket (revents r ! 0 AND POLLIN \<noteq> 0) (erase_closed closed_sockets s))"

definition poll_main :: "os \<Rightarrow> nat \<Rightarrow> poll_server \<Rightarrow> progress \<times> poll_server" where
  "poll_main sys n s =
     (case open_server (initialize_addr_info_poll sys) (get_socket_fd_poll sys) s of
        (Inl p, s) \<Rightarrow> (p, s)
      | (Inr server_socket, s) \<Rightarrow>
          let (_, s) = set_nonblock_poll sys server_socket s;
              (r, s) = call sys (Listen server_socket SOMAXCONN) s in
          if ret r = ERROR then (Exited (-1), print_errno_poll (listen_message server_socket) s)
          else server_loop (poll_iteration sys server_socket) n
            (s\<lparr>open_sockets := [], pollset := (pollset s)[0 := server_socket]\<rparr>))"

section \<open>Which descriptors are in use\<close>

lemma same_more:
  fixes w w' :: "'a server_scheme"
  assumes "io.more w' = io.more w"
  shows "open_sockets w' = open_sockets w"
  using assms by (cases w; cases w') simp

lemma same_more_poll:
  fixes w w' :: "'a poll_server_scheme"
  assumes "io.more w' = io.more w"
  shows "pollset w' = pollset w"
  using assms by (cases w; cases w') simp

lemma updates_history [simp]:
  fixes s :: "'a server_scheme" and p :: "'a poll_server_scheme"
  shows "history (s\<lparr>open_sockets := x\<rparr>) = history s" "history (p\<lparr>pollset := y\<rparr>) = history p"
  by simp_all

lemma erase_all: "set (fold (\<lambda>k. oset_erase id k) ks xs) = set xs - set ks"
  by (induction ks arbitrary: xs) (auto simp: oset_erase_def)

lemma erase_all_inv: "oset_inv id xs \<Longrightarrow> oset_inv id (fold (\<lambda>k. oset_erase id k) ks xs)"
  by (induction ks arbitrary: xs) (auto simp: oset_inv_erase)

text \<open>While the connections are scanned, the open ones are the known ones that have not been closed.\<close>

definition scanning :: "os \<Rightarrow> int \<Rightarrow> int list \<times> 'a server_scheme \<Rightarrow> bool" where
  "scanning sys server_socket cs \<longleftrightarrow> (case cs of (closed_sockets, s) \<Rightarrow>
     fresh_fds sys \<and> disciplined (history s) \<and> server_socket \<notin> set (open_sockets s) \<and> oset_inv id (open_sockets s) \<and>
     set closed_sockets \<subseteq> set (open_sockets s) \<and>
     live (history s) = insert server_socket (set (open_sockets s) - set closed_sockets))"

definition serving :: "os \<Rightarrow> int \<Rightarrow> 'a server_scheme \<Rightarrow> bool" where
  "serving sys server_socket s \<longleftrightarrow> scanning sys server_socket ([], s)"

lemma echo_or_close_scanning:
  fixes s :: "'a server_scheme"
  assumes "scanning sys srv (closed, s)" "socket \<in> set (open_sockets s)" "socket \<notin> set closed"
    and "echo_or_close sys socket (closed, s) = (closed', s')"
  shows "scanning sys srv (closed', s') \<and> io.more s' = io.more s \<and> set closed' \<subseteq> insert socket (set closed)"
proof -
  obtain ok s1 where e: "echo print_errno EAGAIN sys socket s = (ok, s1)" by fastforce
  note l = echo_live [OF quiet_print_errno e]
  note o1 = same_more [OF l(2)]
  show ?thesis
  proof (cases ok)
    case True
    with assms(4) e have "closed' = closed" "s' = s1" by (auto simp: echo_or_close_def)
    with assms(1-3) l o1 show ?thesis by (auto simp: scanning_def)
  next
    case False
    define s2 where "s2 = snd (call sys (Close socket) s1)"
    have c: "closed' = closed @ [socket]" "s' = s2"
      using False assms(4) e by (auto simp: echo_or_close_def s2_def call_def Let_def)
    have s2: "io.more s2 = io.more s" "live (history s2) = live (history s) - {socket}"
      "disciplined (history s2)"
      using l assms(1-3) by (auto simp: s2_def scanning_def)
    have "socket \<noteq> srv" using assms(1,2) by (auto simp: scanning_def)
    with c s2 same_more [OF s2(1)] assms(1-3) show ?thesis by (auto simp: scanning_def)
  qed
qed

lemma accept_serving:
  fixes s :: "'a server_scheme"
  assumes "serving sys srv s" "accept_new_connection sys srv s = (fd, s')"
  shows "serving sys srv s'"
proof -
  define r where "r = sys (history s) (Accept srv)"
  define s1 where "s1 = snd (call sys (Accept srv) s)"
  have o1: "open_sockets s1 = open_sockets s" by (intro same_more) (simp add: s1_def)
  have inv: "fresh_fds sys" "disciplined (history s)" "srv \<notin> set (open_sockets s)" "oset_inv id (open_sockets s)"
    "live (history s) = insert srv (set (open_sockets s))"
    using assms(1) by (auto simp: serving_def scanning_def)
  show ?thesis
  proof (cases "ret r = ERROR")
    case True
    then have "s' = print_errno ''Server: Failed to accept new connection'' s1"
      using assms(2) by (auto simp: accept_new_connection_def call_def Let_def r_def s1_def)
    then show ?thesis using True inv o1 same_more [of s' s]
      by (auto simp: serving_def scanning_def quiet_simps [OF quiet_print_errno] s1_def r_def)
  next
    case False
    obtain k s2 where n: "set_nonblock O_NONBLOCK sys (ret r) s1 = (k, s2)" by fastforce
    note nb = set_nonblock_simps [OF n]
    have new: "ret r \<notin> live (history s)" using fresh_fdsD(2) [OF inv(1)] False by (simp add: r_def)
    have s': "s' = s2\<lparr>open_sockets := oset_insert id (ret r) (open_sockets s2)\<rparr>"
      using False assms(2) n by (auto simp: accept_new_connection_def call_def Let_def r_def s1_def)
    have "live (history s1) = insert (ret r) (live (history s))" "disciplined (history s1)"
      using False inv by (simp_all add: s1_def r_def)
    with nb s' same_more [OF nb(2)] o1 inv new show ?thesis
      by (auto simp: serving_def scanning_def set_oset_insert)
  qed
qed

lemma accept_if_ready_serving:
  "serving sys srv s \<Longrightarrow> accept_if_ready sys srv b s = (p, s') \<Longrightarrow> serving sys srv s'"
  by (auto simp: accept_if_ready_def split: if_splits prod.splits intro: accept_serving)

lemma erase_serving:
  "scanning sys srv (closed, s) \<Longrightarrow> serving sys srv (erase_closed closed s)"
  by (auto simp: scanning_def serving_def erase_closed_def erase_all erase_all_inv)

lemma select_scan_scanning:
  fixes s :: "'a server_scheme"
  assumes "scanning sys srv (closed, s)" "set ss \<subseteq> set (open_sockets s)" "distinct ss" "set ss \<inter> set closed = {}"
    and "select_scan sys ready ss (closed, s) = (closed', s')"
  shows "scanning sys srv (closed', s')"
  using assms
proof (induction ss arbitrary: closed s)
  case (Cons x ss)
  show ?case
  proof (cases "x \<in> set ready")
    case True
    obtain c1 s1 where e: "echo_or_close sys x (closed, s) = (c1, s1)" by fastforce
    note p = echo_or_close_scanning [OF Cons.prems(1) _ _ e]
    have "scanning sys srv (c1, s1)" "io.more s1 = io.more s" "set c1 \<subseteq> insert x (set closed)"
      using p Cons.prems by auto
    moreover have "set ss \<inter> set c1 = {}" "set ss \<subseteq> set (open_sockets s1)" "distinct ss"
      using calculation(3) Cons.prems same_more [OF calculation(2)] by auto
    ultimately show ?thesis using Cons.IH [of c1 s1] Cons.prems(5) True e by simp
  qed (use Cons in auto)
qed simp


lemma serving_distinct: "serving sys srv s \<Longrightarrow> distinct (open_sockets s)"
  by (simp add: serving_def scanning_def oset_inv_def strict_sorted_iff)

text \<open>What happens after the wait, for the descriptors that are ready.\<close>

definition serve_ready :: "os \<Rightarrow> int \<Rightarrow> int list \<Rightarrow> bool \<Rightarrow> 'a server_scheme \<Rightarrow> progress \<times> 'a server_scheme" where
  "serve_ready sys srv ready server_ready s =
     (let (closed, s) = select_scan sys ready (open_sockets s) ([], s) in
      accept_if_ready sys srv server_ready (erase_closed closed s))"

lemma serve_ready_serving:
  assumes "serving sys srv s"
  shows "serving sys srv (snd (serve_ready sys srv ready b s))"
proof -
  obtain closed s1 where scan: "select_scan sys ready (open_sockets s) ([], s) = (closed, s1)" by fastforce
  have "scanning sys srv (closed, s1)"
    using select_scan_scanning [OF _ _ _ _ scan] assms serving_distinct [OF assms] by (simp add: serving_def)
  from accept_if_ready_serving [OF erase_serving [OF this] surjective_pairing] scan show ?thesis
    by (simp add: serve_ready_def)
qed

lemma serving_same:
  fixes s s' :: "'a server_scheme"
  assumes "serving sys srv s" "disciplined (history s')" "live (history s') = live (history s)" "io.more s' = io.more s"
  shows "serving sys srv s'"
  using assms same_more [OF assms(4)] by (simp add: serving_def scanning_def)

lemma FD_SETs_bound:
  "FD_SETs ss fs = (if \<forall>s \<in> set ss. 0 \<le> s \<and> s < FD_SETSIZE then Inr (fs @ ss) else Inl OutOfBounds)"
  by (induction ss arbitrary: fs) (auto simp: FD_SET_def)

lemma select_iteration_serving:
  assumes "serving sys srv s" "select_iteration sys srv s = (p, s')"
  shows "serving sys srv s'"
proof (cases "bindE (FD_SET srv []) (FD_SETs (open_sockets s))")
  case (Inl e)
  then show ?thesis using assms by (simp add: select_iteration_def)
next
  case (Inr set0)
  then have set0: "set0 = srv # open_sockets s"
    by (auto simp: bindE_Inr_iff FD_SET_def FD_SETs_bound split: if_splits)
  let ?c = "Select (get_max_socket srv (open_sockets s) + 1) set0"
  define s1 where "s1 = snd (call sys ?c s)"
  have s1: "serving sys srv s1"
    by (rule serving_same [OF assms(1)]) (use assms(1) set0 in \<open>auto simp: s1_def serving_def scanning_def\<close>)
  have o1: "open_sockets s1 = open_sockets s" by (intro same_more) (simp add: s1_def)
  have "select_iteration sys srv s =
    (let r = sys (history s) ?c in
     if ret r = ERROR then (if errno s1 = EAGAIN then (Next, s1) else (Exited 0, print_errno ''Server: Failure during select'' s1))
     else serve_ready sys srv (fds r) (srv \<in> set (fds r)) s1)"
    using Inr o1 by (simp add: select_iteration_def serve_ready_def s1_def call_def Let_def split: prod.splits)
  moreover have "serving sys srv (print_errno m s1)" for m
    using s1 same_more [of "print_errno m s1" s1]
    by (simp add: serving_def scanning_def quiet_simps [OF quiet_print_errno])
  ultimately have "serving sys srv (snd (select_iteration sys srv s))"
    using s1 serve_ready_serving [OF s1] by (simp add: Let_def)
  then show ?thesis using assms(2) by simp
qed

interpretation select_loop: multiplexer "select_iteration sys srv" "serving sys srv" for sys srv
  by unfold_locales (rule select_iteration_serving)

section \<open>The array of \<open>poll\<close>\<close>

lemma poll_fill_eq:
  assumes "length arr = kPollSize" "i \<le> kPollSize"
  shows "poll_fill i ss arr =
    (if i + length ss \<le> kPollSize then Inr (i + length ss, take i arr @ ss @ drop (i + length ss) arr)
     else Inl OutOfBounds)"
  using assms
proof (induction ss arbitrary: i arr)
  case (Cons x ss)
  show ?case
  proof (cases "i < kPollSize")
    case True
    then have "take (Suc i) (arr[i := x]) = take i arr @ [x]"
      using Cons.prems by (simp add: take_Suc_conv_app_nth)
    then show ?thesis using Cons.IH [of "arr[i := x]" "Suc i"] Cons.prems True by auto
  qed (use Cons.prems in auto)
qed simp

text \<open>The array is not used by the operations on the connections.\<close>

lemma pollset_commute:
  fixes s :: poll_server
  shows "call sys c (s\<lparr>pollset := y\<rparr>) = map_prod id (\<lambda>s. s\<lparr>pollset := y\<rparr>) (call sys c s)"
    and "echo print_errno EAGAIN sys x (s\<lparr>pollset := y\<rparr>) = map_prod id (\<lambda>s. s\<lparr>pollset := y\<rparr>) (echo print_errno EAGAIN sys x s)"
    and "echo_or_close sys x (cl, s\<lparr>pollset := y\<rparr>) = map_prod id (\<lambda>s. s\<lparr>pollset := y\<rparr>) (echo_or_close sys x (cl, s))"
proof -
  show c: "call sys c (s\<lparr>pollset := y\<rparr>) = map_prod id (\<lambda>s. s\<lparr>pollset := y\<rparr>) (call sys c s)" for c and s :: poll_server
    by (simp add: call_def Let_def)
  show e: "echo print_errno EAGAIN sys x (s\<lparr>pollset := y\<rparr>) = map_prod id (\<lambda>s. s\<lparr>pollset := y\<rparr>) (echo print_errno EAGAIN sys x s)"
    for s :: poll_server
    by (simp add: echo_def call_def Let_def print_errno_def print_line_def)
  show "echo_or_close sys x (cl, s\<lparr>pollset := y\<rparr>) = map_prod id (\<lambda>s. s\<lparr>pollset := y\<rparr>) (echo_or_close sys x (cl, s))"
    by (simp add: echo_or_close_def e c Let_def split: prod.splits)
qed

lemma select_scan_pollset:
  fixes s :: poll_server
  shows "select_scan sys ready ss (cl, s\<lparr>pollset := y\<rparr>) =
    map_prod id (\<lambda>s. s\<lparr>pollset := y\<rparr>) (select_scan sys ready ss (cl, s))"
proof (induction ss arbitrary: cl s)
  case (Cons x ss)
  then show ?case by (cases "echo_or_close sys x (cl, s)") (auto simp: pollset_commute)
qed simp

lemma echo_or_close_pollset:
  fixes s :: poll_server
  shows "echo_or_close sys x (cl, s) = (cl', s') \<Longrightarrow> pollset s' = pollset s"
  using echo_live(2) [OF quiet_print_errno]
  by (auto simp: echo_or_close_def call_def Let_def split: prod.splits if_splits intro!: same_more_poll)

lemma select_scan_cong:
  "(\<And>x. x \<in> set ss \<Longrightarrow> x \<in> set r \<longleftrightarrow> x \<in> set r') \<Longrightarrow> select_scan sys r ss cs = select_scan sys r' ss cs"
  by (induction ss arbitrary: cs) auto

definition poll_ready :: "int list \<Rightarrow> int list \<Rightarrow> nat list \<Rightarrow> int list" where
  "poll_ready rv arr is = map ((!) arr) (filter (\<lambda>i. rv ! i AND POLLIN \<noteq> 0) is)"

lemma poll_scan_eq:
  fixes s :: poll_server
  assumes "distinct is" "inj_on ((!) (pollset s)) (set is)" "0 \<notin> set is"
  shows "\<exists>y. length y = length (pollset s) \<and> y ! 0 = pollset s ! 0 \<and>
    poll_scan sys rv is (cl, s) = map_prod id (\<lambda>s. s\<lparr>pollset := y\<rparr>)
      (select_scan sys (poll_ready rv (pollset s) is) (map ((!) (pollset s)) is) (cl, s))"
  using assms
proof (induction "is" arbitrary: cl s)
  case Nil
  show ?case by (intro exI [of _ "pollset s"]) (simp add: poll_ready_def)
next
  case (Cons i "is")
  let ?arr = "pollset s" and ?x = "pollset s ! i" and ?b = "rv ! i AND POLLIN \<noteq> 0"
  obtain cl1 s1 where cs1: "(if ?b then echo_or_close sys ?x (cl, s) else (cl, s)) = (cl1, s1)" by fastforce
  have s1: "pollset s1 = ?arr" using cs1 echo_or_close_pollset by (auto split: if_splits)
  define s2 where "s2 = s1\<lparr>pollset := ?arr[i := -1]\<rparr>"
  have s2: "pollset s2 ! j = ?arr ! j" if "j \<in> set is" for j
    using that Cons.prems(1) by (auto simp: s2_def intro!: nth_list_update_neq)
  then have inj: "inj_on ((!) (pollset s2)) (set is)"
    using Cons.prems(2) by (auto simp: inj_on_def)
  have len: "length (pollset s2) = length ?arr" "pollset s2 ! 0 = ?arr ! 0"
    using Cons.prems(3) by (simp_all add: s2_def)
  have "distinct is" "0 \<notin> set is" using Cons.prems by auto
  from Cons.IH [OF this(1) inj this(2), of cl1] obtain y where
    y: "length y = length (pollset s2)" "y ! 0 = pollset s2 ! 0"
    "poll_scan sys rv is (cl1, s2) = map_prod id (\<lambda>s. s\<lparr>pollset := y\<rparr>)
      (select_scan sys (poll_ready rv (pollset s2) is) (map ((!) (pollset s2)) is) (cl1, s2))"
    by blast
  have same: "poll_ready rv (pollset s2) is = poll_ready rv ?arr is" "map ((!) (pollset s2)) is = map ((!) ?arr) is"
    using s2 by (auto simp: poll_ready_def)
  have member: "?x \<in> set (poll_ready rv ?arr (i # is)) \<longleftrightarrow> ?b"
    using Cons.prems(1,2) by (auto simp: poll_ready_def inj_on_def)
  have "poll_scan sys rv (i # is) (cl, s) = poll_scan sys rv is (cl1, s2)"
    using cs1 s1 by (cases ?b) (auto simp: s2_def Let_def)
  also have "\<dots> = map_prod id (\<lambda>s. s\<lparr>pollset := y\<rparr>) (select_scan sys (poll_ready rv ?arr is) (map ((!) ?arr) is) (cl1, s1))"
    unfolding y(3) same
    by (cases "select_scan sys (poll_ready rv ?arr is) (map ((!) ?arr) is) (cl1, s1)")
       (simp add: s2_def select_scan_pollset)
  also have "select_scan sys (poll_ready rv ?arr is) (map ((!) ?arr) is) (cl1, s1) =
    select_scan sys (poll_ready rv ?arr (i # is)) (map ((!) ?arr) is) (cl1, s1)"
    using Cons.prems by (intro select_scan_cong) (auto simp: poll_ready_def inj_on_def)
  also have "\<dots> = select_scan sys (poll_ready rv ?arr (i # is)) (map ((!) ?arr) (i # is)) (cl, s)"
    using cs1 member by simp
  finally show ?case using y(1,2) len by auto
qed

text \<open>The array holds the server's socket first.\<close>

definition polling :: "os \<Rightarrow> int \<Rightarrow> poll_server \<Rightarrow> bool" where
  "polling sys srv s \<longleftrightarrow> serving sys srv s \<and> length (pollset s) = kPollSize \<and> pollset s ! 0 = srv"

lemma accept_if_ready_pollset:
  fixes s :: poll_server
  shows "accept_if_ready sys srv b (erase_closed cl (s\<lparr>pollset := y\<rparr>)) =
    map_prod id (\<lambda>s. s\<lparr>pollset := y\<rparr>) (accept_if_ready sys srv b (erase_closed cl s))"
  by (simp add: accept_if_ready_def erase_closed_def accept_new_connection_def set_nonblock_def call_def Let_def
      print_errno_def print_line_def)

text \<open>The connections whose entry of \<open>revents\<close> has \<open>POLLIN\<close>; entry 0 is the server's.\<close>

definition ready_connections :: "int \<Rightarrow> int list \<Rightarrow> int list \<Rightarrow> int list" where
  "ready_connections srv ss rv = poll_ready rv (srv # ss) [1..<length ss + 1]"

lemma poll_array:
  assumes "length arr = kPollSize" "arr ! 0 = srv" "length ss < kPollSize"
  shows "poll_fill 1 ss arr = Inr (length ss + 1, srv # ss @ drop (length ss + 1) arr)"
    and "length (srv # ss @ drop (length ss + 1) arr) = kPollSize"
  using assms poll_fill_eq [of arr 1 ss]
  by (auto simp: kPollSize_def take_Suc_conv_app_nth)

lemma poll_iteration_eq:
  fixes s :: poll_server
  assumes "polling sys srv s" "length (open_sockets s) < kPollSize"
  defines "z \<equiv> srv # open_sockets s @ drop (length (open_sockets s) + 1) (pollset s)"
  shows "\<exists>y. length y = kPollSize \<and> y ! 0 = srv \<and>
    poll_iteration sys srv s =
      (let (r, s1) = call sys (Poll (srv # open_sockets s)) (s\<lparr>pollset := z\<rparr>) in
       if ret r = ERROR then (if errno s1 = EAGAIN then (Next, s1) else (Exited 0, print_errno_poll ''Server: Failure during poll'' s1))
       else map_prod id (\<lambda>s. s\<lparr>pollset := y\<rparr>)
         (serve_ready sys srv (ready_connections srv (open_sockets s) (revents r)) (revents r ! 0 AND POLLIN \<noteq> 0) s1))"
proof -
  let ?ss = "open_sockets s"
  define idx where "idx = [1..<length ?ss + 1]"
  note arr = poll_array [of "pollset s" srv ?ss, folded z_def]
  have z: "poll_fill 1 ?ss (pollset s) = Inr (length ?ss + 1, z)" "length z = kPollSize"
    using arr assms(1,2) by (auto simp: polling_def)
  have take_z: "take (length ?ss + 1) z = srv # ?ss" by (simp add: z_def)
  have nth_z: "z ! i = (srv # ?ss) ! i" if "i < length ?ss + 1" for i
    using that by (cases i) (simp_all add: z_def nth_append)
  define r where "r = sys (history s) (Poll (srv # ?ss))"
  define s1 where "s1 = snd (call sys (Poll (srv # ?ss)) (s\<lparr>pollset := z\<rparr>))"
  have poll_call: "call sys (Poll (srv # ?ss)) (s\<lparr>pollset := z\<rparr>) = (r, s1)"
    by (simp add: prod_eq_iff r_def s1_def)
  have s1: "pollset s1 = z" "open_sockets s1 = ?ss"
    using same_more_poll [of s1 "s\<lparr>pollset := z\<rparr>"] same_more [of s1 "s\<lparr>pollset := z\<rparr>"] by (simp_all add: s1_def)
  have "idx = map Suc [0..<length ?ss]" by (simp add: idx_def map_Suc_upt)
  then have mapped: "map ((!) z) idx = ?ss"
    by (intro nth_equalityI) (simp_all add: z_def nth_append del: upt_Suc)
  have "inj_on ((!) z) (set idx)"
    using serving_distinct [of sys srv s] assms(1) mapped by (metis distinct_map polling_def)
  moreover have "distinct idx" "0 \<notin> set idx" by (auto simp: idx_def)
  ultimately obtain y where y: "length y = length z" "y ! 0 = z ! 0"
    "poll_scan sys (revents r) idx ([], s1) = map_prod id (\<lambda>s. s\<lparr>pollset := y\<rparr>)
      (select_scan sys (poll_ready (revents r) z idx) ?ss ([], s1))"
    using poll_scan_eq [of idx s1 sys "revents r" "[]"] unfolding s1(1) mapped by blast
  have y': "length y = kPollSize" "y ! 0 = srv" using y(1,2) z(2) by (simp_all add: z_def)
  have ready: "poll_ready (revents r) z idx = ready_connections srv ?ss (revents r)"
    using nth_z by (auto simp: ready_connections_def poll_ready_def idx_def simp del: upt_Suc)
  have "poll_iteration sys srv s =
    (if ret r = ERROR then (if errno s1 = EAGAIN then (Next, s1) else (Exited 0, print_errno_poll ''Server: Failure during poll'' s1))
     else let (cl, s') = poll_scan sys (revents r) idx ([], s1) in
       accept_if_ready sys srv (revents r ! 0 AND POLLIN \<noteq> 0) (erase_closed cl s'))"
    using z(1) take_z by (simp add: poll_iteration_def r_def s1_def call_def Let_def idx_def del: upt_Suc)
  then have "poll_iteration sys srv s =
    (let (r, s1) = call sys (Poll (srv # open_sockets s)) (s\<lparr>pollset := z\<rparr>) in
       if ret r = ERROR then (if errno s1 = EAGAIN then (Next, s1) else (Exited 0, print_errno_poll ''Server: Failure during poll'' s1))
       else map_prod id (\<lambda>s. s\<lparr>pollset := y\<rparr>)
         (serve_ready sys srv (ready_connections srv (open_sockets s) (revents r)) (revents r ! 0 AND POLLIN \<noteq> 0) s1))"
    unfolding y(3) ready poll_call
    by (cases "select_scan sys (ready_connections srv ?ss (revents r)) ?ss ([], s1)")
       (simp add: serve_ready_def s1 accept_if_ready_pollset)
  with y' show ?thesis by blast
qed

lemma polling_same:
  fixes s s' :: poll_server
  assumes "polling sys srv s" "disciplined (history s')" "live (history s') = live (history s)"
    and "open_sockets s' = open_sockets s" "length (pollset s') = kPollSize" "pollset s' ! 0 = srv"
  shows "polling sys srv s'"
  using assms by (simp add: polling_def serving_def scanning_def)

lemma serve_ready_pollset:
  assumes "serving sys srv s" "length y = kPollSize" "y ! 0 = srv"
  shows "polling sys srv (snd (map_prod id (\<lambda>s. s\<lparr>pollset := y\<rparr>) (serve_ready sys srv ready b s)))"
  using serve_ready_serving [OF assms(1), of ready b] assms(2,3)
  by (cases "serve_ready sys srv ready b s") (simp add: polling_def serving_def scanning_def)

lemma poll_iteration_polling:
  assumes "polling sys srv s" "poll_iteration sys srv s = (p, s')"
  shows "polling sys srv s'"
proof (cases "length (open_sockets s) < kPollSize")
  case False
  then have "poll_fill 1 (open_sockets s) (pollset s) = Inl OutOfBounds"
    using assms(1) poll_fill_eq [of "pollset s" 1] by (simp add: polling_def kPollSize_def)
  then show ?thesis using assms by (simp add: poll_iteration_def)
next
  case True
  define z where "z = srv # open_sockets s @ drop (length (open_sockets s) + 1) (pollset s)"
  define s1 where "s1 = snd (call sys (Poll (srv # open_sockets s)) (s\<lparr>pollset := z\<rparr>))"
  have len: "length z = kPollSize" "z ! 0 = srv"
    using assms(1) True by (simp_all add: z_def polling_def)
  have o1: "open_sockets s1 = open_sockets s" "pollset s1 = z"
    using same_more [of s1 "s\<lparr>pollset := z\<rparr>"] same_more_poll [of s1 "s\<lparr>pollset := z\<rparr>"] by (simp_all add: s1_def)
  have s1: "polling sys srv s1"
    by (rule polling_same [OF assms(1)])
       (use assms(1) o1 len in \<open>auto simp: polling_def serving_def scanning_def s1_def\<close>)
  have print: "polling sys srv (print_errno m s1)" for m
    using s1 o1 same_more [of "print_errno m s1" s1] same_more_poll [of "print_errno m s1" s1]
    by (simp add: polling_def serving_def scanning_def quiet_simps [OF quiet_print_errno])
  from poll_iteration_eq [OF assms(1) True, folded z_def] obtain y where
    y: "length y = kPollSize" "y ! 0 = srv"
    "poll_iteration sys srv s =
      (let (r, s1) = call sys (Poll (srv # open_sockets s)) (s\<lparr>pollset := z\<rparr>) in
       if ret r = ERROR then (if errno s1 = EAGAIN then (Next, s1) else (Exited 0, print_errno_poll ''Server: Failure during poll'' s1))
       else map_prod id (\<lambda>s. s\<lparr>pollset := y\<rparr>)
         (serve_ready sys srv (ready_connections srv (open_sockets s) (revents r)) (revents r ! 0 AND POLLIN \<noteq> 0) s1))"
    by blast
  have "polling sys srv (snd (poll_iteration sys srv s))"
    unfolding y(3) using s1 print serve_ready_pollset [OF _ y(1,2), of sys s1]
    by (cases "call sys (Poll (srv # open_sockets s)) (s\<lparr>pollset := z\<rparr>)") (auto simp: s1_def polling_def)
  then show ?thesis using assms(2) by simp
qed

interpretation poll_loop: multiplexer "poll_iteration sys srv" "polling sys srv" for sys srv
  by unfold_locales (rule poll_iteration_polling)

section \<open>Properties\<close>

text \<open>A server that has just opened descriptor 3.\<close>

definition sample_server :: server where
  "sample_server = \<lparr>history = [(Socket \<lparr>ai_family = 2, ai_socktype = 1, ai_protocol = 6, ai_addr = []\<rparr>, no_reply\<lparr>ret := 3\<rparr>)],
     errno = 0, cerr = [], buffer = replicate kBufferSize 0, open_sockets = []\<rparr>"

lemma open_server_start:
  assumes "quiet perr" "fresh_fds sys" "live (history s) = {}" "disciplined (history s)"
    and "open_server (initialize_addr_info sys port) (get_socket_fd perr sys) s = (res, s')"
  shows "disciplined (history s') \<and> io.more s' = io.more s \<and> (\<forall>fd. res = Inr fd \<longrightarrow>
      (bound fd (history s') \<and> live (history s') = {fd}) \<or> (closed_last fd (history s') \<and> live (history s') = {}))"
proof -
  define r where "r = sys (history s) (Getaddrinfo port)"
  define s1 where "s1 = snd (call sys (Getaddrinfo port) s)"
  have s1: "live (history s1) = {}" "disciplined (history s1)" "io.more s1 = io.more s"
    using assms(3,4) by (simp_all add: s1_def)
  show ?thesis
  proof (cases "ret r = 0")
    case True
    obtain f s2 where loop: "socket_loop perr sys (addrs r) ERROR s1 = (f, s2)" by fastforce
    note res = socket_loop_result [OF assms(1,2) loop s1(1,2)]
    have "history s' = history s2" "io.more s' = io.more s2" "res = (case f of None \<Rightarrow> Inl (Exited (-1)) | Some fd \<Rightarrow>
        if fd = ERROR then Inl (Exited (-1)) else Inr fd)"
      using assms(5) True loop
      by (auto simp: open_server_def initialize_addr_info_def get_socket_fd_def r_def s1_def ERROR_def call_def Let_def
          split: option.splits if_splits)
    with res s1(3) show ?thesis by (auto split: option.splits if_splits)
  next
    case False
    then have "history s' = history s1" "io.more s' = io.more s1" "\<exists>p. res = Inl p"
      using assms(5)
      by (auto simp: open_server_def initialize_addr_info_def r_def s1_def call_def Let_def split: if_splits)
    then show ?thesis using s1 by auto
  qed
qed

definition sample_poll_os :: os where
  "sample_poll_os = sample_os (\<lambda>h c. no_reply\<lparr>ret := 2, bytes := [104, 105], revents := [0, 1]\<rparr>)"

definition sample_poll :: poll_server where
  "sample_poll = \<lparr>history = [(Accept 3, no_reply\<lparr>ret := 4\<rparr>),
       (Socket \<lparr>ai_family = 2, ai_socktype = 1, ai_protocol = 6, ai_addr = []\<rparr>, no_reply\<lparr>ret := 3\<rparr>)],
     errno = 0, cerr = [], buffer = replicate kBufferSize 0, open_sockets = [4], pollset = 3 # replicate 2047 0\<rparr>"

text \<open>
  Property C22. Started with a socket whose \<open>bind\<close> has succeeded, the server on \<open>select\<close>
  never, in any number of iterations and whatever the calls return, works on a descriptor that is
  not open; and its set of connections is at every iteration exactly the set of the open
  descriptors apart from the listening one: no connection is leaked, and none is closed twice.
\<close>

theorem select_server_disciplined:
  assumes "fresh_fds sys" "live (history s) = {srv}" "disciplined (history s)" "open_sockets s = []"
    and "server_loop (select_iteration sys srv) n s = (p, s')"
  shows "disciplined (history s') \<and> live (history s') = insert srv (set (open_sockets s')) \<and>
    srv \<notin> set (open_sockets s') \<and> sorted_wrt (<) (open_sockets s')"
proof -
  have "serving sys srv s" using assms(1-4) by (simp add: serving_def scanning_def oset_inv_def)
  from select_loop.served_loop [OF this assms(5)] show ?thesis
    by (simp add: serving_def scanning_def oset_inv_def)
qed

theorem select_server_disciplined_witness:
  "\<exists>s'. server_loop (select_iteration (sample_os (\<lambda>h c. no_reply\<lparr>ret := 1, fds := [3]\<rparr>)) 3) 1 sample_server = (Next, s') \<and>
     live (history s') = {3, 4} \<and> disciplined (history s')"
proof -
  let ?sys = "sample_os (\<lambda>h c. no_reply\<lparr>ret := 1, fds := [3]\<rparr>)"
  obtain s' where s': "server_loop (select_iteration ?sys 3) 1 sample_server = (Next, s')" "open_sockets s' = [4]"
    by (simp add: select_iteration_def sample_server_def FD_SET_def FD_SETSIZE_def call_def Let_def sample_os_def
        no_reply_def ERROR_def accept_if_ready_def accept_new_connection_def erase_closed_def set_nonblock_def)
  have "live (history sample_server) = {3}" "disciplined (history sample_server)" "open_sockets sample_server = []"
    by (simp_all add: sample_server_def no_reply_def ERROR_def)
  from select_server_disciplined [OF fresh_sample_os this s'(1)] s' show ?thesis by auto
qed

text \<open>
  Property C23. As long as its array has room, an iteration of the server on \<open>poll\<close> is: the
  \<open>poll\<close> call on the listening socket and all connections in ascending order, then exactly what
  the server on \<open>select\<close> does when the connections with \<open>POLLIN\<close> are ready, up to the contents
  of the array, whose first entry stays the listening socket.
\<close>

theorem poll_iteration_like_select:
  assumes "fresh_fds sys" "disciplined (history s)" "live (history s) = insert srv (set (open_sockets s))"
    and "srv \<notin> set (open_sockets s)" "sorted_wrt (<) (open_sockets s)"
    and "length (pollset s) = kPollSize" "pollset s ! 0 = srv" "length (open_sockets s) < kPollSize"
  shows "\<exists>y z. length y = kPollSize \<and> y ! 0 = srv \<and>
    poll_iteration sys srv s =
      (let (r, s1) = call sys (Poll (srv # open_sockets s)) (s\<lparr>pollset := z\<rparr>) in
       if ret r = ERROR then (if errno s1 = EAGAIN then (Next, s1) else (Exited 0, print_errno_poll ''Server: Failure during poll'' s1))
       else map_prod id (\<lambda>s. s\<lparr>pollset := y\<rparr>)
         (let (closed, s2) = select_scan sys (ready_connections srv (open_sockets s) (revents r)) (open_sockets s) ([], s1) in
          accept_if_ready sys srv (revents r ! 0 AND POLLIN \<noteq> 0) (erase_closed closed s2)))"
proof -
  have "polling sys srv s" using assms by (simp add: polling_def serving_def scanning_def oset_inv_def)
  from poll_iteration_eq [OF this assms(8)] obtain y z where yz: "length y = kPollSize" "y ! 0 = srv"
    "poll_iteration sys srv s =
      (let (r, s1) = call sys (Poll (srv # open_sockets s)) (s\<lparr>pollset := z\<rparr>) in
       if ret r = ERROR then (if errno s1 = EAGAIN then (Next, s1) else (Exited 0, print_errno_poll ''Server: Failure during poll'' s1))
       else map_prod id (\<lambda>s. s\<lparr>pollset := y\<rparr>)
         (serve_ready sys srv (ready_connections srv (open_sockets s) (revents r)) (revents r ! 0 AND POLLIN \<noteq> 0) s1))"
    by blast
  have "open_sockets (snd (call sys (Poll (srv # open_sockets s)) (s\<lparr>pollset := z\<rparr>))) = open_sockets s"
    using same_more [of "snd (call sys (Poll (srv # open_sockets s)) (s\<lparr>pollset := z\<rparr>))" "s\<lparr>pollset := z\<rparr>"] by simp
  then show ?thesis
    using yz(1,2) unfolding yz(3)
    by (intro exI [of _ y] exI [of _ z])
       (cases "call sys (Poll (srv # open_sockets s)) (s\<lparr>pollset := z\<rparr>)", simp add: serve_ready_def)
qed

theorem poll_iteration_like_select_witness:
  "map fst (take 3 (history (snd (poll_iteration sample_poll_os 3 sample_poll)))) =
   [Send 4 2 [104, 105], Recv 4 1024, Poll [3, 4]]"
proof -
  have pre: "fresh_fds sample_poll_os" "disciplined (history sample_poll)"
    "live (history sample_poll) = insert 3 (set (open_sockets sample_poll))" "3 \<notin> set (open_sockets sample_poll)"
    "sorted_wrt (<) (open_sockets sample_poll)" "length (pollset sample_poll) = kPollSize"
    "pollset sample_poll ! 0 = 3" "length (open_sockets sample_poll) < kPollSize"
    by (auto simp: sample_poll_def sample_poll_os_def no_reply_def ERROR_def kPollSize_def)
  obtain y z where eq: "poll_iteration sample_poll_os 3 sample_poll =
      (let (r, s1) = call sample_poll_os (Poll (3 # open_sockets sample_poll)) (sample_poll\<lparr>pollset := z\<rparr>) in
       if ret r = ERROR then (if errno s1 = EAGAIN then (Next, s1) else (Exited 0, print_errno_poll ''Server: Failure during poll'' s1))
       else map_prod id (\<lambda>s. s\<lparr>pollset := y\<rparr>)
         (let (closed, s2) = select_scan sample_poll_os (ready_connections 3 (open_sockets sample_poll) (revents r))
                (open_sockets sample_poll) ([], s1) in
          accept_if_ready sample_poll_os 3 (revents r ! 0 AND POLLIN \<noteq> 0) (erase_closed closed s2)))"
    using poll_iteration_like_select [OF pre] by blast
  show ?thesis
    unfolding eq
    by (simp add: sample_poll_def call_def Let_def sample_poll_os_def sample_os_def no_reply_def ERROR_def
        ready_connections_def poll_ready_def POLLIN_def echo_or_close_def echo_def kBufferSize_def to_size_def
        accept_if_ready_def erase_closed_def)
qed

text \<open>
  Property C24. The capacity: with the connections in order, an iteration on \<open>select\<close> writes
  outside its \<open>fd_set\<close> exactly when a descriptor is 1024 or larger, and one on \<open>poll\<close> outside its
  array exactly when there are 2048 connections or more; neither server limits what it accepts.
\<close>

theorem server_capacity:
  assumes "0 \<le> srv" "\<forall>fd \<in> set (open_sockets s). 0 \<le> fd"
    and "length (pollset t) = kPollSize"
  shows "(fst (select_iteration sys srv s) = Undefined OutOfBounds \<longleftrightarrow> (\<exists>fd \<in> insert srv (set (open_sockets s)). 1024 \<le> fd)) \<and>
    (fst (poll_iteration sys srv t) = Undefined OutOfBounds \<longleftrightarrow> 2048 \<le> length (open_sockets t))"
proof -
  have no: "fst (accept_if_ready sys srv b s) \<noteq> Undefined e" for b e and s :: "'a server_scheme"
    by (simp add: accept_if_ready_def split: prod.splits)
  have "fst (select_iteration sys srv s) = Undefined OutOfBounds \<longleftrightarrow>
      (\<exists>e. bindE (FD_SET srv []) (FD_SETs (open_sockets s)) = Inl e)"
  proof (cases "bindE (FD_SET srv []) (FD_SETs (open_sockets s))")
    case (Inl e)
    then have "e = OutOfBounds" by (auto simp: FD_SET_def FD_SETs_bound bindE_Inl_iff split: if_splits)
    with Inl show ?thesis by (simp add: select_iteration_def)
  next
    case (Inr x)
    then show ?thesis using no by (auto simp: select_iteration_def Let_def split: prod.splits)
  qed
  also have "\<dots> \<longleftrightarrow> (\<exists>fd \<in> insert srv (set (open_sockets s)). 1024 \<le> fd)"
    using assms(1,2)
    by (auto simp: FD_SET_def FD_SETs_bound bindE_Inl_iff FD_SETSIZE_def not_less not_le split: if_splits)
  finally have sel: "fst (select_iteration sys srv s) = Undefined OutOfBounds \<longleftrightarrow>
    (\<exists>fd \<in> insert srv (set (open_sockets s)). 1024 \<le> fd)" .
  have "fst (poll_iteration sys srv t) = Undefined OutOfBounds \<longleftrightarrow> 2048 \<le> length (open_sockets t)"
    using poll_fill_eq [OF assms(3), of 1 "open_sockets t"] no
    by (auto simp: poll_iteration_def kPollSize_def Let_def split: prod.splits)
  with sel show ?thesis by blast
qed

theorem server_capacity_witness:
  "fst (select_iteration sample_poll_os 3 (sample_server\<lparr>open_sockets := [4, 1024]\<rparr>)) = Undefined OutOfBounds"
proof -
  let ?s = "sample_server\<lparr>open_sockets := [4, 1024]\<rparr>"
  have "\<forall>fd \<in> set (open_sockets ?s). 0 \<le> fd" "length (pollset sample_poll) = kPollSize" "(0 :: int) \<le> 3"
    by (simp_all add: sample_server_def sample_poll_def kPollSize_def)
  from server_capacity [OF this(3,1,2), of sample_poll_os] show ?thesis by simp
qed

end
