(* ===== verification/Epoll_Kqueue.thy ===== *)
theory Epoll_Kqueue
  imports Net_Common
begin

text \<open>
  \<open>sockets_multiplexing/echo_server_epoll.cpp\<close>, \<open>echo_server_kqueue.cpp\<close> and
  \<open>echo_server_kqueue_single_socket.cpp\<close>: the servers whose connections are registered with the
  system. What a wait delivers are pairs of a descriptor and its mask of events or its filter.
\<close>

section \<open>The server on \<open>epoll\<close>\<close>

definition EPOLLERR :: int where "EPOLLERR = 8"
definition EPOLLHUP :: int where "EPOLLHUP = 16"
definition kEventsSize :: nat where "kEventsSize = 4096"

definition print_errno_epoll :: "string \<Rightarrow> 'a io_scheme \<Rightarrow> 'a io_scheme" where
  "print_errno_epoll message w = print_line (message @ '': '' @ to_string (errno w)) w"

text \<open>The other helpers have the text of those of the server on \<open>select\<close>, with another port.\<close>

abbreviation set_nonblock_epoll :: "os \<Rightarrow> int \<Rightarrow> io \<Rightarrow> int \<times> io" where
  "set_nonblock_epoll \<equiv> set_nonblock O_NONBLOCK"

abbreviation initialize_addr_info_epoll :: "os \<Rightarrow> io \<Rightarrow> addrinfo list option result \<times> io" where
  "initialize_addr_info_epoll sys \<equiv> initialize_addr_info sys ''12347''"

abbreviation get_socket_fd_epoll :: "os \<Rightarrow> addrinfo list \<Rightarrow> io \<Rightarrow> int \<times> io" where
  "get_socket_fd_epoll \<equiv> get_socket_fd print_errno_epoll"

abbreviation echo_epoll :: "os \<Rightarrow> int \<Rightarrow> io \<Rightarrow> bool \<times> io" where
  "echo_epoll \<equiv> echo print_errno_epoll EAGAIN"

definition add_new_connection_epoll :: "os \<Rightarrow> int \<Rightarrow> int \<Rightarrow> io \<Rightarrow> int \<times> io" where
  "add_new_connection_epoll sys socket epoll w =
     (let (_, w) = set_nonblock_epoll sys socket w;
          (r, w) = call sys (EpollAdd epoll socket) w in
      if ret r = ERROR then
        (ERROR, print_errno_epoll (''Server: Failed to add the socket '' @ to_string socket @
                                   '' to the epoll '' @ to_string epoll) w)
      else (socket, w))"

definition accept_new_connection_epoll :: "os \<Rightarrow> int \<Rightarrow> int \<Rightarrow> io \<Rightarrow> io" where
  "accept_new_connection_epoll sys server_socket epoll w =
     (let (r, w) = call sys (Accept server_socket) w; new_socket = ret r in
      if new_socket \<noteq> ERROR then snd (add_new_connection_epoll sys new_socket epoll w)
      else print_errno_epoll ''Server: Failed to accept new connection'' w)"

text \<open>The body of the loop over the events; after an error the connection is closed and used again.\<close>

definition epoll_event :: "os \<Rightarrow> int \<Rightarrow> int \<Rightarrow> int \<times> int \<Rightarrow> io \<Rightarrow> progress \<times> io" where
  "epoll_event sys server_socket epoll event w =
     (let (socket, events) = event;
          bad = (events AND EPOLLERR \<noteq> 0 \<or> events AND EPOLLHUP \<noteq> 0);
          w = (if bad then snd (call sys (Close socket) w) else w) in
      if bad \<and> socket = server_socket then (Exited (-1), print_line ''Server socket was closed'' w)
      else if socket = server_socket then (Next, accept_new_connection_epoll sys server_socket epoll w)
      else
        let (ok, w) = echo_epoll sys socket w in
        (Next, if \<not> ok then snd (call sys (Close socket) w) else w))"

fun epoll_events :: "os \<Rightarrow> int \<Rightarrow> int \<Rightarrow> (int \<times> int) list \<Rightarrow> io \<Rightarrow> progress \<times> io" where
  "epoll_events sys server_socket epoll [] w = (Next, w)"
| "epoll_events sys server_socket epoll (event # events) w =
     (case epoll_event sys server_socket epoll event w of
        (Next, w) \<Rightarrow> epoll_events sys server_socket epoll events w
      | (p, w) \<Rightarrow> (p, w))"

definition epoll_iteration :: "os \<Rightarrow> int \<Rightarrow> int \<Rightarrow> io \<Rightarrow> progress \<times> io" where
  "epoll_iteration sys server_socket epoll w =
     (let (r, w) = call sys (EpollWait epoll kEventsSize) w; events_number = ret r in
      if events_number = ERROR then (Exited 0, print_errno_epoll ''Server: Failure during epoll wait'' w)
      else epoll_events sys server_socket epoll (take (nat events_number) (occurred r)) w)"

definition epoll_main :: "os \<Rightarrow> nat \<Rightarrow> io \<Rightarrow> progress \<times> io" where
  "epoll_main sys n w =
     (case open_server (initialize_addr_info_epoll sys) (get_socket_fd_epoll sys) w of
        (Inl p, w) \<Rightarrow> (p, w)
      | (Inr server_socket, w) \<Rightarrow>
          let (r, w) = call sys EpollCreate w; epoll = ret r;
              (added, w) = add_new_connection_epoll sys server_socket epoll w in
          if added = ERROR then (Exited (-1), w)
          else
            let (r, w) = call sys (Listen server_socket SOMAXCONN) w in
            if ret r = ERROR then
              (Exited (-1), print_errno_epoll (''Server: Failed to listen the socket '' @ to_string server_socket) w)
            else server_loop (epoll_iteration sys server_socket epoll) n w)"

section \<open>The servers on \<open>kqueue\<close>\<close>

definition EVFILT_READ :: int where "EVFILT_READ = -1"
definition SOMAXCONN_bsd :: int where "SOMAXCONN_bsd = 128"
definition EAGAIN_bsd :: int where "EAGAIN_bsd = 35"
definition O_NONBLOCK_bsd :: int where "O_NONBLOCK_bsd = 4"
definition kMaxEventsNumber :: nat where "kMaxEventsNumber = 128"

text \<open>The helpers of \<open>echo_server_kqueue.cpp\<close>; \<open>add_new_connection\<close> is in both files.\<close>

abbreviation print_errno_kqueue :: "string \<Rightarrow> io \<Rightarrow> io" where
  "print_errno_kqueue \<equiv> print_errno"

abbreviation set_nonblock_kqueue :: "os \<Rightarrow> int \<Rightarrow> io \<Rightarrow> int \<times> io" where
  "set_nonblock_kqueue \<equiv> set_nonblock O_NONBLOCK_bsd"

abbreviation initialize_addr_info_kqueue :: "os \<Rightarrow> io \<Rightarrow> addrinfo list option result \<times> io" where
  "initialize_addr_info_kqueue sys \<equiv> initialize_addr_info sys ''12349''"

abbreviation get_socket_fd_kqueue :: "os \<Rightarrow> addrinfo list \<Rightarrow> io \<Rightarrow> int \<times> io" where
  "get_socket_fd_kqueue \<equiv> get_socket_fd print_errno_kqueue"

abbreviation echo_kqueue :: "os \<Rightarrow> int \<Rightarrow> io \<Rightarrow> bool \<times> io" where
  "echo_kqueue \<equiv> echo print_errno_kqueue EAGAIN_bsd"

definition add_new_connection :: "os \<Rightarrow> int \<Rightarrow> int \<Rightarrow> io \<Rightarrow> int \<times> io" where
  "add_new_connection sys socket queue w =
     (let (_, w) = set_nonblock_kqueue sys socket w;
          (r, w) = call sys (KeventAdd queue [socket]) w in
      if ret r = ERROR then
        (ERROR, print_errno_kqueue (''Server: Failed to add the socket '' @ to_string socket @
                             '' to the Kqueue '' @ to_string queue) w)
      else (socket, w))"

definition accept_new_connection_kqueue :: "os \<Rightarrow> int \<Rightarrow> int list \<Rightarrow> io \<Rightarrow> int list \<times> io" where
  "accept_new_connection_kqueue sys server_socket new_sockets w =
     (let (r, w) = call sys (Accept server_socket) w; new_socket = ret r in
      if new_socket \<noteq> ERROR then
        let (_, w) = set_nonblock_kqueue sys new_socket w in (new_sockets @ [new_socket], w)
      else (new_sockets, print_errno_kqueue ''Server: Failed to accept new connection'' w))"

text \<open>The change list has \<open>kMaxEventsNumber\<close> entries.\<close>

definition add_new_sockets :: "os \<Rightarrow> int \<Rightarrow> int list \<Rightarrow> io \<Rightarrow> int result \<times> io" where
  "add_new_sockets sys queue new_sockets w =
     (if kMaxEventsNumber < length new_sockets then (Inl OutOfBounds, w)
      else
        let (r, w) = call sys (KeventAdd queue new_sockets) w in
        if ret r = ERROR then
          (Inr ERROR, print_errno_kqueue (''Server: Failed to add the sockets to the Kqueue '' @ to_string queue) w)
        else (Inr 0, w))"

definition kqueue_event :: "os \<Rightarrow> int \<Rightarrow> int \<times> int \<Rightarrow> int list \<Rightarrow> io \<Rightarrow> int list \<times> io" where
  "kqueue_event sys server_socket event new_sockets w =
     (let (socket, event_filter) = event in
      if event_filter \<noteq> EVFILT_READ then (new_sockets, w)
      else if socket = server_socket then accept_new_connection_kqueue sys server_socket new_sockets w
      else
        let (ok, w) = echo_kqueue sys socket w in
        (new_sockets, if \<not> ok then snd (call sys (Close socket) w) else w))"

fun kqueue_events :: "os \<Rightarrow> int \<Rightarrow> (int \<times> int) list \<Rightarrow> int list \<Rightarrow> io \<Rightarrow> int list \<times> io" where
  "kqueue_events sys server_socket [] new_sockets w = (new_sockets, w)"
| "kqueue_events sys server_socket (event # events) new_sockets w =
     (let (new_sockets, w) = kqueue_event sys server_socket event new_sockets w in
      kqueue_events sys server_socket events new_sockets w)"

text \<open>What an iteration does with the events it has got.\<close>

definition kqueue_round :: "os \<Rightarrow> int \<Rightarrow> int \<Rightarrow> (int \<times> int) list \<Rightarrow> io \<Rightarrow> progress \<times> io" where
  "kqueue_round sys server_socket queue events w =
     (let (new_sockets, w) = kqueue_events sys server_socket events [] w in
      if new_sockets \<noteq> [] then
        (case add_new_sockets sys queue new_sockets w of
           (Inl e, w) \<Rightarrow> (Undefined e, w)
         | (Inr status, w) \<Rightarrow> (if status = ERROR then Exited 0 else Next, w))
      else (Next, w))"

definition kqueue_iteration :: "os \<Rightarrow> int \<Rightarrow> int \<Rightarrow> io \<Rightarrow> progress \<times> io" where
  "kqueue_iteration sys server_socket queue w =
     (let (r, w) = call sys (KeventWait queue kMaxEventsNumber) w; events_number = ret r in
      if events_number = ERROR then (Exited 0, print_errno_kqueue ''Server: Failure during kevent'' w)
      else kqueue_round sys server_socket queue (take (nat events_number) (occurred r)) w)"

text \<open>The start of \<open>main\<close> in both files.\<close>

definition kqueue_start :: "os \<Rightarrow> (io \<Rightarrow> addrinfo list option result \<times> io) \<Rightarrow> (addrinfo list \<Rightarrow> io \<Rightarrow> int \<times> io) \<Rightarrow>
    (int \<Rightarrow> int \<Rightarrow> io \<Rightarrow> progress \<times> io) \<Rightarrow> nat \<Rightarrow> io \<Rightarrow> progress \<times> io" where
  "kqueue_start sys init get_fd iteration n w =
     (case open_server init get_fd w of
        (Inl p, w) \<Rightarrow> (p, w)
      | (Inr server_socket, w) \<Rightarrow>
          let (r, w) = call sys Kqueue w; queue = ret r;
              (added, w) = add_new_connection sys server_socket queue w in
          if added = ERROR then (Exited (-1), w)
          else
            let (r, w) = call sys (Listen server_socket SOMAXCONN_bsd) w in
            if ret r = ERROR then
              (Exited (-1), print_errno (''Server: Failed to listen the socket '' @ to_string server_socket) w)
            else server_loop (iteration server_socket queue) n w)"

definition kqueue_main :: "os \<Rightarrow> nat \<Rightarrow> io \<Rightarrow> progress \<times> io" where
  "kqueue_main sys = kqueue_start sys (initialize_addr_info_kqueue sys) (get_socket_fd_kqueue sys) (kqueue_iteration sys)"

subsection \<open>One event at a time\<close>

text \<open>The helpers of \<open>echo_server_kqueue_single_socket.cpp\<close>.\<close>

abbreviation print_errno_single :: "string \<Rightarrow> io \<Rightarrow> io" where
  "print_errno_single \<equiv> print_errno"

abbreviation initialize_addr_info_single :: "os \<Rightarrow> io \<Rightarrow> addrinfo list option result \<times> io" where
  "initialize_addr_info_single sys \<equiv> initialize_addr_info sys ''12348''"

abbreviation get_socket_fd_single :: "os \<Rightarrow> addrinfo list \<Rightarrow> io \<Rightarrow> int \<times> io" where
  "get_socket_fd_single \<equiv> get_socket_fd print_errno_single"

abbreviation echo_single :: "os \<Rightarrow> int \<Rightarrow> io \<Rightarrow> bool \<times> io" where
  "echo_single \<equiv> echo print_errno_single EAGAIN_bsd"

abbreviation add_new_connection_single :: "os \<Rightarrow> int \<Rightarrow> int \<Rightarrow> io \<Rightarrow> int \<times> io" where
  "add_new_connection_single \<equiv> add_new_connection"

definition accept_new_connection_single :: "os \<Rightarrow> int \<Rightarrow> int \<Rightarrow> io \<Rightarrow> int \<times> io" where
  "accept_new_connection_single sys server_socket queue w =
     (let (r, w) = call sys (Accept server_socket) w; new_socket = ret r in
      if new_socket \<noteq> ERROR then add_new_connection_single sys new_socket queue w
      else (ERROR, print_errno_single ''Server: Failed to accept new connection'' w))"

definition single_event :: "os \<Rightarrow> int \<Rightarrow> int \<Rightarrow> int \<times> int \<Rightarrow> io \<Rightarrow> progress \<times> io" where
  "single_event sys server_socket queue event w =
     (let (socket, event_filter) = event in
      if event_filter \<noteq> EVFILT_READ then (Next, w)
      else if socket = server_socket then
        let (added, w) = accept_new_connection_single sys server_socket queue w in
        (if added = ERROR then Exited 0 else Next, w)
      else
        let (ok, w) = echo_single sys socket w in
        (Next, if \<not> ok then snd (call sys (Close socket) w) else w))"

text \<open>When \<open>kevent\<close> delivers nothing the event stays zeroed.\<close>

definition single_iteration :: "os \<Rightarrow> int \<Rightarrow> int \<Rightarrow> io \<Rightarrow> progress \<times> io" where
  "single_iteration sys server_socket queue w =
     (let (r, w) = call sys (KeventWait queue 1) w in
      if ret r = ERROR then (Exited 0, print_errno_single ''Server: Failure during kevent'' w)
      else single_event sys server_socket queue
        (case take (nat (ret r)) (occurred r) of [] \<Rightarrow> (0, 0) | event # _ \<Rightarrow> event) w)"

definition single_main :: "os \<Rightarrow> nat \<Rightarrow> io \<Rightarrow> progress \<times> io" where
  "single_main sys = kqueue_start sys (initialize_addr_info_single sys) (get_socket_fd_single sys) (single_iteration sys)"

section \<open>What the servers do with descriptors\<close>

lemma quiet_print_errno_epoll [simp]: "quiet print_errno_epoll"
  by (auto simp: quiet_def print_errno_epoll_def)

text \<open>\<open>echo\<close> begins with \<open>recv\<close> on the descriptor it is given, whatever the answers are.\<close>

lemma echo_receives_first:
  assumes "quiet perr" "echo perr eagain sys socket w = (ok, w')"
  shows "\<exists>later r. history w' = later @ (Recv socket kBufferSize, r) # history w"
  using echo_cases(1,2) [OF assms(1), where eagain = eagain and sys = sys and socket = socket and w = w] assms(2)
  by (cases "to_size (ret (sys (history w) (Recv socket kBufferSize))) = 0") force+

text \<open>
  Property C25. An event for an open connection, in a run that used open descriptors only, never ends the server on \<open>epoll\<close>. When the
  event carries \<open>EPOLLERR\<close> or \<open>EPOLLHUP\<close>, the server closes the connection, which is right, and its very next call is a
  \<open>recv\<close> on the descriptor it has just closed; all other events leave it using open descriptors only.
\<close>

theorem epoll_uses_closed_socket:
  assumes "socket \<noteq> srv" "socket \<in> live (history w)" "disciplined (history w)"
    and "epoll_event sys srv epoll (socket, events) w = (p, w')"
  shows "p = Next \<and>
    (if events AND EPOLLERR \<noteq> 0 \<or> events AND EPOLLHUP \<noteq> 0 then
       \<exists>closed received later. history w' = later @ (Recv socket kBufferSize, received) # (Close socket, closed) # history w \<and>
         disciplined ((Close socket, closed) # history w) \<and>
         \<not> disciplined ((Recv socket kBufferSize, received) # (Close socket, closed) # history w)
     else disciplined (history w'))"
proof -
  define bad where "bad \<longleftrightarrow> events AND EPOLLERR \<noteq> 0 \<or> events AND EPOLLHUP \<noteq> 0"
  define w1 where "w1 = (if bad then snd (call sys (Close socket) w) else w)"
  obtain ok w2 where e: "echo print_errno_epoll EAGAIN sys socket w1 = (ok, w2)" by fastforce
  have w': "p = Next" "w' = (if \<not> ok then snd (call sys (Close socket) w2) else w2)"
    using assms(1,4) e by (simp_all add: epoll_event_def w1_def bad_def split: if_splits)
  show ?thesis
  proof (cases bad)
    case True
    obtain later r where "history w2 = later @ (Recv socket kBufferSize, r) # history w1"
      using echo_receives_first [OF quiet_print_errno_epoll e] by blast
    moreover have "history w1 = (Close socket, sys (history w) (Close socket)) # history w"
      using True by (simp add: w1_def call_def Let_def)
    moreover have "\<exists>l. history w' = l @ history w2"
      using w'(2) by (cases ok) (simp_all add: call_def Let_def)
    ultimately obtain later r where h: "history w' = later @ (Recv socket kBufferSize, r) #
        (Close socket, sys (history w) (Close socket)) # history w" by (metis append.assoc)
    have "\<exists>closed received later. history w' = later @ (Recv socket kBufferSize, received) # (Close socket, closed) # history w \<and>
        disciplined ((Close socket, closed) # history w) \<and>
        \<not> disciplined ((Recv socket kBufferSize, received) # (Close socket, closed) # history w)"
      using h assms(2,3) by (intro exI [of _ "sys (history w) (Close socket)"] exI [of _ r] exI [of _ later]) simp
    then show ?thesis using True w'(1) unfolding bad_def by simp
  next
    case False
    then have "disciplined (history w2)" "socket \<in> live (history w2)"
      using echo_live [OF quiet_print_errno_epoll e] assms(2,3) by (simp_all add: w1_def)
    with False w' show ?thesis by (simp add: bad_def)
  qed
qed

text \<open>A connection accepted as descriptor 4 on the listening socket 3, with an event that carries \<open>EPOLLERR\<close>.\<close>

theorem epoll_uses_closed_socket_witness:
  "let sys = sample_os (\<lambda>h c. no_reply);
       address = \<lparr>ai_family = 2, ai_socktype = 1, ai_protocol = 6, ai_addr = []\<rparr>;
       w = snd (call sys (Accept 3) (snd (call sys (Socket address) sample_io)));
       w' = snd (epoll_event sys 3 5 (4, 8) w)
   in live (history w) = {3, 4} \<and> disciplined (history w) \<and>
     (\<exists>closed received later. history w' = later @ (Recv 4 kBufferSize, received) # (Close 4, closed) # history w \<and>
        disciplined ((Close 4, closed) # history w) \<and> \<not> disciplined ((Recv 4 kBufferSize, received) # (Close 4, closed) # history w))"
proof -
  let ?sys = "sample_os (\<lambda>h c. no_reply)"
  let ?a = "\<lparr>ai_family = 2, ai_socktype = 1, ai_protocol = 6, ai_addr = []\<rparr>"
  define w where "w = snd (call ?sys (Accept 3) (snd (call ?sys (Socket ?a) sample_io)))"
  have w: "live (history w) = {3, 4}" "disciplined (history w)"
    by (auto simp: w_def call_def Let_def sample_os_def sample_io_def no_reply_def ERROR_def)
  obtain p w' where e: "epoll_event ?sys 3 5 (4, 8) w = (p, w')" by fastforce
  have "(8 :: int) AND EPOLLERR \<noteq> 0" by (simp add: EPOLLERR_def)
  with epoll_uses_closed_socket [OF _ _ w(2) e] w show ?thesis
    unfolding Let_def w_def [symmetric] e snd_conv by simp
qed

text \<open>
  What \<open>kevent\<close> documents: the events it delivers are for registered descriptors, which are
  open, and a descriptor has one event per call (only one filter is ever registered).
\<close>

definition delivers_live :: "os \<Rightarrow> bool" where
  "delivers_live sys \<longleftrightarrow> (\<forall>h q n. fst ` set (occurred (sys h (KeventWait q n))) \<subseteq> live h \<and>
     distinct (map fst (occurred (sys h (KeventWait q n)))))"

lemma echo_then_close:
  assumes "echo print_errno EAGAIN_bsd sys socket w = (ok, w1)" "socket \<in> live (history w)" "disciplined (history w)"
    and "w' = (if \<not> ok then snd (call sys (Close socket) w1) else w1)"
  shows "disciplined (history w')" "live (history w) - {socket} \<subseteq> live (history w')" "live (history w') \<subseteq> live (history w)"
  using echo_live [OF quiet_print_errno assms(1)] assms(2-) by auto

lemma kqueue_event_live:
  assumes "fresh_fds sys" "disciplined (history w)" "srv \<in> live (history w)" "fst ev \<in> live (history w)"
    and "set new \<subseteq> live (history w)" "fst ev \<notin> set new" "srv \<notin> set new"
    and "kqueue_event sys srv ev new w = (new', w')"
  shows "disciplined (history w') \<and> srv \<in> live (history w') \<and> set new' \<subseteq> live (history w') \<and> srv \<notin> set new' \<and>
    live (history w) - {fst ev} \<subseteq> live (history w') \<and> set new' \<inter> live (history w) \<subseteq> set new"
proof -
  obtain fd flt where ev: "ev = (fd, flt)" by fastforce
  consider "flt \<noteq> EVFILT_READ" | (server) "flt = EVFILT_READ" "fd = srv" | (client) "flt = EVFILT_READ" "fd \<noteq> srv" by blast
  then show ?thesis
  proof cases
    case server
    define r where "r = sys (history w) (Accept srv)"
    define w1 where "w1 = snd (call sys (Accept srv) w)"
    show ?thesis
    proof (cases "ret r = ERROR")
      case True
      then have "new' = new" "w' = print_errno ''Server: Failed to accept new connection'' w1"
        using assms(8) ev server
        by (auto simp: kqueue_event_def accept_new_connection_kqueue_def call_def Let_def r_def w1_def)
      then show ?thesis using True assms(2-7) by (auto simp: quiet_simps [OF quiet_print_errno] w1_def r_def)
    next
      case False
      obtain k w2 where n: "set_nonblock O_NONBLOCK_bsd sys (ret r) w1 = (k, w2)" by fastforce
      have "new' = new @ [ret r]" "w' = w2"
        using assms(8) ev server False n
        by (auto simp: kqueue_event_def accept_new_connection_kqueue_def call_def Let_def r_def w1_def)
      moreover have "ret r \<notin> live (history w)" using fresh_fdsD(2) [OF assms(1)] False by (simp add: r_def)
      moreover have "live (history w1) = insert (ret r) (live (history w))" "disciplined (history w1)"
        using False assms(2,3) by (simp_all add: w1_def r_def)
      ultimately show ?thesis using set_nonblock_simps [OF n] assms(3-7) by auto
    qed
  next
    case client
    obtain ok w1 where e: "echo print_errno EAGAIN_bsd sys fd w = (ok, w1)" by fastforce
    have w': "new' = new" "w' = (if \<not> ok then snd (call sys (Close fd) w1) else w1)"
      using assms(8) ev client e by (auto simp: kqueue_event_def)
    from echo_then_close [OF e _ assms(2) w'(2)] w'(1) ev client assms(3-7) show ?thesis by auto
  qed (use assms ev in \<open>auto simp: kqueue_event_def\<close>)
qed

lemma kqueue_events_live:
  assumes "fresh_fds sys" "disciplined (history w)" "srv \<in> live (history w)" "fst ` set evs \<subseteq> live (history w)"
    and "distinct (map fst evs)" "set new \<subseteq> live (history w)" "fst ` set evs \<inter> set new = {}" "srv \<notin> set new"
    and "kqueue_events sys srv evs new w = (new', w')"
  shows "disciplined (history w') \<and> srv \<in> live (history w') \<and> set new' \<subseteq> live (history w')"
  using assms(2-)
proof (induction evs arbitrary: new w)
  case (Cons ev evs)
  obtain new1 w1 where e: "kqueue_event sys srv ev new w = (new1, w1)" by fastforce
  have ev: "fst ev \<in> live (history w)" "fst ev \<notin> set new" using Cons.prems by auto
  note l = kqueue_event_live [OF assms(1) Cons.prems(1,2) ev(1) Cons.prems(5) ev(2) Cons.prems(7) e]
  have rest: "fst ` set evs \<subseteq> live (history w) - {fst ev}" "fst ` set evs \<inter> set new = {}"
    using Cons.prems(3,4,6) by (auto simp: image_iff)
  then have "fst ` set evs \<subseteq> live (history w1)" "fst ` set evs \<inter> set new1 = {}" using l by blast+
  with Cons.IH [of w1 new1] Cons.prems(4,8) l e show ?case by simp
qed simp

definition kqueue_serving :: "os \<Rightarrow> int \<Rightarrow> io \<Rightarrow> bool" where
  "kqueue_serving sys srv w \<longleftrightarrow> fresh_fds sys \<and> delivers_live sys \<and> disciplined (history w) \<and> srv \<in> live (history w)"

lemma distinct_map_take: "distinct (map f xs) \<Longrightarrow> distinct (map f (take n xs))"
  by (metis distinct_take take_map)

lemma kqueue_iteration_serving:
  assumes "kqueue_serving sys srv w" "kqueue_iteration sys srv q w = (p, w')"
  shows "kqueue_serving sys srv w'"
proof -
  define r where "r = sys (history w) (KeventWait q kMaxEventsNumber)"
  define w1 where "w1 = snd (call sys (KeventWait q kMaxEventsNumber) w)"
  let ?evs = "take (nat (ret r)) (occurred r)"
  obtain new w2 where evs: "kqueue_events sys srv ?evs [] w1 = (new, w2)" by fastforce
  have w1: "kqueue_serving sys srv w1" using assms(1) by (simp add: kqueue_serving_def w1_def)
  have del: "fst ` set (occurred r) \<subseteq> live (history w)" "distinct (map fst (occurred r))"
    using assms(1) by (simp_all add: kqueue_serving_def delivers_live_def r_def)
  have pre: "disciplined (history w1)" "srv \<in> live (history w1)" "fresh_fds sys"
    using w1 by (simp_all add: kqueue_serving_def)
  have sub: "fst ` set ?evs \<subseteq> live (history w1)" "distinct (map fst ?evs)"
    using del distinct_map_take by (auto simp: w1_def dest!: in_set_takeD)
  have w2: "disciplined (history w2)" "srv \<in> live (history w2)" "set new \<subseteq> live (history w2)"
    using kqueue_events_live [OF pre(3,1,2) sub _ _ _ evs] by auto
  have eq: "kqueue_iteration sys srv q w =
    (if ret r = ERROR then (Exited 0, print_errno ''Server: Failure during kevent'' w1)
     else if new \<noteq> [] then
        (case add_new_sockets sys q new w2 of
           (Inl e, w) \<Rightarrow> (Undefined e, w) | (Inr status, w) \<Rightarrow> (if status = ERROR then Exited 0 else Next, w))
     else (Next, w2))"
    using evs by (simp add: kqueue_iteration_def kqueue_round_def call_def Let_def r_def w1_def)
  have "kqueue_serving sys srv (snd (kqueue_iteration sys srv q w))"
    unfolding eq using w1 w2
    by (auto simp: kqueue_serving_def add_new_sockets_def call_def Let_def quiet_simps [OF quiet_print_errno])
  then show ?thesis using assms(2) by simp
qed

lemma add_new_connection_live:
  assumes "add_new_connection sys fd q w = (k, w')"
  shows "live (history w') = live (history w)" "disciplined (history w') \<longleftrightarrow> fd \<in> live (history w) \<and> disciplined (history w)"
proof -
  obtain k1 w1 where n: "set_nonblock O_NONBLOCK_bsd sys fd w = (k1, w1)" by fastforce
  note set_nonblock_simps [OF n]
  moreover have "history w' = (KeventAdd q [fd], sys (history w1) (KeventAdd q [fd])) # history w1"
    using assms n by (auto simp: add_new_connection_def call_def Let_def quiet_simps [OF quiet_print_errno] split: if_splits)
  ultimately show "live (history w') = live (history w)"
    "disciplined (history w') \<longleftrightarrow> fd \<in> live (history w) \<and> disciplined (history w)" by auto
qed

lemma single_event_serving:
  assumes "kqueue_serving sys srv w" "fst ev \<in> live (history w) \<or> snd ev \<noteq> EVFILT_READ"
  shows "kqueue_serving sys srv (snd (single_event sys srv q ev w))"
proof -
  obtain fd flt where ev: "ev = (fd, flt)" by fastforce
  consider "flt \<noteq> EVFILT_READ" | (server) "flt = EVFILT_READ" "fd = srv" | (client) "flt = EVFILT_READ" "fd \<noteq> srv" by blast
  then show ?thesis
  proof cases
    case server
    define r where "r = sys (history w) (Accept srv)"
    define w1 where "w1 = snd (call sys (Accept srv) w)"
    obtain k w2 where a: "add_new_connection sys (ret r) q w1 = (k, w2)" by fastforce
    have "snd (single_event sys srv q ev w) =
        (if ret r \<noteq> ERROR then w2 else print_errno ''Server: Failed to accept new connection'' w1)"
      using ev server a
      by (simp add: single_event_def accept_new_connection_single_def call_def Let_def r_def w1_def)
    then show ?thesis using assms(1) add_new_connection_live [OF a]
      by (auto simp: kqueue_serving_def w1_def r_def quiet_simps [OF quiet_print_errno])
  next
    case client
    obtain ok w1 where e: "echo print_errno EAGAIN_bsd sys fd w = (ok, w1)" by fastforce
    then have "snd (single_event sys srv q ev w) = (if \<not> ok then snd (call sys (Close fd) w1) else w1)"
      using ev client by (simp add: single_event_def)
    from echo_then_close [OF e _ _ this] assms ev client show ?thesis by (auto simp: kqueue_serving_def)
  qed (use assms ev in \<open>auto simp: single_event_def\<close>)
qed

lemma single_iteration_serving:
  assumes "kqueue_serving sys srv w" "single_iteration sys srv q w = (p, w')"
  shows "kqueue_serving sys srv w'"
proof -
  define r where "r = sys (history w) (KeventWait q 1)"
  define w1 where "w1 = snd (call sys (KeventWait q 1) w)"
  define ev where "ev = (case take (nat (ret r)) (occurred r) of [] \<Rightarrow> (0, 0) | e # _ \<Rightarrow> e)"
  have w1: "kqueue_serving sys srv w1" using assms(1) by (simp add: kqueue_serving_def w1_def)
  have "fst ` set (occurred r) \<subseteq> live (history w)"
    using assms(1) by (simp add: kqueue_serving_def delivers_live_def r_def)
  moreover have "ev \<in> insert (0, 0) (set (occurred r))"
  proof (cases "take (nat (ret r)) (occurred r)")
    case (Cons x xs)
    then have "x \<in> set (occurred r)" using in_set_takeD [of x "nat (ret r)" "occurred r"] by simp
    with Cons show ?thesis by (simp add: ev_def)
  next
    case Nil
    show ?thesis unfolding ev_def Nil by simp
  qed
  ultimately have "fst ev \<in> live (history w1) \<or> snd ev \<noteq> EVFILT_READ"
    by (auto simp: w1_def EVFILT_READ_def)
  note single_event_serving [OF w1 this]
  moreover have "single_iteration sys srv q w =
    (if ret r = ERROR then (Exited 0, print_errno ''Server: Failure during kevent'' w1) else single_event sys srv q ev w1)"
    by (simp add: single_iteration_def call_def Let_def r_def w1_def ev_def)
  ultimately have "kqueue_serving sys srv (snd (single_iteration sys srv q w))"
    using w1 by (auto simp: kqueue_serving_def quiet_simps [OF quiet_print_errno])
  then show ?thesis using assms(2) by simp
qed

interpretation kqueue_loop: multiplexer "kqueue_iteration sys srv q" "kqueue_serving sys srv" for sys srv q
  by unfold_locales (rule kqueue_iteration_serving)

interpretation single_loop: multiplexer "single_iteration sys srv q" "kqueue_serving sys srv" for sys srv q
  by unfold_locales (rule single_iteration_serving)

text \<open>
  Property C26. Started with an open listening socket, and when \<open>kevent\<close> delivers events for registered descriptors only, neither server on
  \<open>kqueue\<close> ever works on a descriptor that is not open, in any number of iterations; the
  listening socket stays open.
\<close>

theorem kqueue_servers_disciplined:
  assumes "fresh_fds sys" "delivers_live sys" "disciplined (history w)" "srv \<in> live (history w)"
  shows "disciplined (history (snd (server_loop (kqueue_iteration sys srv q) n w))) \<and>
    disciplined (history (snd (server_loop (single_iteration sys srv q) n w))) \<and>
    srv \<in> live (history (snd (server_loop (kqueue_iteration sys srv q) n w))) \<and>
    srv \<in> live (history (snd (server_loop (single_iteration sys srv q) n w)))"
proof -
  have "kqueue_serving sys srv w" using assms by (simp add: kqueue_serving_def)
  from kqueue_loop.served_loop [OF this surjective_pairing, of q n]
    single_loop.served_loop [OF this surjective_pairing, of q n]
  show ?thesis by (simp add: kqueue_serving_def)
qed

text \<open>A system whose \<open>kevent\<close> reports the listening socket 3 while it is open.\<close>

definition sample_kqueue_os :: os where
  "sample_kqueue_os = sample_os (\<lambda>h c. case c of
     KeventWait _ _ \<Rightarrow> no_reply\<lparr>ret := 1, occurred := (if 3 \<in> live h then [(3, EVFILT_READ)] else [])\<rparr> | _ \<Rightarrow> no_reply)"

definition sample_kqueue_io :: io where
  "sample_kqueue_io = sample_io\<lparr>history :=
     [(Socket \<lparr>ai_family = 2, ai_socktype = 1, ai_protocol = 6, ai_addr = []\<rparr>, no_reply\<lparr>ret := 3\<rparr>)]\<rparr>"

lemma sample_kqueue_delivers: "fresh_fds sample_kqueue_os" "delivers_live sample_kqueue_os"
  by (simp_all add: sample_kqueue_os_def delivers_live_def, simp add: sample_os_def no_reply_def)

theorem kqueue_servers_disciplined_witness:
  "disciplined (history (snd (server_loop (kqueue_iteration sample_kqueue_os 3 5) 2 sample_kqueue_io)))"
proof -
  have "disciplined (history sample_kqueue_io)" "3 \<in> live (history sample_kqueue_io)"
    by (simp_all add: sample_kqueue_io_def no_reply_def ERROR_def)
  from kqueue_servers_disciplined [OF sample_kqueue_delivers this, of 5 2] show ?thesis by simp
qed

text \<open>
  On one event the two servers make the same calls; they differ in one point: when
  \<open>accept\<close> fails, the server that takes one event at a time ends, the other one goes on.
\<close>

theorem single_event_like_kqueue:
  "history (snd (kqueue_round sys srv q [ev] w)) = history (snd (single_event sys srv q ev w)) \<and>
   fst (single_event sys srv q ev w) =
     (if snd ev = EVFILT_READ \<and> fst ev = srv \<and> ret (sys (history w) (Accept srv)) = ERROR then Exited 0
      else fst (kqueue_round sys srv q [ev] w))"
proof -
  obtain fd flt where ev: "ev = (fd, flt)" by fastforce
  define w1 where "w1 = snd (call sys (Accept srv) w)"
  define fd' where "fd' = ret (sys (history w) (Accept srv))"
  have acc: "call sys (Accept srv) w = (sys (history w) (Accept srv), w1)" by (simp add: w1_def prod_eq_iff)
  obtain k w2 where n: "set_nonblock O_NONBLOCK_bsd sys fd' w1 = (k, w2)" by fastforce
  obtain ok w3 where e: "echo print_errno EAGAIN_bsd sys fd w = (ok, w3)" by fastforce
  obtain r4 w4 where add: "call sys (KeventAdd q [fd']) w2 = (r4, w4)" by fastforce
  consider "flt \<noteq> EVFILT_READ" | (server) "flt = EVFILT_READ" "fd = srv" | (client) "flt = EVFILT_READ" "fd \<noteq> srv" by blast
  then show ?thesis
  proof cases
    case server
    then show ?thesis using n add
      by (simp add: ev acc fd'_def [symmetric] kqueue_round_def kqueue_event_def accept_new_connection_kqueue_def
          add_new_sockets_def kMaxEventsNumber_def single_event_def accept_new_connection_single_def add_new_connection_def
          quiet_simps [OF quiet_print_errno] ERROR_def)
  qed (use e in \<open>simp_all add: ev kqueue_round_def kqueue_event_def single_event_def\<close>)
qed

end
