(* ===== verification/Chat.thy ===== *)
theory Chat
  imports Net_Common
begin

text \<open>
  \<open>sockets_multiplexing/chat.cpp\<close>: the chat server on \<open>epoll\<close>. A C string is the list of its
  bytes before the terminating zero; copying into an array of \<open>n\<close> bytes fails when the string
  and its zero do not fit. \<open>junk\<close> stands for what an uninitialised \<open>sockaddr_in\<close> holds.
\<close>

section \<open>C strings\<close>

definition strcat :: "nat \<Rightarrow> byte list \<Rightarrow> byte list \<Rightarrow> byte list result" where
  "strcat capacity message s =
     (if length message + length s < capacity then Inr (message @ s) else Inl OutOfBounds)"

definition inet_ntoa :: "byte list \<Rightarrow> byte list" where
  "inet_ntoa addr = ascii (case map (\<lambda>b. to_string (uint b)) addr of
     [a, b, c, d] \<Rightarrow> a @ ''.'' @ b @ ''.'' @ c @ ''.'' @ d | _ \<Rightarrow> [])"

section \<open>The server\<close>

text \<open>\<open>set_nonblock\<close> has the text of the one of the echo servers.\<close>

abbreviation set_nonblock_chat :: "os \<Rightarrow> int \<Rightarrow> 'a io_scheme \<Rightarrow> int \<times> 'a io_scheme" where
  "set_nonblock_chat \<equiv> set_nonblock O_NONBLOCK"

definition MAX_EVENTS :: nat where "MAX_EVENTS = 32"

record chat = io +
  slave_sockets :: "int list"

fun send_all :: "os \<Rightarrow> byte list \<Rightarrow> int list \<Rightarrow> chat \<Rightarrow> chat" where
  "send_all sys message [] s = s"
| "send_all sys message (it # its) s =
     send_all sys message its (snd (call sys (Send it (length message) message) s))"

definition SendToAll :: "os \<Rightarrow> byte list \<Rightarrow> chat \<Rightarrow> chat" where
  "SendToAll sys message s = send_all sys message (slave_sockets s) s"

text \<open>A new connection; the result of \<open>accept\<close> is not checked.\<close>

definition chat_accept :: "os \<Rightarrow> int \<Rightarrow> int \<Rightarrow> byte list \<Rightarrow> chat \<Rightarrow> byte list result \<times> chat" where
  "chat_accept sys epoll master_socket message s =
     (let (r, s) = call sys (Accept master_socket) s; slave_socket = ret r;
          (_, s) = set_nonblock_chat sys slave_socket s;
          s = s\<lparr>slave_sockets := oset_insert id slave_socket (slave_sockets s)\<rparr>;
          (_, s) = call sys (EpollAdd epoll slave_socket) s
      in (strcat 1024 message (ascii '' connected!''), s))"

text \<open>What a connection has sent: the end, a message, or neither.\<close>

definition chat_receive :: "os \<Rightarrow> int \<Rightarrow> byte list \<Rightarrow> chat \<Rightarrow> byte list result \<times> chat" where
  "chat_receive sys fd message s =
     (let (r, s) = call sys (Recv fd 1024) s; recv_size = ret r;
          s = s\<lparr>buffer := bytes r @ drop (length (bytes r)) (buffer s)\<rparr> in
      if recv_size = 0 \<and> errno s \<noteq> EAGAIN then
        let (_, s) = call sys (Shutdown fd) s;
            (_, s) = call sys (Close fd) s
        in (strcat 1024 message (ascii '' disconnected!''),
            s\<lparr>slave_sockets := oset_erase id fd (slave_sockets s)\<rparr>)
      else if 0 < recv_size then
        (bindE (strcat 1024 message (ascii '': '')) (\<lambda>message.
           if nat recv_size < 1024 then
             strcat 1024 message (c_string ((buffer s)[nat recv_size := 0]))
           else Inl OutOfBounds),
         if recv_size < 1024 then s\<lparr>buffer := (buffer s)[nat recv_size := 0]\<rparr> else s)
      else (Inr message, s))"

definition chat_event :: "os \<Rightarrow> byte list \<Rightarrow> int \<Rightarrow> int \<Rightarrow> int \<Rightarrow> chat \<Rightarrow> progress \<times> chat" where
  "chat_event sys junk epoll master_socket fd s =
     (let (r, s) = call sys (Getpeername fd) s;
          message = inet_ntoa (if ret r = 0 then bytes r else junk) in
      case (if fd = master_socket then chat_accept sys epoll master_socket message s
            else chat_receive sys fd message s) of
        (Inl e, s) \<Rightarrow> (Undefined e, s)
      | (Inr message, s) \<Rightarrow> (Next, SendToAll sys message s))"

fun chat_events :: "os \<Rightarrow> byte list \<Rightarrow> int \<Rightarrow> int \<Rightarrow> int list \<Rightarrow> chat \<Rightarrow> progress \<times> chat" where
  "chat_events sys junk epoll master_socket [] s = (Next, s)"
| "chat_events sys junk epoll master_socket (fd # rest) s =
     (case chat_event sys junk epoll master_socket fd s of
        (Next, s) \<Rightarrow> chat_events sys junk epoll master_socket rest s
      | (p, s) \<Rightarrow> (p, s))"

text \<open>
  The count of events is compared as \<open>unsigned\<close>: when \<open>epoll_wait\<close> fails, the loop starts on
  events that were never written.
\<close>

definition chat_iteration :: "os \<Rightarrow> byte list \<Rightarrow> int \<Rightarrow> int \<Rightarrow> chat \<Rightarrow> progress \<times> chat" where
  "chat_iteration sys junk epoll master_socket s =
     (let (r, s) = call sys (EpollWait epoll MAX_EVENTS) s; n = ret r in
      if n < 0 then (Undefined Uninitialised, s)
      else chat_events sys junk epoll master_socket (map fst (take (nat n) (occurred r))) s)"

text \<open>\<open>AF_INET\<close>, port 12345 and \<open>INADDR_ANY\<close>; no result is checked.\<close>

definition sock_addr :: "byte list" where
  "sock_addr = [2, 0, 48, 57, 0, 0, 0, 0]"

definition chat_main :: "os \<Rightarrow> byte list \<Rightarrow> nat \<Rightarrow> chat \<Rightarrow> progress \<times> chat" where
  "chat_main sys junk k s =
     (let (r, s) = call sys (Socket \<lparr>ai_family = 2, ai_socktype = 1, ai_protocol = 6, ai_addr = sock_addr\<rparr>) s;
          master_socket = ret r;
          (_, s) = call sys (Bind master_socket sock_addr) s;
          (_, s) = set_nonblock_chat sys master_socket s;
          (_, s) = call sys (Listen master_socket SOMAXCONN) s;
          (r, s) = call sys EpollCreate s; epoll = ret r;
          (_, s) = call sys (EpollAdd epoll master_socket) s
      in server_loop (chat_iteration sys junk epoll master_socket) k (s\<lparr>slave_sockets := []\<rparr>))"

section \<open>Facts about the handlers\<close>

lemma call_chat [simp]:
  fixes s :: "'a chat_scheme"
  shows "slave_sockets (snd (call sys c s)) = slave_sockets s"
  by (simp add: call_def Let_def)

lemma send_all_history:
  "map fst (history (send_all sys m its s)) = rev (map (\<lambda>it. Send it (length m) m) its) @ map fst (history s) \<and>
   slave_sockets (send_all sys m its s) = slave_sockets s"
  by (induction its arbitrary: s) auto

lemma length_nat_string: "n < 10 \<Longrightarrow> length (nat_string n) = 1" "n < 100 \<Longrightarrow> length (nat_string n) \<le> 2"
    "n < 1000 \<Longrightarrow> length (nat_string n) \<le> 3"
proof -
  show one: "length (nat_string n) = 1" if "n < 10" for n using that by (simp add: nat_string.simps)
  show two: "length (nat_string n) \<le> 2" if "n < 100" for n
    using that one [of "n div 10"] by (subst nat_string.simps) auto
  show "length (nat_string n) \<le> 3" if "n < 1000"
    using that two [of "n div 10"] by (subst nat_string.simps) auto
qed

lemma length_byte_string: "length (to_string (uint (b :: byte))) \<le> 3"
proof -
  have "uint b < 256" using uint_lt2p [of b] by simp
  then show ?thesis using length_nat_string(3) [of "uint b"] by (simp add: to_string_def)
qed

text \<open>An address in dotted form has at most 15 characters.\<close>

lemma length_inet_ntoa: "length (inet_ntoa addr) \<le> 15"
proof -
  have "length (to_string (uint a)) + length (to_string (uint b)) + length (to_string (uint c)) +
      length (to_string (uint d)) \<le> 12" for a b c d :: byte
    using length_byte_string [of a] length_byte_string [of b] length_byte_string [of c] length_byte_string [of d] by simp
  then show ?thesis by (auto simp: inet_ntoa_def ascii_def add.assoc split: list.splits)
qed

text \<open>The message a client event leads to, for a \<open>recv\<close> that delivers bytes.\<close>

lemma chat_receive_message:
  assumes "sys (history s) (Recv fd 1024) = r" "ret r = int (length (bytes r))" "0 < length (bytes r)"
    and "length (buffer s) = 1024" "length ip \<le> 15"
  shows "fst (chat_receive sys fd ip s) =
      (if length (bytes r) < 1024 \<and> length ip + 2 + length (c_string (bytes r)) < 1024
       then Inr (ip @ ascii '': '' @ c_string (bytes r)) else Inl OutOfBounds) \<and>
    map fst (history (snd (chat_receive sys fd ip s))) = Recv fd 1024 # map fst (history s) \<and>
    slave_sockets (snd (chat_receive sys fd ip s)) = slave_sockets s"
proof -
  have c: "c_string ((bytes r @ drop (length (bytes r)) (buffer s))[length (bytes r) := 0]) = c_string (bytes r)"
    if "length (bytes r) < 1024"
    using that assms(4) by (simp add: c_string_buffer)
  show ?thesis
    using assms by (auto simp: chat_receive_def call_def Let_def strcat_def ascii_def c)
qed


text \<open>A system that answers \<open>getpeername\<close> with 127.0.0.1 and \<open>recv\<close> with \<open>bs\<close>.\<close>

definition sample_chat_os :: "byte list \<Rightarrow> os" where
  "sample_chat_os bs h c = (case c of Getpeername _ \<Rightarrow> no_reply\<lparr>bytes := [127, 0, 0, 1]\<rparr>
     | Recv _ _ \<Rightarrow> no_reply\<lparr>ret := int (length bs), bytes := bs\<rparr> | _ \<Rightarrow> no_reply)"

definition sample_chat :: chat where
  "sample_chat = \<lparr>history = [], errno = 0, cerr = [], buffer = replicate 1024 0, slave_sockets = [5, 6]\<rparr>"


end
