(* ===== verification/Tcp_Server.thy ===== *)
theory Tcp_Server
  imports Net_Common
begin

text \<open>
  \<open>sockets_multiplexing/tcp_server/\<close>: the server that greets every connection from a child
  process of its own, and the client that prints the greeting. A child process is the state it
  ends in: it starts with its parent's history, in which \<open>fork\<close> has returned zero. The texts of
  the system's error messages and of addresses are parameters.
\<close>

section \<open>Shared helpers\<close>

record libc =
  strerror :: "int \<Rightarrow> string"
  inet_ntop :: "int \<Rightarrow> byte list \<Rightarrow> nat \<Rightarrow> string option"

text \<open>Every number but the codes of \<open>getaddrinfo\<close> is unknown to \<open>gai_strerror\<close>, those of \<open>errno\<close> too.\<close>

definition gai_strerror :: "int \<Rightarrow> string" where
  "gai_strerror status = (case map_of [(-1, ''Bad value for ai_flags''), (-2, ''Name or service not known''),
     (-3, ''Temporary failure in name resolution''), (-4, ''Non-recoverable failure in name resolution''),
     (-5, ''No address associated with hostname''), (-6, ''ai_family not supported''),
     (-7, ''ai_socktype not supported''), (-8, ''Servname not supported for ai_socktype''),
     (-9, ''Address family for hostname not supported''), (-10, ''Memory allocation failure''),
     (-11, ''System error'')] status of None \<Rightarrow> ''Unknown error'' | Some m \<Rightarrow> m)"

definition print_error :: "string \<Rightarrow> int \<Rightarrow> 'a io_scheme \<Rightarrow> 'a io_scheme" where
  "print_error message status w = print_line (message @ '' '' @ gai_strerror status) w"

definition perror :: "libc \<Rightarrow> string \<Rightarrow> 'a io_scheme \<Rightarrow> 'a io_scheme" where
  "perror lc message w = print_line (message @ '': '' @ strerror lc (errno w)) w"

definition MY_PORT :: string where "MY_PORT = ''3490''"
definition AF_UNSPEC :: int where "AF_UNSPEC = 0"
definition AF_INET :: int where "AF_INET = 2"
definition SOCK_STREAM :: int where "SOCK_STREAM = 1"
definition AI_PASSIVE :: int where "AI_PASSIVE = 1"
definition INET_ADDRSTRLEN :: nat where "INET_ADDRSTRLEN = 16"
definition INET6_ADDRSTRLEN :: nat where "INET6_ADDRSTRLEN = 46"

text \<open>The first two bytes of a \<open>sockaddr\<close> are its family, the lower byte first.\<close>

definition sa_family :: "byte list \<Rightarrow> int" where
  "sa_family sockaddr = uint (sockaddr ! 0) + 256 * uint (sockaddr ! 1)"

definition get_addr_in :: "byte list \<Rightarrow> byte list" where
  "get_addr_in sockaddr = (if sa_family sockaddr = AF_INET then take 4 (drop 4 sockaddr) else take 16 (drop 8 sockaddr))"

definition get_addr_len :: "byte list \<Rightarrow> nat" where
  "get_addr_len sockaddr = (if sa_family sockaddr = AF_INET then INET_ADDRSTRLEN else INET6_ADDRSTRLEN)"

record tcp_io = io +
  cout :: "string list"

definition printf :: "string \<Rightarrow> 'a tcp_io_scheme \<Rightarrow> 'a tcp_io_scheme" where
  "printf line w = w\<lparr>cout := cout w @ [line]\<rparr>"

section \<open>The server\<close>

subsection \<open>Ended children\<close>

text \<open>The children that have not been waited for, each with whether it has ended.\<close>

type_synonym processes = "(int \<times> bool) list"

definition ECHILD :: int where "ECHILD = 10"

definition waitpid_nohang :: "processes \<times> int \<Rightarrow> int \<times> processes \<times> int" where
  "waitpid_nohang = (\<lambda>(ps, errno).
     if ps = [] then (-1, ps, ECHILD)
     else case find snd ps of None \<Rightarrow> (0, ps, errno) | Some p \<Rightarrow> (fst p, remove1 p ps, errno))"

function reap :: "processes \<times> int \<Rightarrow> processes \<times> int" where
  "reap s = (let (pid, s') = waitpid_nohang s in if pid > 0 then reap s' else s')"
  by pat_completeness auto
termination
  by (relation "measure (length \<circ> fst)")
    (auto simp: waitpid_nohang_def find_Some_iff length_remove1 split: if_splits option.splits)

declare reap.simps [simp del]

definition sigchld_handler :: "processes \<times> int \<Rightarrow> processes \<times> int" where
  "sigchld_handler s = (let saved_errno = snd s; (ps, _) = reap s in (ps, saved_errno))"

subsection \<open>Opening the socket\<close>

definition initialize_address :: "os \<Rightarrow> 'a io_scheme \<Rightarrow> (progress + addrinfo list) \<times> 'a io_scheme" where
  "initialize_address sys w =
     (let (r, w) = call sys (Resolve None MY_PORT AI_PASSIVE AF_UNSPEC SOCK_STREAM 0) w; status = ret r in
      if status \<noteq> 0 then (Inl (Exited 0), print_error ''Server: Failed during getaddrinfo:'' status w)
      else (Inr (addrs r), w))"

fun tcp_socket_loop :: "os \<Rightarrow> addrinfo list \<Rightarrow> int \<Rightarrow> 'a io_scheme \<Rightarrow> (progress + int) \<times> 'a io_scheme" where
  "tcp_socket_loop sys [] socket_fd w = (Inr socket_fd, w)"
| "tcp_socket_loop sys (cur # rest) socket_fd w =
     (let (r, w) = call sys (Socket cur) w; socket_fd = ret r in
      if socket_fd = ERROR then
        tcp_socket_loop sys rest socket_fd (print_error ''Server: Failed to open the server socket:'' (errno w) w)
      else
        let (r, w) = call sys (Setsockopt socket_fd) w in
        if ret r = ERROR then (Inl (Exited 1), print_error ''Server: Failed to reuse the server socket:'' (errno w) w)
        else
          let (r, w) = call sys (Bind socket_fd (ai_addr cur)) w in
          if ret r = ERROR then
            let (_, w) = call sys (Close socket_fd) w in
            tcp_socket_loop sys rest socket_fd (print_error ''Server: Failed to bind the server socket:'' (errno w) w)
          else (Inr socket_fd, w))"

definition tcp_get_socket_fd :: "os \<Rightarrow> libc \<Rightarrow> addrinfo list \<Rightarrow> 'a io_scheme \<Rightarrow> (progress + int) \<times> 'a io_scheme" where
  "tcp_get_socket_fd sys lc server_address w =
     (case tcp_socket_loop sys server_address ERROR w of
        (Inl p, w) \<Rightarrow> (Inl p, w)
      | (Inr socket_fd, w) \<Rightarrow>
          if socket_fd = ERROR then (Inl (Exited 1), perror lc (''Server: Socket is not found'' @ [CHR 0x0A]) w)
          else (Inr socket_fd, w))"

definition reset_sigaction :: "os \<Rightarrow> libc \<Rightarrow> 'a io_scheme \<Rightarrow> progress \<times> 'a io_scheme" where
  "reset_sigaction sys lc w =
     (let (r, w) = call sys Sigaction w in
      if ret r = ERROR then (Exited 1, perror lc (''Server: Failed to set sigaction'' @ [CHR 0x0A]) w) else (Next, w))"

subsection \<open>Serving\<close>

text \<open>
  \<open>accept\<close> writes at most \<open>socklen\<close> bytes of the client's address and sets \<open>socklen\<close> to the
  length of the whole address; it is not set back before the next \<open>accept\<close>.
\<close>

record tcp_server = tcp_io +
  client_socket_addr :: "byte list"
  socklen :: nat
  procs :: processes
  children :: "(int \<times> io) list"

definition server_message :: "byte list" where
  "server_message = ascii ''Hello world!'' @ [0]"

definition store_address :: "byte list \<Rightarrow> tcp_server \<Rightarrow> tcp_server" where
  "store_address addr s =
     (let stored = take (socklen s) addr in
      s\<lparr>client_socket_addr := stored @ drop (length stored) (client_socket_addr s), socklen := length addr\<rparr>)"

definition announce_client :: "libc \<Rightarrow> tcp_server \<Rightarrow> tcp_server" where
  "announce_client lc s =
     (case inet_ntop lc (sa_family (client_socket_addr s)) (get_addr_in (client_socket_addr s))
          (get_addr_len (client_socket_addr s)) of
        Some ip \<Rightarrow> printf (''Server: Gon connection from '' @ ip) s
      | None \<Rightarrow> print_error ''Server: Failed to get the client ip address:'' (errno s) s)"

text \<open>The child, up to \<open>exit(0)\<close>.\<close>

definition server_child :: "os \<Rightarrow> int \<Rightarrow> int \<Rightarrow> io \<Rightarrow> io" where
  "server_child sys socket_fd copy_socket w =
     (let (_, w) = call sys (Close socket_fd) w;
          (r, w) = call sys (Send copy_socket (length server_message) server_message) w;
          w = (if ret r = ERROR then print_error ''Server: Failed to send a message:'' (errno w) w else w);
          (_, w) = call sys (Close copy_socket) w
      in w)"

text \<open>The process a \<open>fork\<close> with the reply \<open>r\<close> starts.\<close>

definition forked :: "reply \<Rightarrow> tcp_server \<Rightarrow> io" where
  "forked r s = (io.truncate s)\<lparr>history := (Fork, r\<lparr>ret := 0\<rparr>) # history s\<rparr>"

definition serve_connection :: "os \<Rightarrow> libc \<Rightarrow> int \<Rightarrow> tcp_server \<Rightarrow> tcp_server" where
  "serve_connection sys lc socket_fd s =
     (let (r, s) = call sys (Accept socket_fd) s; copy_socket = ret r in
      if copy_socket = ERROR then print_error ''Server: Failed to accept connection:'' (errno s) s
      else
        let s = announce_client lc (store_address (bytes r) s);
            (r, s') = call sys Fork s; process = ret r;
            s' = (if process = ERROR then print_error ''Server: Failed to create a new process:'' (errno s') s'
                  else s'\<lparr>procs := procs s' @ [(process, False)],
                          children := children s' @ [(process, server_child sys socket_fd copy_socket (forked r s))]\<rparr>);
            (_, s') = call sys (Close copy_socket) s'
        in s')"

text \<open>The loop, and the signals that arrive in it: a child has ended and the handler runs.\<close>

datatype tcp_event = Accepting | ChildEnded int

definition child_ended :: "int \<Rightarrow> tcp_server \<Rightarrow> tcp_server" where
  "child_ended pid s =
     (let (ps, e) = sigchld_handler (map (\<lambda>(p, ended). (p, ended \<or> p = pid)) (procs s), errno s)
      in s\<lparr>procs := ps, errno := e\<rparr>)"

fun tcp_run :: "os \<Rightarrow> libc \<Rightarrow> int \<Rightarrow> tcp_event list \<Rightarrow> tcp_server \<Rightarrow> tcp_server" where
  "tcp_run sys lc socket_fd [] s = s"
| "tcp_run sys lc socket_fd (Accepting # es) s = tcp_run sys lc socket_fd es (serve_connection sys lc socket_fd s)"
| "tcp_run sys lc socket_fd (ChildEnded pid # es) s = tcp_run sys lc socket_fd es (child_ended pid s)"

definition tcp_main :: "os \<Rightarrow> libc \<Rightarrow> tcp_event list \<Rightarrow> tcp_server \<Rightarrow> progress \<times> tcp_server" where
  "tcp_main sys lc es s =
     (case initialize_address sys s of
        (Inl p, s) \<Rightarrow> (p, s)
      | (Inr server_address, s) \<Rightarrow>
          (case tcp_get_socket_fd sys lc server_address s of
             (Inl p, s) \<Rightarrow> (p, s)
           | (Inr socket_fd, s) \<Rightarrow>
               let (_, s) = call sys (Listen socket_fd 20) s in
               case reset_sigaction sys lc s of
                 (Next, s) \<Rightarrow> (Next, tcp_run sys lc socket_fd es (s\<lparr>socklen := 128\<rparr>))
               | (p, s) \<Rightarrow> (p, s)))"

section \<open>The client\<close>

definition MAX_DATA_SIZE :: nat where "MAX_DATA_SIZE = 200"

text \<open>\<open>AI_PASSIVE\<close>, which is a flag, is stored as the protocol that is asked for.\<close>

definition client_initialize_address :: "os \<Rightarrow> string \<Rightarrow> 'a io_scheme \<Rightarrow> (progress + addrinfo list) \<times> 'a io_scheme" where
  "client_initialize_address sys hostname w =
     (let (r, w) = call sys (Resolve (Some hostname) MY_PORT 0 AF_UNSPEC SOCK_STREAM AI_PASSIVE) w; status = ret r in
      if status \<noteq> 0 then (Inl (Exited 0), print_error ''Client: Failed during getaddrinfo:'' status w)
      else (Inr (addrs r), w))"

text \<open>The client has its own copies of the two functions on addresses.\<close>

abbreviation client_get_addr_in :: "byte list \<Rightarrow> byte list" where
  "client_get_addr_in \<equiv> get_addr_in"

abbreviation client_get_addr_len :: "byte list \<Rightarrow> nat" where
  "client_get_addr_len \<equiv> get_addr_len"

definition announce_server :: "libc \<Rightarrow> addrinfo \<Rightarrow> 'a tcp_io_scheme \<Rightarrow> 'a tcp_io_scheme" where
  "announce_server lc cur w =
     (case inet_ntop lc (ai_family cur) (client_get_addr_in (ai_addr cur)) (client_get_addr_len (ai_addr cur)) of
        Some ip \<Rightarrow> printf (''Client: Connecting to '' @ ip) w
      | None \<Rightarrow> print_error ''Client: Failed to get the server ip address:'' (errno w) w)"

fun connect_loop :: "os \<Rightarrow> libc \<Rightarrow> addrinfo list \<Rightarrow> int \<Rightarrow> 'a tcp_io_scheme \<Rightarrow> int \<times> 'a tcp_io_scheme" where
  "connect_loop sys lc [] socket_fd w = (socket_fd, w)"
| "connect_loop sys lc (cur # rest) socket_fd w =
     (let (r, w) = call sys (Socket cur) w; socket_fd = ret r in
      if socket_fd = ERROR then
        connect_loop sys lc rest socket_fd (print_error ''Client: Failed to open the socket:'' (errno w) w)
      else
        let (r, w) = call sys (Connect socket_fd (ai_addr cur)) w in
        if ret r = ERROR then
          let (_, w) = call sys (Close socket_fd) w in
          connect_loop sys lc rest socket_fd (print_error ''Client: Failed to connect:'' (errno w) w)
        else (socket_fd, announce_server lc cur w))"

definition client_get_socket_fd :: "os \<Rightarrow> libc \<Rightarrow> addrinfo list \<Rightarrow> 'a tcp_io_scheme \<Rightarrow> (progress + int) \<times> 'a tcp_io_scheme" where
  "client_get_socket_fd sys lc server_address w =
     (case connect_loop sys lc server_address ERROR w of
        (socket_fd, w) \<Rightarrow>
          if socket_fd = ERROR then (Inl (Exited 1), perror lc (''Client: No connection was found'' @ [CHR 0x0A]) w)
          else (Inr socket_fd, w))"

text \<open>The message is received into \<open>buffer\<close>, an array of 201 bytes that is not initialised.\<close>

definition client_receive :: "os \<Rightarrow> int \<Rightarrow> 'a tcp_io_scheme \<Rightarrow> progress \<times> 'a tcp_io_scheme" where
  "client_receive sys socket_fd w =
     (let (r, w) = call sys (Recv socket_fd MAX_DATA_SIZE) w;
          w = w\<lparr>buffer := bytes r @ drop (length (bytes r)) (buffer w)\<rparr>;
          received_bytes_number = ret r in
      if received_bytes_number = ERROR then
        (Next, print_error ''Client: Failed to receive a message from server:'' (errno w) w)
      else if 0 \<le> received_bytes_number \<and> nat received_bytes_number < length (buffer w) then
        let w = w\<lparr>buffer := (buffer w)[nat received_bytes_number := 0]\<rparr> in
        (Next, printf (''Client: Received from server: \"'' @ text_of (c_string (buffer w)) @ ''\"'') w)
      else (Undefined OutOfBounds, w))"

definition client_main :: "os \<Rightarrow> libc \<Rightarrow> string list \<Rightarrow> 'a tcp_io_scheme \<Rightarrow> progress \<times> 'a tcp_io_scheme" where
  "client_main sys lc argv w =
     (if length argv \<noteq> 2 then (Exited 1, perror lc (''Client: Enter hostname in arguments'' @ [CHR 0x0A]) w)
      else
        case client_initialize_address sys (argv ! 1) w of
          (Inl p, w) \<Rightarrow> (p, w)
        | (Inr server_address, w) \<Rightarrow>
            (case client_get_socket_fd sys lc server_address w of
               (Inl p, w) \<Rightarrow> (p, w)
             | (Inr socket_fd, w) \<Rightarrow>
                 (case client_receive sys socket_fd w of
                    (Next, w) \<Rightarrow> let (_, w) = call sys (Close socket_fd) w in (Exited 0, w)
                  | (p, w) \<Rightarrow> (p, w))))"

section \<open>Ended children are waited for\<close>

lemma filter_remove1_other: "\<not> P x \<Longrightarrow> filter P (remove1 x xs) = filter P xs"
  by (induction xs) auto

text \<open>The loop of the handler ends, and leaves exactly the children that are still running.\<close>

lemma reap_running: "(\<forall>p \<in> set ps. 0 < fst p) \<Longrightarrow> fst (reap (ps, e)) = filter (\<lambda>p. \<not> snd p) ps"
proof (induction "(ps, e)" arbitrary: ps e rule: reap.induct)
  case 1
  show ?case
  proof (cases "find snd ps")
    case None
    then have "filter (\<lambda>p. \<not> snd p) ps = ps" by (metis (mono_tags, lifting) find_None_iff filter_True)
    then show ?thesis using None by (subst reap.simps) (auto simp: waitpid_nohang_def)
  next
    case (Some p)
    then have p: "p \<in> set ps" "snd p" by (auto simp: find_Some_iff)
    then have w: "waitpid_nohang (ps, e) = (fst p, remove1 p ps, e)" and "0 < fst p"
      using Some 1(2) by (auto simp: waitpid_nohang_def)
    moreover have "\<forall>q \<in> set (remove1 p ps). 0 < fst q" using 1(2) by (meson notin_set_remove1)
    ultimately have "fst (reap (remove1 p ps, e)) = filter (\<lambda>p. \<not> snd p) (remove1 p ps)"
      using 1(1) by simp
    then show ?thesis using w \<open>0 < fst p\<close> p(2) by (subst reap.simps) (simp add: filter_remove1_other)
  qed
qed

lemma sigchld_handler_reaps:
  "(\<forall>p \<in> set ps. 0 < fst p) \<Longrightarrow> sigchld_handler (ps, e) = (filter (\<lambda>p. \<not> snd p) ps, e)"
  using reap_running [of ps e] by (auto simp: sigchld_handler_def split: prod.splits)

section \<open>Every connection is greeted\<close>

text \<open>The connections for which a child was started, with the child, from the first on.\<close>

fun served_connections :: "history \<Rightarrow> (int \<times> int) list" where
  "served_connections [] = []"
| "served_connections ((Fork, f) # (Accept _, a) # h) =
     served_connections h @ (if ret f = ERROR then [] else [(ret a, ret f)])"
| "served_connections (_ # h) = served_connections h"

text \<open>What the child of connection \<open>fd\<close> has done since the \<open>fork\<close>.\<close>

definition greeted :: "int \<Rightarrow> int \<times> int \<Rightarrow> int \<times> io \<Rightarrow> bool" where
  "greeted socket_fd = (\<lambda>(fd, process) (pid, w). pid = process \<and> disciplined (history w) \<and> live (history w) = {} \<and>
     map fst (take 4 (history w)) = [Close fd, Send fd 13 server_message, Close socket_fd, Fork])"

definition fork_ok :: "os \<Rightarrow> bool" where
  "fork_ok sys \<longleftrightarrow> (\<forall>h. ret (sys h Fork) = ERROR \<or> 0 < ret (sys h Fork))"

definition tcp_inv :: "int \<Rightarrow> tcp_server \<Rightarrow> bool" where
  "tcp_inv socket_fd s \<longleftrightarrow> live (history s) = {socket_fd} \<and> disciplined (history s) \<and>
     (\<forall>p \<in> set (procs s). 0 < fst p \<and> \<not> snd p) \<and>
     list_all2 (greeted socket_fd) (served_connections (history s)) (children s)"

lemma length_server_message [simp]: "length server_message = 13"
  by (simp add: server_message_def ascii_def)

lemma print_error_simps [simp]:
  "history (print_error m k w) = history w" "io.more (print_error m k w) = io.more w"
  by (simp_all add: print_error_def)

lemma server_child_history:
  "\<exists>r1 r2 r3. history (server_child sys socket_fd fd w) =
     (Close fd, r3) # (Send fd 13 server_message, r2) # (Close socket_fd, r1) # history w"
  by (simp add: server_child_def Let_def split_beta)

lemma server_child_greeted:
  assumes "live (history s) = {socket_fd, fd}" "disciplined (history s)" "fd \<noteq> socket_fd"
  shows "greeted socket_fd (fd, ret r) (ret r, server_child sys socket_fd fd (forked r s))"
proof -
  obtain r1 r2 r3 where h: "history (server_child sys socket_fd fd (forked r s)) =
      (Close fd, r3) # (Send fd 13 server_message, r2) # (Close socket_fd, r1) # (Fork, r\<lparr>ret := 0\<rparr>) # history s"
    using server_child_history [of sys socket_fd fd "forked r s"] by (auto simp: forked_def)
  show ?thesis using assms by (auto simp: greeted_def h)
qed

lemma serve_connection_cases:
  fixes s :: tcp_server and sys :: os and socket_fd :: int
  defines "a \<equiv> sys (history s) (Accept socket_fd)"
  defines "h \<equiv> (Accept socket_fd, a) # history s"
  defines "f \<equiv> sys h Fork"
  obtains
    (refused) "ret a = ERROR" "history (serve_connection sys lc socket_fd s) = h"
      "procs (serve_connection sys lc socket_fd s) = procs s" "children (serve_connection sys lc socket_fd s) = children s"
  | (no_process) c where "ret a \<noteq> ERROR" "ret f = ERROR"
      "history (serve_connection sys lc socket_fd s) = (Close (ret a), c) # (Fork, f) # h"
      "procs (serve_connection sys lc socket_fd s) = procs s" "children (serve_connection sys lc socket_fd s) = children s"
  | (started) c w where "ret a \<noteq> ERROR" "ret f \<noteq> ERROR" "history w = h"
      "history (serve_connection sys lc socket_fd s) = (Close (ret a), c) # (Fork, f) # h"
      "procs (serve_connection sys lc socket_fd s) = procs s @ [(ret f, False)]"
      "children (serve_connection sys lc socket_fd s) =
         children s @ [(ret f, server_child sys socket_fd (ret a) (forked f w))]"
proof (cases "ret a = ERROR")
  case True
  then show ?thesis
    by (intro refused) (simp_all add: serve_connection_def call_def Let_def a_def h_def print_error_def print_line_def)
next
  case False
  define w where "w = announce_client lc (store_address (bytes a) (snd (call sys (Accept socket_fd) s)))"
  have w: "history w = h" "procs w = procs s" "children w = children s"
    by (simp_all add: w_def announce_client_def store_address_def printf_def print_error_def print_line_def
        call_def Let_def h_def a_def split: option.splits)
  have eq: "serve_connection sys lc socket_fd s =
    snd (call sys (Close (ret a)) (let s' = snd (call sys Fork w) in if ret f = ERROR
      then print_error ''Server: Failed to create a new process:'' (errno s') s'
      else s'\<lparr>procs := procs s' @ [(ret f, False)],
              children := children s' @ [(ret f, server_child sys socket_fd (ret a) (forked f w))]\<rparr>))"
    using False w(1) by (simp add: serve_connection_def a_def f_def w_def [unfolded a_def, symmetric] Let_def split_beta)
  show ?thesis
  proof (cases "ret f = ERROR")
    case True
    then show ?thesis using no_process False w f_def by (simp add: eq call_def Let_def print_error_def print_line_def)
  next
    case F: False
    then show ?thesis using started [OF False F w(1)] w f_def by (simp add: eq call_def Let_def)
  qed
qed

lemma serve_connection_inv:
  assumes "fresh_fds sys" "fork_ok sys" "tcp_inv socket_fd s"
  shows "tcp_inv socket_fd (serve_connection sys lc socket_fd s)"
proof -
  note inv = assms(3) [unfolded tcp_inv_def]
  let ?a = "sys (history s) (Accept socket_fd)"
  have new: "ret ?a \<noteq> ERROR \<Longrightarrow> ret ?a \<noteq> socket_fd"
    using fresh_fdsD(2) [OF assms(1), of "history s" socket_fd] inv by auto
  show ?thesis
  proof (cases rule: serve_connection_cases [where sys = sys and lc = lc and socket_fd = socket_fd and s = s])
    case refused
    then show ?thesis using inv by (simp add: tcp_inv_def)
  next
    case (no_process c)
    then show ?thesis using inv new by (auto simp: tcp_inv_def)
  next
    case (started c w)
    have "greeted socket_fd (ret ?a, ret (sys (history w) Fork))
        (ret (sys (history w) Fork), server_child sys socket_fd (ret ?a) (forked (sys (history w) Fork) w))"
      using started(1,3) inv new by (intro server_child_greeted) auto
    moreover have "0 < ret (sys (history w) Fork)" using assms(2) started(2,3) unfolding fork_ok_def by metis
    ultimately show ?thesis using started inv new
      by (auto simp: tcp_inv_def list_all2_append intro!: list_all2_appendI)
  qed
qed

lemma child_ended_inv: "tcp_inv socket_fd s \<Longrightarrow> tcp_inv socket_fd (child_ended pid s)"
proof -
  assume inv: "tcp_inv socket_fd s"
  let ?ps = "map (\<lambda>(p, ended). (p, ended \<or> p = pid)) (procs s)"
  have "\<forall>p \<in> set ?ps. 0 < fst p" using inv by (auto simp: tcp_inv_def)
  from sigchld_handler_reaps [OF this] inv show ?thesis
    by (auto simp: child_ended_def tcp_inv_def)
qed

lemma tcp_run_inv:
  "fresh_fds sys \<Longrightarrow> fork_ok sys \<Longrightarrow> tcp_inv socket_fd s \<Longrightarrow> tcp_inv socket_fd (tcp_run sys lc socket_fd es s)"
  by (induction sys lc socket_fd es s rule: tcp_run.induct) (auto intro: serve_connection_inv child_ended_inv)

text \<open>
  Property C30. Whatever connections arrive and children end, in whatever order: the server never
  works on a descriptor that is not open, and the listening socket is the only one it keeps open;
  no ended child is left to be waited for; and for every connection that was accepted and for which
  a process could be started, in the order of the connections, there is exactly one child, and
  that child closed the listening socket, sent the greeting of 13 bytes with its final zero,
  and closed the connection, which leaves it with no open socket.
\<close>

theorem tcp_server_greets:
  assumes "fresh_fds sys" "fork_ok sys" "live (history s) = {socket_fd}" "disciplined (history s)"
    and "procs s = []" "children s = []" "served_connections (history s) = []"
    and "tcp_run sys lc socket_fd es s = s'"
  shows "disciplined (history s') \<and> live (history s') = {socket_fd} \<and> (\<forall>p \<in> set (procs s'). \<not> snd p) \<and>
    list_all2 (greeted socket_fd) (served_connections (history s')) (children s')"
proof -
  have "tcp_inv socket_fd s" using assms(3-7) by (simp add: tcp_inv_def)
  from tcp_run_inv [OF assms(1,2) this, of lc es] assms(8) show ?thesis by (auto simp: tcp_inv_def)
qed

definition sample_tcp_os :: os where
  "sample_tcp_os = sample_os (\<lambda>h c. no_reply\<lparr>ret := (case c of Fork \<Rightarrow> 100 | _ \<Rightarrow> 0)\<rparr>)"

definition sample_tcp :: tcp_server where
  "sample_tcp = \<lparr>history = [(Socket \<lparr>ai_family = 2, ai_socktype = 1, ai_protocol = 6, ai_addr = []\<rparr>, no_reply\<lparr>ret := 3\<rparr>)],
     errno = 0, cerr = [], buffer = [], cout = [], client_socket_addr = replicate 128 0, socklen = 128, procs = [], children = []\<rparr>"

theorem tcp_server_greets_witness:
  "\<exists>s' w. tcp_run sample_tcp_os \<lparr>strerror = (\<lambda>_. []), inet_ntop = (\<lambda>_ _ _. None)\<rparr> 3 [Accepting, ChildEnded 100] sample_tcp = s' \<and>
     children s' = [(100, w)] \<and> procs s' = [] \<and> greeted 3 (4, 100) (100, w)"
proof -
  let ?lc = "\<lparr>strerror = (\<lambda>_. []), inet_ntop = (\<lambda>_ _ _. None)\<rparr>"
  define s1 where "s1 = serve_connection sample_tcp_os ?lc 3 sample_tcp"
  define s' where "s' = tcp_run sample_tcp_os ?lc 3 [Accepting, ChildEnded 100] sample_tcp"
  have 1: "procs s1 = [(100, False)]" "map fst (children s1) = [100]" "served_connections (history s1) = [(4, 100)]"
    by (simp_all add: s1_def serve_connection_def sample_tcp_def sample_tcp_os_def sample_os_def no_reply_def call_def Let_def
        ERROR_def store_address_def announce_client_def print_error_def print_line_def)
  have s': "s' = child_ended 100 s1" by (simp add: s'_def s1_def)
  have "sigchld_handler ([(100, True)], e) = ([], e)" for e using sigchld_handler_reaps [of "[(100, True)]" e] by simp
  then have 2: "procs s' = []" "children s' = children s1" "history s' = history s1"
    by (simp_all add: s' child_ended_def 1)
  have "fork_ok sample_tcp_os" by (simp add: fork_ok_def sample_tcp_os_def sample_os_def no_reply_def)
  from tcp_server_greets [OF _ this _ _ _ _ _ s'_def [symmetric]]
  have "list_all2 (greeted 3) (served_connections (history s')) (children s')"
    by (simp add: sample_tcp_os_def sample_tcp_def no_reply_def ERROR_def)
  with 1 2 show ?thesis unfolding s'_def [symmetric] by (auto simp: list_all2_Cons1)
qed

section \<open>What the client prints\<close>

lemma greeting_text: "text_of (c_string (take k server_message)) = take k ''Hello world!''"
proof -
  have "c_string (take k server_message) = take k (ascii ''Hello world!'')"
    unfolding server_message_def by (rule c_string_prefix) (simp add: ascii_def)
  then show ?thesis using text_of_ascii [of "''Hello world!''"] by (simp add: text_of_def flip: take_map)
qed

text \<open>
  Property C31. The greeting arrives: when \<open>recv\<close> in the client delivers the first \<open>k\<close> of the
  bytes that a child of the server has sent, the client prints the greeting, or its first \<open>k\<close>
  characters when fewer than 12 have arrived, writes inside its array of 201 bytes, and makes no
  other call than the \<open>recv\<close>.
\<close>

theorem client_prints_greeting:
  assumes "greeted socket_fd (fd, pid) (pid, child)" "(Send fd n bs, x) \<in> set (take 4 (history child))"
    and "sys (history w) (Recv client_fd MAX_DATA_SIZE) = r" "bytes r = take k bs" "ret r = int (length (bytes r))"
    and "length (buffer w) = MAX_DATA_SIZE + 1"
    and "client_receive sys client_fd w = (p, w')"
  shows "p = Next \<and> cout w' = cout w @ [''Client: Received from server: \"'' @ take k ''Hello world!'' @ ''\"''] \<and>
    map fst (history w') = Recv client_fd MAX_DATA_SIZE # map fst (history w)"
proof -
  have "Send fd n bs \<in> set (map fst (take 4 (history child)))" using assms(2) by force
  then have bs: "bs = server_message" using assms(1) by (auto simp: greeted_def)
  have k: "length (bytes r) \<le> 13" using assms(4) by (simp add: bs)
  have "c_string ((bytes r @ drop (length (bytes r)) (buffer w))[length (bytes r) := 0]) = c_string (bytes r)"
    using k assms(6) by (intro c_string_buffer) (simp add: MAX_DATA_SIZE_def)
  moreover note greeting_text [of k]
  ultimately show ?thesis using assms(3-7) k
    by (auto simp: client_receive_def call_def Let_def printf_def bs ERROR_def MAX_DATA_SIZE_def split: if_splits)
qed

theorem client_prints_greeting_witness:
  "cout (snd (client_receive (\<lambda>_ _. no_reply\<lparr>ret := 13, bytes := server_message\<rparr>) 3
       \<lparr>history = [], errno = 0, cerr = [], buffer = replicate 201 0, cout = []\<rparr>)) =
     [''Client: Received from server: \"Hello world!\"'']"
proof -
  let ?sys = "\<lambda>_ _. no_reply\<lparr>ret := 13, bytes := server_message\<rparr>"
  let ?w = "\<lparr>history = [], errno = 0, cerr = [], buffer = replicate 201 0, cout = []\<rparr>"
  obtain p w' where c: "client_receive ?sys 3 ?w = (p, w')" by fastforce
  define parent where "parent = sample_tcp\<lparr>history := (Accept 3, no_reply\<lparr>ret := 4\<rparr>) # history sample_tcp\<rparr>"
  define child where "child = server_child sample_tcp_os 3 4 (forked (no_reply\<lparr>ret := 100\<rparr>) parent)"
  have "live (history parent) = {3, 4}" "disciplined (history parent)"
    by (simp_all add: parent_def sample_tcp_def no_reply_def ERROR_def insert_commute)
  from server_child_greeted [OF this, of "no_reply\<lparr>ret := 100\<rparr>" sample_tcp_os]
  have g: "greeted 3 (4, 100) (100, child)" by (simp add: child_def no_reply_def)
  obtain x where s: "(Send 4 13 server_message, x) \<in> set (take 4 (history child))"
    using server_child_history [of sample_tcp_os 3 4 "forked (no_reply\<lparr>ret := 100\<rparr>) parent"]
    unfolding child_def by fastforce
  show ?thesis using client_prints_greeting [OF g s, of ?sys ?w 3 _ 13, OF refl _ _ _ c] c
    by (simp add: no_reply_def MAX_DATA_SIZE_def)
qed

text \<open>
  \<open>getaddrinfo\<close> rejects hints that ask for a stream over protocol 1, which is ICMP: then the
  client ends at once, with status zero.
\<close>

lemma client_hints_rejected:
  assumes "\<And>h node service flags family. ret (sys h (Resolve node service flags family SOCK_STREAM 1)) = -7"
    and "client_main sys lc [name, hostname] w = (p, w')"
  shows "p = Exited 0 \<and> cerr w' = cerr w @ [''Client: Failed during getaddrinfo: ai_socktype not supported''] \<and>
    length (history w') = Suc (length (history w))"
  using assms by (auto simp: client_main_def client_initialize_address_def AI_PASSIVE_def call_def Let_def
      print_error_def print_line_def gai_strerror_def)

end
