(* ===== verification/Addresses.thy ===== *)
theory Addresses
  imports Tcp_Server Chat
begin

text \<open>
  Addresses as text: \<open>sockets_multiplexing/sockaddr.c\<close> and \<open>sockets_multiplexing/showip.c\<close>.

  \<open>inet_pton\<close> and \<open>inet_ntop\<close> are executable for what the programs convert: dotted addresses of
  four bytes in both directions, and the reading of IPv6 addresses in groups of hexadecimal digits (a dotted end of
  an IPv6 address is not read). In \<open>showip\<close> the resolver is a parameter; next to each \<open>addrinfo\<close>
  stands the number of its \<open>ai_addr\<close> pointer, because the program prints bytes of pointers.
\<close>

section \<open>Conversions\<close>

definition inet_ntop4 :: "byte list \<Rightarrow> string" where
  "inet_ntop4 addr = (case map (\<lambda>b. to_string (uint b)) addr of
     [a, b, c, d] \<Rightarrow> a @ ''.'' @ b @ ''.'' @ c @ ''.'' @ d | _ \<Rightarrow> [])"

fun split_char :: "char \<Rightarrow> string \<Rightarrow> string list" where
  "split_char c [] = [[]]"
| "split_char c (x # xs) = (if x = c then [] # split_char c xs
     else case split_char c xs of [] \<Rightarrow> [[x]] | p # ps \<Rightarrow> (x # p) # ps)"

text \<open>A number without leading zeros of at most 255.\<close>

definition octet :: "string \<Rightarrow> byte option" where
  "octet p = (if p \<noteq> [] \<and> (\<forall>c \<in> set p. is_digit c) \<and> (hd p = CHR ''0'' \<longrightarrow> length p = 1) \<and> digits_val p \<le> 255
     then Some (word_of_int (digits_val p)) else None)"

definition inet_pton4 :: "string \<Rightarrow> byte list option" where
  "inet_pton4 s = (case map octet (split_char CHR ''.'' s) of
     [Some a, Some b, Some c, Some d] \<Rightarrow> Some [a, b, c, d] | _ \<Rightarrow> None)"

definition hex_val :: "char \<Rightarrow> int option" where
  "hex_val c = (let n = of_char c :: int in
     if 48 \<le> n \<and> n \<le> 57 then Some (n - 48) else if 97 \<le> n \<and> n \<le> 102 then Some (n - 87)
     else if 65 \<le> n \<and> n \<le> 70 then Some (n - 55) else None)"

fun those :: "'a option list \<Rightarrow> 'a list option" where
  "those [] = Some []"
| "those (None # xs) = None"
| "those (Some x # xs) = map_option ((#) x) (those xs)"

text \<open>A group of one to four hexadecimal digits is two bytes.\<close>

definition hex_group :: "string \<Rightarrow> byte list option" where
  "hex_group p = (if p = [] \<or> 4 < length p then None
     else map_option (\<lambda>ds. let v = foldl (\<lambda>n d. 16 * n + d) 0 ds in [word_of_int (v div 256), word_of_int v])
            (those (map hex_val p)))"

definition hex_groups :: "string \<Rightarrow> byte list option" where
  "hex_groups s = (if s = [] then Some [] else map_option concat (those (map hex_group (split_char CHR '':'' s))))"

text \<open>The text before and after the first \<open>::\<close>, which stands for at least one group of zeros.\<close>

fun cut_colons :: "string \<Rightarrow> string \<times> string option" where
  "cut_colons [] = ([], None)"
| "cut_colons [c] = ([c], None)"
| "cut_colons (c # d # s) =
     (if c = CHR '':'' \<and> d = CHR '':'' then ([], Some s)
      else let (a, b) = cut_colons (d # s) in (c # a, b))"

definition inet_pton6 :: "string \<Rightarrow> byte list option" where
  "inet_pton6 s =
     (case cut_colons s of
        (a, None) \<Rightarrow> (case hex_groups a of Some x \<Rightarrow> if length x = 16 then Some x else None | None \<Rightarrow> None)
      | (a, Some b) \<Rightarrow>
          (case (hex_groups a, hex_groups b) of
             (Some x, Some y) \<Rightarrow> if length x + length y < 16 then Some (x @ replicate (16 - length x - length y) 0 @ y) else None
           | _ \<Rightarrow> None))"

section \<open>sockaddr.c\<close>

text \<open>An object on the stack: \<open>None\<close> for a byte that was never set.\<close>

type_synonym object = "byte option list"

definition write_at :: "nat \<Rightarrow> byte list \<Rightarrow> object \<Rightarrow> object" where
  "write_at i bs obj = take i obj @ map Some bs @ drop (i + length bs) obj"

definition read_at :: "nat \<Rightarrow> nat \<Rightarrow> object \<Rightarrow> byte list result" where
  "read_at i n obj =
     (if length obj < i + n then Inl OutOfBounds
      else case those (take n (drop i obj)) of None \<Rightarrow> Inl Uninitialised | Some bs \<Rightarrow> Inr bs)"

definition inet_pton_into :: "nat \<Rightarrow> byte list option \<Rightarrow> object \<Rightarrow> object" where
  "inet_pton_into i addr obj = (case addr of None \<Rightarrow> obj | Some bs \<Rightarrow> write_at i bs obj)"

text \<open>\<open>sockaddr_in\<close> has 16 bytes, the address from the fourth on; \<open>sockaddr_in6\<close> 28, from the eighth on.\<close>

definition string_to_sockaddr :: "object \<times> object" where
  "string_to_sockaddr =
     (inet_pton_into 4 (inet_pton4 ''192.0.2.1'') (replicate 16 None),
      inet_pton_into 8 (inet_pton6 ''2001:db8:63b3:1::3490'') (replicate 28 None))"

text \<open>Never called. The printing of an IPv6 address is a parameter.\<close>

definition sockaddr_to_string :: "(byte list \<Rightarrow> string) \<Rightarrow> string list result" where
  "sockaddr_to_string inet_ntop6 =
     (let initialized_sa4 = replicate 16 None; initialized_sa6 = replicate 28 None in
      bindE (read_at 4 4 initialized_sa4) (\<lambda>a4.
      bindE (read_at 8 16 initialized_sa6) (\<lambda>a6.
      Inr [''IPv4 address is: '' @ inet_ntop4 a4, ''IPv6 address is: '' @ inet_ntop6 a6])))"

definition sockaddr_main :: "int \<times> string" where
  "sockaddr_main = (let (sa4, sa6) = string_to_sockaddr in (0, ''Sockaddr end''))"

section \<open>showip.c\<close>

text \<open>The bytes of a pointer in memory, the lowest first.\<close>

definition pointer_bytes :: "64 word \<Rightarrow> byte list" where
  "pointer_bytes p = map (\<lambda>i. ucast (drop_bit (8 * i) p)) [0..<8]"

record showip =
  out_lines :: "string list"
  err_lines :: "string list"
  ip_address :: "string option"

definition address_pointer :: "int \<Rightarrow> 64 word \<Rightarrow> 64 word" where
  "address_pointer family ai_addr_pointer = ai_addr_pointer + (if family = AF_INET then 4 else 8)"

text \<open>
  \<open>inet_ntop\<close> for the object that \<open>src\<close> points to: reads 4 or 16 of its bytes, or fails for
  an unknown family, which leaves the destination as it is.
\<close>

definition AF_INET6 :: int where "AF_INET6 = 10"

definition ntop_into :: "(byte list \<Rightarrow> string) \<Rightarrow> int \<Rightarrow> object \<Rightarrow> string option \<Rightarrow> string option result" where
  "ntop_into inet_ntop6 family src dst =
     (if family = AF_INET then bindE (read_at 0 4 src) (\<lambda>bs. Inr (Some (inet_ntop4 bs)))
      else if family = AF_INET6 then bindE (read_at 0 16 src) (\<lambda>bs. Inr (Some (inet_ntop6 bs)))
      else Inr dst)"

text \<open>One round of the loop: the call gets the address of the variable \<open>addr\<close>, which holds the pointer.\<close>

definition showip_round :: "(byte list \<Rightarrow> string) \<Rightarrow> 64 word \<times> addrinfo \<Rightarrow> showip \<Rightarrow> cpp_error option \<times> showip" where
  "showip_round inet_ntop6 cur s =
     (let ip_version = (if ai_family (snd cur) = AF_INET then ''IPv4'' else ''IPv6'');
          addr = address_pointer (ai_family (snd cur)) (fst cur) in
      case ntop_into inet_ntop6 (ai_family (snd cur)) (map Some (pointer_bytes addr)) (ip_address s) of
        Inl e \<Rightarrow> (Some e, s)
      | Inr ip \<Rightarrow>
          (case ip of
             None \<Rightarrow> (Some Uninitialised, s)
           | Some ip \<Rightarrow> (None, s\<lparr>out_lines := out_lines s @ ['' '' @ ip_version @ '': '' @ ip], ip_address := Some ip\<rparr>)))"

fun showip_loop :: "(byte list \<Rightarrow> string) \<Rightarrow> (64 word \<times> addrinfo) list \<Rightarrow> showip \<Rightarrow> cpp_error option \<times> showip" where
  "showip_loop inet_ntop6 [] s = (None, s)"
| "showip_loop inet_ntop6 (cur # res) s =
     (case showip_round inet_ntop6 cur s of
        (None, s) \<Rightarrow> showip_loop inet_ntop6 res s
      | (Some e, s) \<Rightarrow> (Some e, s))"

text \<open>\<open>main\<close>: the exit status or the failure, with the lines written.\<close>

definition showip_main :: "(string \<Rightarrow> int \<times> (64 word \<times> addrinfo) list) \<Rightarrow> (byte list \<Rightarrow> string) \<Rightarrow>
    string list \<Rightarrow> int result \<times> showip" where
  "showip_main getaddrinfo inet_ntop6 argv =
     (let s = \<lparr>out_lines = [], err_lines = [], ip_address = None\<rparr> in
      if length argv \<noteq> 2 then (Inr 1, s\<lparr>err_lines := [''Number of arguments must be 2'']\<rparr>)
      else
        let (status, res) = getaddrinfo (argv ! 1) in
        if status \<noteq> 0 then (Inr 1, s\<lparr>err_lines := [''Failed during getaddrinfo: '' @ gai_strerror status]\<rparr>)
        else
          case showip_loop inet_ntop6 res (s\<lparr>out_lines := [''IP addresses for '' @ argv ! 1]\<rparr>) of
            (None, s) \<Rightarrow> (Inr 0, s)
          | (Some e, s) \<Rightarrow> (Inl e, s))"


section \<open>What the programs do\<close>

lemma inet_ntoa_ntop4: "inet_ntoa addr = ascii (inet_ntop4 addr)"
  by (simp add: inet_ntoa_def inet_ntop4_def)

subsection \<open>Printed addresses read back\<close>

lemma split_char_end: "c \<notin> set p \<Longrightarrow> split_char c p = [p]"
  by (induction p) auto

lemma split_char_append: "c \<notin> set p \<Longrightarrow> split_char c (p @ c # r) = p # split_char c r"
  by (induction p) auto

lemma nat_string_no_leading_zero: "0 < n \<Longrightarrow> hd (nat_string n) \<noteq> CHR ''0''"
proof (induction n rule: nat_string.induct)
  case (1 n)
  show ?case
  proof (cases "n < 10")
    case True
    have "digit_val (digit_char n) \<noteq> digit_val (CHR ''0'')" 
      using True "1.prems" by (simp add: digit_char_props digit_val_def [of "CHR ''0''"])
    with True show ?thesis by (subst nat_string.simps) auto
  next
    case False
    with "1" show ?thesis by (subst nat_string.simps) (simp add: hd_append)
  qed
qed

lemma octet_to_string: "octet (to_string (uint b)) = Some b"
proof -
  have range: "0 \<le> uint b" "uint b \<le> 255" using uint_bounded [of b] by simp_all
  have eq: "to_string (uint b) = nat_string (uint b)" using range by (simp add: to_string_def)
  have "hd (nat_string (uint b)) = CHR ''0'' \<longrightarrow> length (nat_string (uint b)) = 1"
    using nat_string_no_leading_zero [of "uint b"] range(1)
    by (cases "uint b = 0") (auto simp: nat_string.simps [of 0])
  then show ?thesis
    using nat_string_digits [OF range(1)] digits_val_nat_string [OF range(1)] range by (simp add: octet_def eq)
qed

lemma to_string_no_dot: "CHR ''.'' \<notin> set (to_string (uint (b :: byte)))"
proof -
  have "\<forall>c \<in> set (to_string (uint b)). is_digit c" using nat_string_digits [of "uint b"] by (simp add: to_string_def)
  moreover have "\<not> is_digit (CHR ''.'')" by (simp add: is_digit_def)
  ultimately show ?thesis by blast
qed

theorem inet_round_trip: "inet_pton4 (inet_ntop4 [a, b, c, d]) = Some [a, b, c, d]"
  by (simp add: inet_pton4_def inet_ntop4_def split_char_append split_char_end to_string_no_dot octet_to_string)

lemma inet_ntop4_inject:
  assumes "length x = 4" "length y = 4"
  shows "inet_ntop4 x = inet_ntop4 y \<longleftrightarrow> x = y"
proof -
  have "\<exists>a b c d. z = [a, b, c, d]" if "length z = 4" for z :: "byte list"
    using that by (auto simp: length_Suc_conv numeral_eq_Suc)
  with assms inet_round_trip show ?thesis by (metis option.inject)
qed

subsection \<open>sockaddr.c\<close>

lemma pton_examples:
  "inet_pton4 ''192.0.2.1'' = Some [192, 0, 2, 1]"
  "inet_pton6 ''2001:db8:63b3:1::3490'' = Some [32, 1, 13, 184, 99, 179, 0, 1, 0, 0, 0, 0, 0, 0, 52, 144]"
  by code_simp+

text \<open>The two addresses are written into objects of which all other bytes, the families too, stay unset.\<close>

lemma string_to_sockaddr_sets:
  "read_at 4 4 (fst string_to_sockaddr) = Inr [192, 0, 2, 1]"
  "read_at 0 2 (fst string_to_sockaddr) = Inl Uninitialised"
  "read_at 8 16 (snd string_to_sockaddr) = Inr [32, 1, 13, 184, 99, 179, 0, 1, 0, 0, 0, 0, 0, 0, 52, 144]"
  by code_simp+

lemma sockaddr_to_string_unset: "sockaddr_to_string inet_ntop6 = Inl Uninitialised"
  by (simp add: sockaddr_to_string_def read_at_def numeral_eq_Suc)

subsection \<open>showip.c\<close>

lemma length_pointer_bytes [simp]: "length (pointer_bytes p) = 8"
  by (simp add: pointer_bytes_def)

lemma those_Some: "those (map Some xs) = Some xs"
  by (induction xs) auto

text \<open>What a round prints for an IPv4 address; for an IPv6 address it reads behind the variable.\<close>

definition showip_line :: "64 word \<times> addrinfo \<Rightarrow> string" where
  "showip_line cur = '' IPv4: '' @ inet_ntop4 (take 4 (pointer_bytes (fst cur + 4)))"

lemma showip_round_INET:
  assumes "ai_family (snd cur) = AF_INET"
  shows "showip_round inet_ntop6 cur s =
    (None, s\<lparr>out_lines := out_lines s @ [showip_line cur], ip_address := Some (inet_ntop4 (take 4 (pointer_bytes (fst cur + 4))))\<rparr>)"
  using assms by (simp add: showip_round_def ntop_into_def read_at_def take_map those_Some address_pointer_def showip_line_def Let_def)

lemma showip_round_INET6:
  assumes "ai_family (snd cur) = AF_INET6"
  shows "showip_round inet_ntop6 cur s = (Some OutOfBounds, s)"
  using assms by (simp add: showip_round_def ntop_into_def read_at_def AF_INET_def AF_INET6_def Let_def)

lemma showip_loop_families:
  assumes "\<forall>cur \<in> set res. ai_family (snd cur) \<in> {AF_INET, AF_INET6}"
  shows "fst (showip_loop inet_ntop6 res s) = (if \<forall>cur \<in> set res. ai_family (snd cur) = AF_INET then None else Some OutOfBounds)"
    "out_lines (snd (showip_loop inet_ntop6 res s)) = out_lines s @ map showip_line (takeWhile (\<lambda>cur. ai_family (snd cur) = AF_INET) res)"
  using assms
proof (induction res arbitrary: s)
  case (Cons cur res)
  {
    case 1
    then show ?case using Cons
      by (cases "ai_family (snd cur) = AF_INET") (auto simp: showip_round_INET showip_round_INET6)
  next
    case 2
    then show ?case using Cons
      by (cases "ai_family (snd cur) = AF_INET") (auto simp: showip_round_INET showip_round_INET6)
  }
qed simp_all

text \<open>
  Property C39. \<open>showip\<close> for a host that is resolved: the lines it prints do not depend on the addresses but
  on where the resolver has placed them: each IPv4 address is shown as the four low bytes of the pointer
  to it, which is the address itself exactly when the bytes happen to agree. The first IPv6 address
  makes \<open>inet_ntop\<close> read beyond the pointer.
\<close>

theorem showip_prints_pointers:
  assumes "getaddrinfo host = (0, res)" "\<forall>cur \<in> set res. ai_family (snd cur) \<in> {AF_INET, AF_INET6}"
  shows "fst (showip_main getaddrinfo inet_ntop6 [program, host]) =
      (if \<forall>cur \<in> set res. ai_family (snd cur) = AF_INET then Inr 0 else Inl OutOfBounds) \<and>
    out_lines (snd (showip_main getaddrinfo inet_ntop6 [program, host])) =
      (''IP addresses for '' @ host) # map showip_line (takeWhile (\<lambda>cur. ai_family (snd cur) = AF_INET) res) \<and>
    (\<forall>cur \<in> set res. length (ai_addr (snd cur)) = 16 \<longrightarrow>
       (showip_line cur = '' IPv4: '' @ inet_ntop4 (take 4 (drop 4 (ai_addr (snd cur)))) \<longleftrightarrow>
        take 4 (pointer_bytes (fst cur + 4)) = take 4 (drop 4 (ai_addr (snd cur)))))"
proof -
  let ?s = "\<lparr>out_lines = [''IP addresses for '' @ host], err_lines = [], ip_address = None\<rparr>"
  obtain e s where run: "showip_loop inet_ntop6 res ?s = (e, s)" by fastforce
  have "fst (showip_main getaddrinfo inet_ntop6 [program, host]) = (case e of None \<Rightarrow> Inr 0 | Some e \<Rightarrow> Inl e)"
    "snd (showip_main getaddrinfo inet_ntop6 [program, host]) = s"
    using assms(1) run by (simp_all add: showip_main_def split: option.splits)
  moreover have "e = (if \<forall>cur \<in> set res. ai_family (snd cur) = AF_INET then None else Some OutOfBounds)"
    "out_lines s = (''IP addresses for '' @ host) # map showip_line (takeWhile (\<lambda>cur. ai_family (snd cur) = AF_INET) res)"
    using showip_loop_families [OF assms(2), of inet_ntop6 ?s] run by simp_all
  moreover have "showip_line cur = '' IPv4: '' @ inet_ntop4 (take 4 (drop 4 (ai_addr (snd cur)))) \<longleftrightarrow>
      take 4 (pointer_bytes (fst cur + 4)) = take 4 (drop 4 (ai_addr (snd cur)))" if "length (ai_addr (snd cur)) = 16" for cur
    using that by (simp add: showip_line_def inet_ntop4_inject)
  ultimately show ?thesis by simp
qed

theorem showip_prints_pointers_witness:
  "out_lines (snd (showip_main (\<lambda>_. (0, [(93824992235516, \<lparr>ai_family = 2, ai_socktype = 1, ai_protocol = 6,
      ai_addr = [2, 0, 0, 0, 127, 0, 0, 1, 0, 0, 0, 0, 0, 0, 0, 0]\<rparr>)])) (\<lambda>_. []) [''showip'', ''localhost''])) =
    [''IP addresses for localhost'', '' IPv4: 0.80.85.85'']"
proof -
  let ?cur = "(93824992235516, \<lparr>ai_family = 2, ai_socktype = 1, ai_protocol = 6,
      ai_addr = [2, 0, 0, 0, 127, 0, 0, 1, 0, 0, 0, 0, 0, 0, 0, 0]\<rparr>) :: 64 word \<times> addrinfo"
  have "\<forall>cur \<in> set [?cur]. ai_family (snd cur) \<in> {AF_INET, AF_INET6}" by (simp add: AF_INET_def)
  from showip_prints_pointers [of "\<lambda>_. (0, [?cur])", OF refl this, of "\<lambda>_. []" "''showip''" "''localhost''"]
  have "out_lines (snd (showip_main (\<lambda>_. (0, [?cur])) (\<lambda>_. []) [''showip'', ''localhost''])) =
    [''IP addresses for '' @ ''localhost'', showip_line ?cur]" by (simp add: AF_INET_def)
  moreover have "showip_line ?cur = '' IPv4: 0.80.85.85''" by code_simp
  ultimately show ?thesis by simp
qed

end
