(* ===== verification/Bash_Commands.thy ===== *)
theory Bash_Commands
  imports Text_IO
begin

text \<open>
  \<open>processes_channels_signals/bash_commands.cpp\<close>: the line of commands is split at \<open>|\<close>, and
  every command is run in a child process with its standard input and output redirected. A table
  of descriptors is the list of what its entries refer to. The programs that are executed are a
  parameter: what a program writes for its input, \<open>None\<close> when it cannot be executed.
\<close>

section \<open>Splitting the input\<close>

text \<open>\<open>std::istream_iterator<std::string>\<close>: the words between white space.\<close>

function input_words :: "string \<Rightarrow> string list" where
  "input_words s = (let r = dropWhile is_space s in
     if r = [] then [] else takeWhile (\<lambda>c. \<not> is_space c) r # input_words (dropWhile (\<lambda>c. \<not> is_space c) r))"
  by pat_completeness auto
termination
proof (relation "measure length")
  fix s r :: string assume r: "r = dropWhile is_space s" "r \<noteq> []"
  then have "\<not> is_space (hd r)" using hd_dropWhile [of is_space s] by simp
  then have "length (dropWhile (\<lambda>c. \<not> is_space c) r) < length r"
    using r(2) by (cases r) (simp_all add: le_imp_less_Suc length_dropWhile_le)
  also have "length r \<le> length s" unfolding r(1) by (rule length_dropWhile_le)
  finally show "(dropWhile (\<lambda>c. \<not> is_space c) r, s) \<in> measure length" by simp
qed simp

declare input_words.simps [simp del]

text \<open>The loop over the tokens; \<open>cur\<close> is the range from \<open>first\<close> to \<open>it\<close>.\<close>

fun split_commands :: "string list \<Rightarrow> string list \<Rightarrow> string list list" where
  "split_commands [] cur = (if cur \<noteq> [] then [cur] else [])"
| "split_commands (t # ts) cur =
     (if t = ''|'' then cur # split_commands ts [] else split_commands ts (cur @ [t]))"

definition read_commands :: "string \<Rightarrow> string list list" where
  "read_commands input = split_commands (input_words input) []"

section \<open>Descriptors and processes\<close>

datatype endpoint = Stdin | Stdout | Stderr | PipeRead nat | PipeWrite nat | ResultFile

type_synonym fd_table = "endpoint option list"

definition alloc_fd :: "endpoint \<Rightarrow> fd_table \<Rightarrow> nat \<times> fd_table" where
  "alloc_fd e t = (let i = length (takeWhile (\<lambda>x. x \<noteq> None) t) in
     (i, if i < length t then t[i := Some e] else t @ [Some e]))"

definition close_fd :: "nat \<Rightarrow> fd_table \<Rightarrow> fd_table" where
  "close_fd fd t = t[fd := None]"

definition dup2 :: "nat \<Rightarrow> nat \<Rightarrow> fd_table \<Rightarrow> fd_table" where
  "dup2 old new t = t[new := t ! old]"

record shell =
  fd_tab :: fd_table
  pipe_count :: nat
  pipe_data :: "nat \<Rightarrow> string"
  result_out :: string

definition make_pipe :: "shell \<Rightarrow> (nat \<times> nat) \<times> shell" where
  "make_pipe s =
     (let (r, t) = alloc_fd (PipeRead (pipe_count s)) (fd_tab s);
          (w, t) = alloc_fd (PipeWrite (pipe_count s)) t
      in ((r, w), s\<lparr>fd_tab := t, pipe_count := pipe_count s + 1\<rparr>))"

text \<open>The descriptors of the child of command \<open>idx\<close> of \<open>n\<close> when it calls \<open>execvp\<close>.\<close>

definition child_table :: "nat \<Rightarrow> nat \<Rightarrow> nat \<Rightarrow> nat \<Rightarrow> fd_table \<Rightarrow> fd_table" where
  "child_table idx n input_fd write_fd t =
     (let t = (if idx \<noteq> 0 then dup2 input_fd 0 (close_fd 0 t) else t) in
      if idx \<noteq> n - 1 then dup2 write_fd 1 (close_fd 1 t)
      else let (out, t) = alloc_fd ResultFile t in dup2 out 1 t)"

definition pipe_capacity :: nat where "pipe_capacity = 65536"

datatype outcome = Done | ExitFailure | Deadlock

text \<open>
  \<open>execvp\<close> fails on a command of no words, as on a name that is no program, and the child ends.
  Otherwise its program reads its standard input to the end and writes its standard output. It
  blocks for ever when the write end of the pipe it reads from is still open somewhere, and when
  what it writes does not fit the pipe, which nobody reads before it has ended. \<open>/home/box/result.out\<close> is not
  truncated when it is opened.
\<close>

definition run_child :: "(string list \<Rightarrow> (string \<Rightarrow> string) option) \<Rightarrow> string \<Rightarrow> string list \<Rightarrow> fd_table \<Rightarrow> shell \<Rightarrow> outcome \<times> shell" where
  "run_child prog terminal args t s =
     (case if args = [] then None else prog args of
        None \<Rightarrow> (Done, s)
      | Some f \<Rightarrow>
          let blocked = (case t ! 0 of Some (PipeRead k) \<Rightarrow> Some (PipeWrite k) \<in> set (t @ fd_tab s) | _ \<Rightarrow> False);
              inp = (case t ! 0 of Some Stdin \<Rightarrow> terminal | Some (PipeRead k) \<Rightarrow> pipe_data s k | _ \<Rightarrow> []);
              out = f inp in
          if blocked then (Deadlock, s)
          else case t ! 1 of
            Some (PipeWrite k) \<Rightarrow>
              if length (pipe_data s k @ out) \<le> pipe_capacity
              then (Done, s\<lparr>pipe_data := (pipe_data s)(k := pipe_data s k @ out)\<rparr>) else (Deadlock, s)
          | Some ResultFile \<Rightarrow> (Done, s\<lparr>result_out := out @ drop (length out) (result_out s)\<rparr>)
          | _ \<Rightarrow> (Done, s))"

text \<open>The loop over the commands; \<open>forks\<close> says for which of them \<open>fork\<close> succeeds.\<close>

fun run_commands :: "(string list \<Rightarrow> (string \<Rightarrow> string) option) \<Rightarrow> string \<Rightarrow> (nat \<Rightarrow> bool) \<Rightarrow> nat \<Rightarrow> nat \<Rightarrow> nat \<Rightarrow>
    string list list \<Rightarrow> shell \<Rightarrow> outcome \<times> shell" where
  "run_commands prog terminal forks n idx input_fd [] s = (Done, s)"
| "run_commands prog terminal forks n idx input_fd (args # cmds) s =
     (let ((r, w), s) = make_pipe s in
      if \<not> forks idx then (ExitFailure, s)
      else
        case run_child prog terminal args (child_table idx n input_fd w (fd_tab s)) s of
          (Done, s) \<Rightarrow> run_commands prog terminal forks n (idx + 1) r cmds (s\<lparr>fd_tab := close_fd w (fd_tab s)\<rparr>)
        | (p, s) \<Rightarrow> (p, s))"

text \<open>\<open>main\<close>, from the text on standard input, which it reads to the end.\<close>

definition bash_main :: "(string list \<Rightarrow> (string \<Rightarrow> string) option) \<Rightarrow> (nat \<Rightarrow> bool) \<Rightarrow> string \<Rightarrow> shell \<Rightarrow> outcome \<times> shell" where
  "bash_main prog forks input s =
     (let commands = read_commands input;
          (_, s) = make_pipe s
      in run_commands prog [] forks (length commands) 0 0 commands s)"

definition shell_start :: "string \<Rightarrow> shell" where
  "shell_start old = \<lparr>fd_tab = [Some Stdin, Some Stdout, Some Stderr], pipe_count = 0, pipe_data = \<lambda>_. [], result_out = old\<rparr>"

section \<open>Reading back a printed line of commands\<close>

definition print_words :: "string list \<Rightarrow> string" where
  "print_words ws = concat (map (\<lambda>w. w @ '' '') ws)"

fun join_commands :: "string list list \<Rightarrow> string list" where
  "join_commands [] = []"
| "join_commands [c] = c"
| "join_commands (c # cs) = c @ [''|''] @ join_commands cs"

definition plain_word :: "string \<Rightarrow> bool" where
  "plain_word w \<longleftrightarrow> w \<noteq> [] \<and> (\<forall>c \<in> set w. \<not> is_space c)"

lemma space_is_space [simp]: "is_space CHR '' ''"
  by (simp add: is_space_def)

lemma input_words_print: "(\<forall>w \<in> set ws. plain_word w) \<Longrightarrow> input_words (print_words ws) = ws"
proof (induction ws)
  case Nil
  show ?case by (simp add: print_words_def input_words.simps)
next
  case (Cons w ws)
  let ?r = "w @ '' '' @ print_words ws"
  have w: "w \<noteq> []" "\<forall>c \<in> set w. \<not> is_space c" using Cons.prems by (auto simp: plain_word_def)
  then have 1: "dropWhile is_space ?r = ?r" by (cases w) auto
  have 2: "takeWhile (\<lambda>c. \<not> is_space c) ?r = w" "dropWhile (\<lambda>c. \<not> is_space c) ?r = '' '' @ print_words ws"
    using w(2) by (simp_all add: takeWhile_append2 dropWhile_append2)
  have 3: "input_words ('' '' @ x) = input_words x" for x
    by (subst (1 2) input_words.simps) simp
  have "input_words (print_words (w # ws)) = input_words ?r" by (simp add: print_words_def)
  also have "\<dots> = w # input_words ('' '' @ print_words ws)"
    using w(1) by (subst input_words.simps) (simp only: 1 2 Let_def append_is_Nil_conv simp_thms if_False)
  also have "\<dots> = w # ws" unfolding 3 using Cons by simp
  finally show ?case .
qed

lemma split_commands_append:
  "''|'' \<notin> set c \<Longrightarrow> split_commands (c @ ts) cur = split_commands ts (cur @ c)"
  by (induction c arbitrary: cur) auto

lemma split_join: "(\<forall>c \<in> set cmds. c \<noteq> [] \<and> ''|'' \<notin> set c) \<Longrightarrow> split_commands (join_commands cmds) [] = cmds"
proof (induction cmds rule: join_commands.induct)
  case (2 c)
  then show ?case using split_commands_append [of c "[]" "[]"] by simp
qed (simp_all add: split_commands_append)

lemma set_join: "set (join_commands cmds) \<subseteq> insert ''|'' (\<Union> (set ` set cmds))"
  by (induction cmds rule: join_commands.induct) auto

text \<open>
  Property C28. A line of commands is read back: when the words contain no white space, none is
  \<open>|\<close>, and no command is empty, then printing the commands with \<open>|\<close> between them and reading the
  text gives the commands again.
\<close>

theorem read_printed_commands:
  assumes "\<forall>c \<in> set cmds. c \<noteq> [] \<and> (\<forall>w \<in> set c. plain_word w \<and> w \<noteq> ''|'')"
  shows "read_commands (print_words (join_commands cmds)) = cmds"
proof -
  have "plain_word ''|''" by (simp add: plain_word_def is_space_def)
  then have "\<forall>w \<in> set (join_commands cmds). plain_word w" using assms set_join [of cmds] by blast
  then have "input_words (print_words (join_commands cmds)) = join_commands cmds" by (rule input_words_print)
  moreover have "split_commands (join_commands cmds) [] = cmds" using assms by (intro split_join) auto
  ultimately show ?thesis by (simp add: read_commands_def)
qed

theorem read_printed_commands_witness:
  "read_commands (print_words [''who'', ''|'', ''sort'', ''|'', ''uniq'', ''-c'']) = [[''who''], [''sort''], [''uniq'', ''-c'']]"
proof -
  have "\<forall>c \<in> set [[''who''], [''sort''], [''uniq'', ''-c'']]. c \<noteq> [] \<and> (\<forall>w \<in> set c. plain_word w \<and> w \<noteq> ''|'')"
    by (simp add: plain_word_def is_space_def)
  from read_printed_commands [OF this] show ?thesis by simp
qed

section \<open>The plumbing\<close>

lemma alloc_fd_spec:
  assumes "alloc_fd e t = (i, t')"
  shows "i < length t'" "t' ! i = Some e" "length t \<le> length t'"
    and "\<And>j. j < length t \<Longrightarrow> j \<noteq> i \<Longrightarrow> t' ! j = t ! j"
    and "\<And>j. j < length t' \<Longrightarrow> j \<noteq> i \<Longrightarrow> j < length t"
    and "\<And>j. j < length t \<Longrightarrow> t ! j \<noteq> None \<Longrightarrow> j \<noteq> i"
proof -
  let ?p = "\<lambda>x. x \<noteq> None"
  have i: "i = length (takeWhile ?p t)" and t': "t' = (if i < length t then t[i := Some e] else t @ [Some e])"
    using assms by (auto simp: alloc_fd_def Let_def)
  have le: "i \<le> length t" unfolding i by (rule length_takeWhile_le)
  have free: "i < length t \<Longrightarrow> t ! i = None" unfolding i using nth_length_takeWhile [of ?p t] by simp
  show "i < length t'" "t' ! i = Some e" "length t \<le> length t'" using le by (auto simp: t')
  show "\<And>j. j < length t \<Longrightarrow> j \<noteq> i \<Longrightarrow> t' ! j = t ! j"
    "\<And>j. j < length t' \<Longrightarrow> j \<noteq> i \<Longrightarrow> j < length t"
    using le by (auto simp: t' nth_append less_Suc_eq split: if_splits)
  show "\<And>j. j < length t \<Longrightarrow> t ! j \<noteq> None \<Longrightarrow> j \<noteq> i" using free by auto
qed

text \<open>The standard descriptors are in place, and the parent holds no write end but that of the first pipe.\<close>

definition shell_ok :: "nat \<Rightarrow> nat \<Rightarrow> shell \<Rightarrow> bool" where
  "shell_ok idx input_fd s \<longleftrightarrow>
     3 \<le> length (fd_tab s) \<and> fd_tab s ! 0 = Some Stdin \<and> fd_tab s ! 1 = Some Stdout \<and> fd_tab s ! 2 = Some Stderr \<and>
     (\<forall>j < length (fd_tab s). \<forall>k. fd_tab s ! j = Some (PipeWrite k) \<longrightarrow> k = 0) \<and> pipe_count s = idx + 1 \<and>
     (idx \<noteq> 0 \<longrightarrow> 3 \<le> input_fd \<and> input_fd < length (fd_tab s) \<and> fd_tab s ! input_fd = Some (PipeRead idx)) \<and>
     (\<forall>k > idx. pipe_data s k = [])"

lemma shell_ok_std: "shell_ok idx input_fd s \<Longrightarrow> j < 3 \<Longrightarrow> j < length (fd_tab s) \<and> fd_tab s ! j \<noteq> None"
  by (cases j; cases "j - 1") (auto simp: shell_ok_def less_Suc_eq numeral_3_eq_3 numeral_2_eq_2)

text \<open>The table after the pipe of command \<open>idx\<close> has been made.\<close>

lemma make_pipe_spec:
  assumes "shell_ok idx input_fd s" "make_pipe s = ((r, w), s')"
  shows "3 \<le> r" "3 \<le> w" "r \<noteq> w" "r < length (fd_tab s')" "w < length (fd_tab s')" "length (fd_tab s) \<le> length (fd_tab s')"
    and "fd_tab s' ! r = Some (PipeRead (idx + 1))" "fd_tab s' ! w = Some (PipeWrite (idx + 1))"
    and "\<And>j. j < length (fd_tab s) \<Longrightarrow> fd_tab s ! j \<noteq> None \<Longrightarrow> fd_tab s' ! j = fd_tab s ! j \<and> j \<noteq> r \<and> j \<noteq> w"
    and "\<And>j k. j < length (fd_tab s') \<Longrightarrow> fd_tab s' ! j = Some (PipeWrite k) \<Longrightarrow> k = 0 \<or> (j = w \<and> k = idx + 1)"
    and "pipe_count s' = idx + 2" "pipe_data s' = pipe_data s" "result_out s' = result_out s"
proof -
  obtain t1 where a1: "alloc_fd (PipeRead (idx + 1)) (fd_tab s) = (r, t1)"
    and a2: "alloc_fd (PipeWrite (idx + 1)) t1 = (w, fd_tab s')"
    and s': "pipe_count s' = idx + 2" "pipe_data s' = pipe_data s" "result_out s' = result_out s"
    using assms by (auto simp: make_pipe_def Let_def shell_ok_def split: prod.splits)
  note p1 = alloc_fd_spec [OF a1] and p2 = alloc_fd_spec [OF a2]
  show "pipe_count s' = idx + 2" "pipe_data s' = pipe_data s" "result_out s' = result_out s" by (fact s')+
  have "j \<noteq> r" "j \<noteq> w" if "j < 3" for j
    using shell_ok_std [OF assms(1) that] p1 p2(6) [of j] by (auto dest: p1(6) p1(4))
  then show "3 \<le> r" "3 \<le> w" using not_less by blast+
  show rw: "r \<noteq> w" using p1(1,2) p2(6) by auto
  show "r < length (fd_tab s')" "w < length (fd_tab s')" "length (fd_tab s) \<le> length (fd_tab s')"
    using p1(1,3) p2(1,3) by auto
  show "fd_tab s' ! r = Some (PipeRead (idx + 1))" using p2(4) [of r] p1(1,2) rw by simp
  show "fd_tab s' ! w = Some (PipeWrite (idx + 1))" by (rule p2(2))
  show "fd_tab s' ! j = fd_tab s ! j \<and> j \<noteq> r \<and> j \<noteq> w" if "j < length (fd_tab s)" "fd_tab s ! j \<noteq> None" for j
  proof -
    have 1: "j \<noteq> r" using that p1(6) by blast
    then have 2: "t1 ! j = fd_tab s ! j" using that p1(4) by blast
    have "j \<noteq> w" using that 2 p1(3) p2(6) [of j] by simp
    then show ?thesis using 1 2 that p1(3) p2(4) [of j] by simp
  qed
  show "k = 0 \<or> (j = w \<and> k = idx + 1)" if "j < length (fd_tab s')" "fd_tab s' ! j = Some (PipeWrite k)" for j k
  proof (cases "j = w")
    case False
    then have j1: "j < length t1" "t1 ! j = Some (PipeWrite k)" using that p2(4,5) by auto
    then have "j \<noteq> r" using p1(2) by auto
    then have "j < length (fd_tab s)" "fd_tab s ! j = Some (PipeWrite k)" using j1 p1(4,5) by auto
    then show ?thesis using assms(1) by (auto simp: shell_ok_def)
  qed (use that p2(2) in auto)
qed

lemma make_pipe_std:
  assumes "shell_ok idx input_fd s" "make_pipe s = ((r, w), s')"
  shows "fd_tab s' ! 0 = Some Stdin" "fd_tab s' ! 1 = Some Stdout" "fd_tab s' ! 2 = Some Stderr"
proof -
  have "fd_tab s' ! j = fd_tab s ! j" if "j < 3" for j
    using make_pipe_spec(9) [OF assms, of j] shell_ok_std [OF assms(1) that] by blast
  from this [of 0] this [of 1] this [of 2] assms(1)
  show "fd_tab s' ! 0 = Some Stdin" "fd_tab s' ! 1 = Some Stdout" "fd_tab s' ! 2 = Some Stderr"
    by (simp_all add: shell_ok_def)
qed

lemma set_alloc_fd: "alloc_fd e t = (i, t') \<Longrightarrow> set t' \<subseteq> insert (Some e) (set t)"
  using set_update_subset_insert [of t] by (auto simp: alloc_fd_def Let_def split: if_splits)

lemma set_dup2: "old < length t \<Longrightarrow> set (dup2 old new t) \<subseteq> set t"
  using set_update_subset_insert [of t new "t ! old"] by (auto simp: dup2_def)

lemma set_close_fd: "set (close_fd fd t) \<subseteq> insert None (set t)"
  using set_update_subset_insert [of t fd None] by (simp add: close_fd_def)

text \<open>Where the child of command \<open>idx\<close> reads from and writes to.\<close>

lemma child_table_spec:
  fixes n :: nat
  assumes ok: "shell_ok idx input_fd s" and mp: "make_pipe s = ((r, w), s')"
  defines "c \<equiv> child_table idx n input_fd w (fd_tab s')"
  shows "c ! 0 = (if idx = 0 then Some Stdin else Some (PipeRead idx))"
    and "c ! 1 = (if idx \<noteq> n - 1 then Some (PipeWrite (idx + 1)) else Some ResultFile)"
    and "set c \<subseteq> {None, Some ResultFile} \<union> set (fd_tab s')"
proof -
  note m = make_pipe_spec [OF ok mp]
  let ?t = "fd_tab s'"
  have len: "3 \<le> length ?t" "0 < length ?t" "1 < length ?t" using m(6) ok by (auto simp: shell_ok_def)
  note std = make_pipe_std [OF ok mp]
  define t1 where "t1 = (if idx \<noteq> 0 then dup2 input_fd 0 (close_fd 0 ?t) else ?t)"
  have inp: "idx \<noteq> 0 \<Longrightarrow> 3 \<le> input_fd \<and> input_fd < length ?t \<and> ?t ! input_fd = Some (PipeRead idx)"
    using m(6) m(9) [of input_fd] ok by (auto simp: shell_ok_def)
  have t1: "length t1 = length ?t" "t1 ! 0 = (if idx = 0 then Some Stdin else Some (PipeRead idx))"
      "t1 ! 1 = Some Stdout" "t1 ! 2 = Some Stderr" "t1 ! w = Some (PipeWrite (idx + 1))"
  proof -
    show "length t1 = length ?t" by (simp add: t1_def dup2_def close_fd_def)
    have same: "t1 ! j = ?t ! j" if "j \<noteq> 0" for j using that by (simp add: t1_def dup2_def close_fd_def)
    show "t1 ! 1 = Some Stdout" "t1 ! 2 = Some Stderr" "t1 ! w = Some (PipeWrite (idx + 1))"
      using std(2,3) m(2,8) by (simp_all add: same)
    show "t1 ! 0 = (if idx = 0 then Some Stdin else Some (PipeRead idx))"
    proof (cases "idx = 0")
      case False
      then have "input_fd \<noteq> 0" using inp by simp
      with False show ?thesis using inp len by (simp add: t1_def dup2_def close_fd_def)
    qed (simp add: t1_def std(1))
  qed
  have s1: "set t1 \<subseteq> insert None (set ?t)"
    using set_dup2 [of input_fd "close_fd 0 ?t" 0] set_close_fd [of 0 ?t] inp
    by (auto simp: t1_def close_fd_def)
  obtain out t2 where a: "alloc_fd ResultFile t1 = (out, t2)" by fastforce
  note p = alloc_fd_spec [OF a]
  have c: "c = (if idx \<noteq> n - 1 then dup2 w 1 (close_fd 1 t1) else dup2 out 1 t2)"
    unfolding c_def child_table_def t1_def [symmetric] Let_def a by simp
  have out: "0 \<noteq> out" "1 \<noteq> out" using p(6) [of 0] p(6) [of 1] t1 len by auto
  show "c ! 0 = (if idx = 0 then Some Stdin else Some (PipeRead idx))"
    using t1(1,2) len p(3) p(4) [of 0] out unfolding c by (auto simp: dup2_def close_fd_def)
  show "c ! 1 = (if idx \<noteq> n - 1 then Some (PipeWrite (idx + 1)) else Some ResultFile)"
    using t1 len m(2) p(1,2,3) unfolding c by (auto simp: dup2_def close_fd_def nth_list_update)
  have "set c \<subseteq> {None, Some ResultFile} \<union> set t1"
    using set_dup2 [of w "close_fd 1 t1" 1] set_close_fd [of 1 t1] set_dup2 [OF p(1), of 1] set_alloc_fd [OF a] t1(1) m(5)
    unfolding c by (auto simp: close_fd_def)
  with s1 show "set c \<subseteq> {None, Some ResultFile} \<union> set ?t" by blast
qed

section \<open>The pipeline\<close>

text \<open>What the commands produce one after the other, and whether all but the last output fit a pipe.\<close>

definition output_of :: "(string list \<Rightarrow> (string \<Rightarrow> string) option) \<Rightarrow> string list \<Rightarrow> string \<Rightarrow> string" where
  "output_of prog c x = (case prog c of None \<Rightarrow> [] | Some f \<Rightarrow> f x)"

definition pipeline :: "(string list \<Rightarrow> (string \<Rightarrow> string) option) \<Rightarrow> string list list \<Rightarrow> string \<Rightarrow> string" where
  "pipeline prog cmds x = fold (output_of prog) cmds x"

fun pipeline_fits :: "(string list \<Rightarrow> (string \<Rightarrow> string) option) \<Rightarrow> string list list \<Rightarrow> string \<Rightarrow> bool" where
  "pipeline_fits prog [] x = True"
| "pipeline_fits prog [c] x = True"
| "pipeline_fits prog (c # cs) x =
     (length (output_of prog c x) \<le> pipe_capacity \<and> pipeline_fits prog cs (output_of prog c x))"

definition received :: "nat \<Rightarrow> string \<Rightarrow> shell \<Rightarrow> string" where
  "received idx terminal s = (if idx = 0 then terminal else pipe_data s idx)"

text \<open>One command that is not the last.\<close>

lemma run_child_middle:
  fixes terminal :: string
  assumes ok: "shell_ok idx input_fd s" and mp: "make_pipe s = ((r, w), s')" and "idx \<noteq> n - 1" "args \<noteq> []" "prog args = Some f"
  defines "out \<equiv> f (received idx terminal s)"
  shows "run_child prog terminal args (child_table idx n input_fd w (fd_tab s')) s' =
    (if length out \<le> pipe_capacity then (Done, s'\<lparr>pipe_data := (pipe_data s')(idx + 1 := out)\<rparr>) else (Deadlock, s'))"
proof -
  note m = make_pipe_spec [OF ok mp] and c = child_table_spec [OF ok mp, of n]
  have "Some (PipeWrite idx) \<notin> set (fd_tab s')" if "idx \<noteq> 0"
    using m(10) that by (fastforce simp: in_set_conv_nth)
  then have free: "idx \<noteq> 0 \<Longrightarrow> Some (PipeWrite idx) \<notin> set (child_table idx n input_fd w (fd_tab s') @ fd_tab s')"
    using c(3) by auto
  have new: "pipe_data s' (idx + 1) = []" using ok m(12) by (simp add: shell_ok_def)
  show ?thesis using assms(3,4,5) c(1,2) free new m(12)
    by (auto simp: run_child_def Let_def out_def received_def)
qed

lemma run_child_last:
  fixes terminal :: string
  assumes ok: "shell_ok idx input_fd s" and mp: "make_pipe s = ((r, w), s')" and "idx = n - 1" "args \<noteq> []" "prog args = Some f"
  defines "out \<equiv> f (received idx terminal s)"
  shows "run_child prog terminal args (child_table idx n input_fd w (fd_tab s')) s' =
    (Done, s'\<lparr>result_out := out @ drop (length out) (result_out s')\<rparr>)"
proof -
  note m = make_pipe_spec [OF ok mp] and c = child_table_spec [OF ok mp, of n]
  have "Some (PipeWrite idx) \<notin> set (fd_tab s')" if "idx \<noteq> 0"
    using m(10) that by (fastforce simp: in_set_conv_nth)
  then have free: "idx \<noteq> 0 \<Longrightarrow> Some (PipeWrite idx) \<notin> set (child_table idx n input_fd w (fd_tab s') @ fd_tab s')"
    using c(3) by auto
  show ?thesis using assms(3,4,5) c(1,2) free m(12)
    by (auto simp: run_child_def Let_def out_def received_def)
qed

lemma shell_ok_next:
  assumes ok: "shell_ok idx input_fd s" and mp: "make_pipe s = ((r, w), s')"
  shows "shell_ok (idx + 1) r (s'\<lparr>pipe_data := (pipe_data s')(idx + 1 := out), fd_tab := close_fd w (fd_tab s')\<rparr>)"
proof -
  note m = make_pipe_spec [OF ok mp]
  note std = make_pipe_std [OF ok mp]
  show ?thesis
    using std m ok m(10) by (auto simp: shell_ok_def close_fd_def nth_list_update split: if_splits)
qed

lemma run_commands_result:
  assumes "shell_ok idx input_fd s" "cmds \<noteq> []" "n = idx + length cmds" "\<And>i. forks i" "\<forall>c \<in> set cmds. c \<noteq> [] \<and> prog c \<noteq> None"
  shows "case run_commands prog terminal forks n idx input_fd cmds s of (p, s') \<Rightarrow>
    if pipeline_fits prog cmds (received idx terminal s)
    then p = Done \<and> (let out = pipeline prog cmds (received idx terminal s) in
      result_out s' = out @ drop (length out) (result_out s))
    else p = Deadlock"
  using assms(1,2,3,5)
proof (induction cmds arbitrary: idx input_fd s)
  case (Cons c cs)
  obtain f where f: "c \<noteq> []" "prog c = Some f" using Cons.prems(4) by auto
  obtain r w s1 where mp: "make_pipe s = ((r, w), s1)" by (metis prod.exhaust)
  note m = make_pipe_spec [OF Cons.prems(1) mp]
  define x where "x = received idx terminal s"
  have out: "output_of prog c x = f x" by (simp add: output_of_def f)
  show ?case
  proof (cases cs)
    case Nil
    then have "idx = n - 1" using Cons.prems(3) by simp
    from run_child_last [where prog = prog and args = c and terminal = terminal, OF Cons.prems(1) mp this f(1) f(2)]
    show ?thesis using Nil assms(4) mp out m(13)
      by (simp add: pipeline_def x_def [symmetric] Let_def)
  next
    case cs: (Cons d ds)
    then have "idx \<noteq> n - 1" using Cons.prems(3) by simp
    note mid = run_child_middle [where prog = prog and args = c and terminal = terminal, OF Cons.prems(1) mp this f(1) f(2), folded x_def]
    show ?thesis
    proof (cases "length (f x) \<le> pipe_capacity")
      case False
      then show ?thesis using mid cs assms(4) mp out by (simp add: x_def [symmetric])
    next
      case True
      define s2 where "s2 = s1\<lparr>pipe_data := (pipe_data s1)(idx + 1 := f x), fd_tab := close_fd w (fd_tab s1)\<rparr>"
      have ok: "shell_ok (idx + 1) r s2" unfolding s2_def by (rule shell_ok_next [OF Cons.prems(1) mp])
      have rec: "received (idx + 1) terminal s2 = f x" by (simp add: received_def s2_def)
      have step: "run_commands prog terminal forks n idx input_fd (c # cs) s = run_commands prog terminal forks n (idx + 1) r cs s2"
        using mid True assms(4) mp by (simp add: s2_def)
      have same: "result_out s2 = result_out s" using m(13) by (simp add: s2_def)
      have fits: "pipeline_fits prog (c # cs) x = pipeline_fits prog cs (f x)" using cs True out by simp
      have pipe: "pipeline prog (c # cs) x = pipeline prog cs (f x)" by (simp add: pipeline_def out)
      have "case run_commands prog terminal forks n (idx + 1) r cs s2 of (p, s') \<Rightarrow>
        if pipeline_fits prog cs (f x)
        then p = Done \<and> (let out = pipeline prog cs (f x) in result_out s' = out @ drop (length out) (result_out s))
        else p = Deadlock"
        using Cons.IH [OF ok] Cons.prems(3,4) cs unfolding rec same by simp
      then show ?thesis unfolding step x_def [symmetric] fits pipe .
    qed
  qed
qed simp

lemma shell_start_ok: "make_pipe (shell_start old) = (p, s) \<Longrightarrow> shell_ok 0 0 s \<and> result_out s = old"
  by (auto simp: make_pipe_def shell_start_def alloc_fd_def Let_def shell_ok_def nth_Cons split: nat.splits)

text \<open>
  Property C29. When every \<open>fork\<close> succeeds and every command is the name of a program with its
  arguments, the program runs the commands as a pipeline: the bytes the last one produces are at the start of
  \<open>result.out\<close>, followed by what the file held beyond them, provided that what every command but
  the last produces fits the buffer of a pipe. Otherwise the program never returns: it waits for
  a command that waits for the buffer to be read.
\<close>

theorem bash_main_pipeline:
  assumes "\<And>i. forks i" and "\<forall>c \<in> set (read_commands input). c \<noteq> [] \<and> prog c \<noteq> None"
    and "read_commands input \<noteq> []"
  shows "case bash_main prog forks input (shell_start old) of (p, s) \<Rightarrow>
    if pipeline_fits prog (read_commands input) []
    then p = Done \<and> (let out = pipeline prog (read_commands input) [] in
      result_out s = out @ drop (length out) old)
    else p = Deadlock"
proof -
  obtain p s where mp: "make_pipe (shell_start old) = (p, s)" by fastforce
  note ok = shell_start_ok [OF mp]
  have rec: "received 0 [] s = []" by (simp add: received_def)
  obtain q s' where run: "run_commands prog [] forks (length (read_commands input)) 0 0 (read_commands input) s = (q, s')" by fastforce
  show ?thesis
    using run_commands_result [where idx = 0 and input_fd = 0 and s = s and terminal = "[]" and forks = forks and prog = prog
      and cmds = "read_commands input"] ok assms mp run
    by (auto simp: bash_main_def Let_def rec split: if_splits)
qed

theorem bash_main_pipeline_witness:
  "case bash_main (\<lambda>c. if hd c = ''echo'' then Some (\<lambda>_. concat (tl c)) else Some rev) (\<lambda>_. True) ''echo abc | rev'' (shell_start ''12345'') of
     (p, s) \<Rightarrow> p = Done \<and> result_out s = ''cba45''"
proof -
  let ?prog = "\<lambda>c. if hd c = ''echo'' then Some (\<lambda>_. concat (tl c)) else Some rev"
  have r: "read_commands ''echo abc | rev'' = [[''echo'', ''abc''], [''rev'']]" by code_simp
  show ?thesis
    using bash_main_pipeline [where input = "''echo abc | rev''" and prog = ?prog and forks = "\<lambda>_. True" and old = "''12345''"]
    unfolding r by (simp add: pipeline_def output_of_def pipe_capacity_def)
qed

end
