(* ===== verification/Channels.thy ===== *)
theory Channels
  imports Net_Common
begin

text \<open>
  \<open>processes_channels_signals/fifo_channel.cpp\<close> and \<open>socketpair.cpp\<close>: a program that copies one
  named pipe to another, and a child that greets its parent over a pair of sockets. The system is
  the parameter of \<open>Net_Common\<close>.
\<close>

section \<open>Copying between named pipes\<close>

definition kInFifoName :: string where "kInFifoName = ''in.fifo''"
definition kOutFifoName :: string where "kOutFifoName = ''out.fifo''"
definition kFifoBufferSize :: nat where "kFifoBufferSize = 512"
definition EXIT_FAILURE :: int where "EXIT_FAILURE = 1"

definition MkFifoFailed :: "'a io_scheme \<Rightarrow> int \<times> 'a io_scheme" where
  "MkFifoFailed w = (EXIT_FAILURE, print_line (''Failed during mkfifo: '' @ to_string (errno w)) w)"

definition ReadFailed :: "'a io_scheme \<Rightarrow> int \<times> 'a io_scheme" where
  "ReadFailed w = (EXIT_FAILURE, print_line (''Failed during read: '' @ to_string (errno w)) w)"

text \<open>The four calls with which both ends of the loop clean up.\<close>

definition remove_fifos :: "os \<Rightarrow> int \<Rightarrow> int \<Rightarrow> 'a io_scheme \<Rightarrow> 'a io_scheme" where
  "remove_fifos sys input output w =
     (let (_, w) = call sys (Close input) w;
          (_, w) = call sys (Close output) w;
          (_, w) = call sys (Unlink kInFifoName) w;
          (_, w) = call sys (Unlink kOutFifoName) w
      in w)"

text \<open>One iteration of the loop; the result of \<open>write\<close> is not looked at.\<close>

definition fifo_iteration :: "os \<Rightarrow> int \<Rightarrow> int \<Rightarrow> io \<Rightarrow> progress \<times> io" where
  "fifo_iteration sys input output w =
     (let (r, w) = call sys (ReadFd input kFifoBufferSize) w;
          w = w\<lparr>buffer := bytes r @ drop (length (bytes r)) (buffer w)\<rparr>;
          bytes_read = ret r in
      if bytes_read < 0 then let (k, w) = ReadFailed (remove_fifos sys input output w) in (Exited k, w)
      else if bytes_read = 0 then (Exited 0, remove_fifos sys input output w)
      else let (_, w) = call sys (WriteFd output (take (nat bytes_read) (buffer w))) w in (Next, w))"

definition fifo_main :: "os \<Rightarrow> nat \<Rightarrow> io \<Rightarrow> progress \<times> io" where
  "fifo_main sys n w =
     (let (r, w) = call sys (Mkfifo kInFifoName) w in
      if ret r = ERROR then let (k, w) = MkFifoFailed w in (Exited k, w)
      else
        let (r, w) = call sys (Mkfifo kOutFifoName) w in
        if ret r = ERROR then let (k, w) = MkFifoFailed w in (Exited k, w)
        else
          let (i, w) = call sys (OpenFifo kInFifoName False) w;
              (out, w) = call sys (OpenFifo kOutFifoName True) w
          in server_loop (fifo_iteration sys (ret i) (ret out)) n w)"

section \<open>A pair of sockets\<close>

definition kPairBufferSize :: nat where "kPairBufferSize = 1024"

definition child_message :: "byte list" where
  "child_message = ascii ''Hello from child'' @ [0]"

text \<open>\<open>socketpair\<close> delivers the two descriptors in \<open>fds\<close>. The branch of the child:\<close>

definition pair_child :: "os \<Rightarrow> int \<Rightarrow> int \<Rightarrow> io \<Rightarrow> io" where
  "pair_child sys fd0 fd1 w =
     (let (_, w) = call sys (Close fd1) w;
          (r, w) = call sys (Send fd0 (length child_message) child_message) w;
          w = (if ret r = ERROR then print_line (''Child: send failed: '' @ to_string (errno w)) w else w);
          (_, w) = call sys (Close fd0) w
      in w)"

text \<open>
  The branch of the parent, with the line it prints. The bytes received are made a string up to the
  first zero of the array, wherever that is; reading past its end is undefined.
\<close>

definition pair_parent :: "os \<Rightarrow> int \<Rightarrow> int \<Rightarrow> io \<Rightarrow> (byte list option \<times> io) result" where
  "pair_parent sys fd0 fd1 w =
     (let (_, w) = call sys (Close fd0) w;
          (r, w) = call sys (Recv fd1 kPairBufferSize) w;
          w = w\<lparr>buffer := bytes r @ drop (length (bytes r)) (buffer w)\<rparr>;
          recv_bytes = ret r in
      if recv_bytes > 0 then
        if 0 \<in> set (buffer w) then
          let line = ascii ''Parent: '' @ take (nat recv_bytes) (c_string (buffer w));
              (_, w) = call sys (Close fd1) w
          in Inr (Some line, w)
        else Inl OutOfBounds
      else
        let w = (if recv_bytes < 0 then print_line (''Parent: recv failed: '' @ to_string (errno w)) w else w);
            (_, w) = call sys (Close fd1) w
        in Inr (None, w))"

definition SocketPairFailed :: "io \<Rightarrow> int \<times> io" where
  "SocketPairFailed w = (EXIT_FAILURE, print_line (''Failed during socketpair: '' @ to_string (errno w)) w)"

definition ForkFailed :: "io \<Rightarrow> int \<times> io" where
  "ForkFailed w = (EXIT_FAILURE, print_line (''Failed during fork: '' @ to_string (errno w)) w)"

text \<open>How \<open>main\<close> ends: early, or with what the parent and the child have done.\<close>

datatype pair_end = PairFailed int io | Forked "(byte list option \<times> io) result" io

definition pair_main :: "os \<Rightarrow> io \<Rightarrow> pair_end" where
  "pair_main sys w =
     (let (r, w) = call sys Socketpair w in
      if ret r = ERROR then let (k, w) = SocketPairFailed w in PairFailed k w
      else
        let fd0 = fds r ! 0; fd1 = fds r ! 1;
            (f, w') = call sys Fork w in
        if ret f = ERROR then let (k, w') = ForkFailed w' in PairFailed k w'
        else Forked (pair_parent sys fd0 fd1 w') (pair_child sys fd0 fd1 (w\<lparr>history := (Fork, f\<lparr>ret := 0\<rparr>) # history w\<rparr>)))"

section \<open>The copy is complete and in order\<close>

text \<open>The bytes that reads have delivered and that writes were asked for, from the first on.\<close>

fun delivered :: "history \<Rightarrow> byte list" where
  "delivered [] = []"
| "delivered ((ReadFd fd k, r) # h) = delivered h @ (if ret r > 0 then bytes r else [])"
| "delivered (_ # h) = delivered h"

fun written :: "history \<Rightarrow> byte list" where
  "written [] = []"
| "written ((WriteFd fd bs, r) # h) = written h @ bs"
| "written (_ # h) = written h"

definition read_ok :: "os \<Rightarrow> bool" where
  "read_ok sys \<longleftrightarrow> (\<forall>h fd k. let r = sys h (ReadFd fd k) in ret r \<le> 0 \<or> (ret r = int (length (bytes r)) \<and> length (bytes r) \<le> k))"

lemma remove_fifos_history:
  "map fst (history (remove_fifos sys i out w)) =
     [Unlink kOutFifoName, Unlink kInFifoName, Close out, Close i] @ map fst (history w) \<and>
   delivered (history (remove_fifos sys i out w)) = delivered (history w) \<and>
   written (history (remove_fifos sys i out w)) = written (history w)"
  by (simp add: remove_fifos_def Let_def split_beta)

text \<open>What one iteration does, by the result of the read.\<close>

lemma fifo_iteration_cases:
  fixes w :: io and sys :: os and i out :: int
  defines "r \<equiv> sys (history w) (ReadFd i kFifoBufferSize)"
  defines "h \<equiv> (ReadFd i kFifoBufferSize, r) # history w"
  shows "ret r < 0 \<Longrightarrow> fst (fifo_iteration sys i out w) = Exited EXIT_FAILURE \<and>
      (\<exists>w1 :: io. history w1 = h \<and> history (snd (fifo_iteration sys i out w)) = history (remove_fifos sys i out w1))"
    and "ret r = 0 \<Longrightarrow> fst (fifo_iteration sys i out w) = Exited 0 \<and>
      (\<exists>w1 :: io. history w1 = h \<and> history (snd (fifo_iteration sys i out w)) = history (remove_fifos sys i out w1))"
    and "ret r = int (length (bytes r)) \<Longrightarrow> 0 < ret r \<Longrightarrow> fst (fifo_iteration sys i out w) = Next \<and>
      (\<exists>x. history (snd (fifo_iteration sys i out w)) = (WriteFd out (bytes r), x) # h)"
proof -
  define w1 where "w1 = (snd (call sys (ReadFd i kFifoBufferSize) w))\<lparr>buffer := bytes r @ drop (length (bytes r)) (buffer w)\<rparr>"
  have w1: "history w1 = h" by (simp add: w1_def h_def r_def)
  have eq: "fifo_iteration sys i out w =
     (if ret r < 0 then let (k, w) = ReadFailed (remove_fifos sys i out w1) in (Exited k, w)
      else if ret r = 0 then (Exited 0, remove_fifos sys i out w1)
      else let (_, w) = call sys (WriteFd out (take (nat (ret r)) (buffer w1))) w1 in (Next, w))"
    by (simp add: fifo_iteration_def w1_def r_def Let_def split_beta)
  show "ret r < 0 \<Longrightarrow> fst (fifo_iteration sys i out w) = Exited EXIT_FAILURE \<and>
      (\<exists>w1 :: io. history w1 = h \<and> history (snd (fifo_iteration sys i out w)) = history (remove_fifos sys i out w1))"
    using w1 by (auto simp: eq ReadFailed_def intro!: exI [of _ w1])
  show "ret r = 0 \<Longrightarrow> fst (fifo_iteration sys i out w) = Exited 0 \<and>
      (\<exists>w1 :: io. history w1 = h \<and> history (snd (fifo_iteration sys i out w)) = history (remove_fifos sys i out w1))"
    using w1 by (auto simp: eq intro!: exI [of _ w1])
  show "ret r = int (length (bytes r)) \<Longrightarrow> 0 < ret r \<Longrightarrow> fst (fifo_iteration sys i out w) = Next \<and>
      (\<exists>x. history (snd (fifo_iteration sys i out w)) = (WriteFd out (bytes r), x) # h)"
    using w1 by (auto simp: eq w1_def split_beta Let_def)
qed

text \<open>The invariant of the loop: what was read has been written, and an ended loop has cleaned up.\<close>

definition fifo_served :: "os \<Rightarrow> io \<Rightarrow> bool" where
  "fifo_served sys w \<longleftrightarrow> (read_ok sys \<longrightarrow> written (history w) = delivered (history w))"

lemma fifo_iteration_served:
  assumes "fifo_served sys w" "fifo_iteration sys i out w = (p, w')"
  shows "fifo_served sys w'"
proof -
  let ?r = "sys (history w) (ReadFd i kFifoBufferSize)"
  have w': "w' = snd (fifo_iteration sys i out w)" using assms(2) by simp
  note c = fifo_iteration_cases [where sys = sys and w = w and i = i and out = out]
  have "written (history w') = delivered (history w')" if ok: "read_ok sys"
  proof -
    have same: "written (history w) = delivered (history w)" using assms(1) ok by (simp add: fifo_served_def)
    consider "ret ?r \<le> 0" | "0 < ret ?r" "ret ?r = int (length (bytes ?r))"
      using ok unfolding read_ok_def Let_def by (meson not_less)
    then show ?thesis
    proof cases
      case 1
      then obtain w1 :: io where "history w1 = (ReadFd i kFifoBufferSize, ?r) # history w" "history w' = history (remove_fifos sys i out w1)"
        using c(1,2) unfolding w' by (metis order_le_less)
      then show ?thesis using remove_fifos_history [of sys i out w1] same 1 by simp
    next
      case 2
      then show ?thesis using c(3) same unfolding w' by auto
    qed
  qed
  then show ?thesis by (simp add: fifo_served_def)
qed

interpretation fifo: multiplexer "fifo_iteration sys i out" "fifo_served sys" for sys i out
  by unfold_locales (rule fifo_iteration_served)

text \<open>
  The bytes written are the bytes read, in their order, after any number of iterations. (That a
  \<open>write\<close> may take less than it is asked for is not handled by the program.)
\<close>

theorem fifo_channel_copies:
  assumes "read_ok sys" "written (history w) = delivered (history w)"
    and "server_loop (fifo_iteration sys i out) n w = (p, w')"
  shows "written (history w') = delivered (history w')"
  using fifo.served_loop [where s = w and sys = sys] assms by (simp add: fifo_served_def)

text \<open>The loop ends only at the end of the input or after a failing read, and then both pipes are closed and removed.\<close>

theorem fifo_channel_ends:
  assumes "read_ok sys" "server_loop (fifo_iteration sys i out) n w = (p, w')" "p \<noteq> Next"
  shows "(p = Exited 0 \<or> p = Exited EXIT_FAILURE) \<and>
    map fst (take 5 (history w')) = [Unlink kOutFifoName, Unlink kInFifoName, Close out, Close i, ReadFd i kFifoBufferSize]"
  using assms(2)
proof (induction n arbitrary: w)
  case (Suc n)
  let ?r = "sys (history w) (ReadFd i kFifoBufferSize)"
  note c = fifo_iteration_cases [where sys = sys and w = w and i = i and out = out]
  obtain q w1 where it: "fifo_iteration sys i out w = (q, w1)" by fastforce
  consider "ret ?r \<le> 0" | "0 < ret ?r" "ret ?r = int (length (bytes ?r))"
    using assms(1) unfolding read_ok_def Let_def by (meson not_less)
  then show ?case
  proof cases
    case 1
    then obtain w2 :: io where q: "q = Exited 0 \<or> q = Exited EXIT_FAILURE"
      and w2: "history w2 = (ReadFd i kFifoBufferSize, ?r) # history w" "history w1 = history (remove_fifos sys i out w2)"
      using c(1,2) it by (metis fst_conv order_le_less snd_conv)
    then have "p = q" "w' = w1" using Suc.prems it by auto
    moreover have "map fst (take 5 (history w1)) = take 5 (map fst (history w1))" by (simp add: take_map)
    ultimately show ?thesis using q w2 remove_fifos_history [of sys i out w2] by simp
  next
    case 2
    then have "q = Next" using c(3) it by auto
    then show ?thesis using Suc.IH [of w1] Suc.prems it by simp
  qed
qed (use assms(3) in simp)

section \<open>The greeting of the child\<close>

text \<open>
  When the parent receives the first \<open>k\<close> bytes of the child's message it prints them without the
  final zero; when the zero has not arrived, this needs another zero in the rest of the array,
  which is not initialised.
\<close>

theorem pair_parent_prints:
  fixes k :: nat
  assumes "sys ((Close fd0, sys (history w) (Close fd0)) # history w) (Recv fd1 kPairBufferSize) = r"
    and "bytes r = take k child_message" "ret r = int (length (bytes r))" "0 < k"
  shows "(case pair_parent sys fd0 fd1 w of
      Inl e \<Rightarrow> e = OutOfBounds \<and> k < 17 \<and> 0 \<notin> set (drop k (buffer w))
    | Inr (line, w') \<Rightarrow> line = Some (ascii ''Parent: '' @ take k (ascii ''Hello from child'')))"
proof -
  let ?g = "ascii ''Hello from child''"
  have g: "0 \<notin> set ?g" "length ?g = 16" by (simp_all add: ascii_def)
  have len: "length (bytes r) = min k 17" by (simp add: assms(2) child_message_def g(2))
  let ?b = "bytes r @ drop (length (bytes r)) (buffer w)"
  have shown: "take (length (bytes r)) (c_string ?b) = take k ?g"
  proof (cases "k \<le> 16")
    case True
    then have b: "bytes r = take k ?g" by (simp add: assms(2) child_message_def g(2))
    then have "0 \<notin> set (bytes r)" using g(1) by (auto dest: in_set_takeD)
    then show ?thesis using b g(2) True by (simp add: c_string_take min_def)
  next
    case False
    then have "bytes r = ?g @ [0]" by (simp add: assms(2) child_message_def g(2))
    then have "c_string ?b = ?g" using c_string_take [OF g(1), of "0 # drop 17 (buffer w)"] g(2) by (simp add: c_string_def)
    then show ?thesis using False len g(2) by simp
  qed
  have zero: "0 \<notin> set ?b \<Longrightarrow> k < 17 \<and> 0 \<notin> set (drop k (buffer w))"
  proof -
    assume z: "0 \<notin> set ?b"
    have "k < 17"
    proof (rule ccontr)
      assume "\<not> k < 17"
      then have "bytes r = child_message" by (simp add: assms(2) child_message_def g(2))
      then show False using z by (simp add: child_message_def)
    qed
    then show ?thesis using z len by simp
  qed
  define w2 where "w2 = (snd (call sys (Recv fd1 kPairBufferSize) (snd (call sys (Close fd0) w))))\<lparr>buffer := ?b\<rparr>"
  have "0 < ret r" using assms(3,4) len by simp
  then have "pair_parent sys fd0 fd1 w =
      (if 0 \<in> set ?b then Inr (Some (ascii ''Parent: '' @ take (length (bytes r)) (c_string ?b)), snd (call sys (Close fd1) w2))
       else Inl OutOfBounds)"
    unfolding pair_parent_def Let_def split_beta call_simps assms(1) w2_def by (simp add: assms(3))
  then show ?thesis using shown zero by simp
qed

end
