(* ===== verification/Signals.thy ===== *)
theory Signals
  imports Text_IO
begin

text \<open>
  The forked child with a handler for \<open>SIGTERM\<close> (\<open>processes_channels_signals/simple_fork.cpp\<close>) and
  the process that ignores \<open>SIGTERM\<close> and \<open>SIGINT\<close> (\<open>processes_channels_signals/unkillable_process.cpp\<close>).

  A process is what the kernel keeps of it: the disposition of each signal and, once it has ended, the
  status that \<open>waitpid\<close> reports. Of the signals the two programs speak of, the default action ends
  the process with the signal's number as its status, and \<open>sigaction\<close> refuses to change what
  \<open>SIGKILL\<close> does. A run is a schedule: the child or the parent executes its next step, or a signal
  reaches the child. The loops read the flag of the handler anew in every round.
\<close>

section \<open>Signals\<close>

datatype signal = SIGINT | SIGKILL | SIGTERM

fun signal_number :: "signal \<Rightarrow> int" where
  "signal_number SIGINT = 2"
| "signal_number SIGKILL = 9"
| "signal_number SIGTERM = 15"

datatype sa_handler = SIG_DFL | SIG_IGN | ChildHandler

record process =
  disposition :: "signal \<Rightarrow> sa_handler"
  ended :: "int option"

definition sigaction :: "signal \<Rightarrow> sa_handler \<Rightarrow> process \<Rightarrow> process" where
  "sigaction sig h p = (if sig = SIGKILL then p else p\<lparr>disposition := (disposition p)(sig := h)\<rparr>)"

definition terminate :: "int \<Rightarrow> process \<Rightarrow> process" where
  "terminate w p = p\<lparr>ended := Some w\<rparr>"

section \<open>The forked child\<close>

datatype child_pc = Installs | Tests | Says | Returns
datatype parent_pc = SaysChild | SaysParent | Waits | Done

record fork_state =
  child :: process
  child_at :: child_pc
  sigtermInvoked :: bool
  parent_at :: parent_pc
  child_lines :: "string list"
  parent_lines :: "string list"

text \<open>A signal at the child. Its handler sets the flag and writes the number of its line.\<close>

definition child_handler :: "fork_state \<Rightarrow> fork_state" where
  "child_handler s = s\<lparr>sigtermInvoked := True, child_lines := child_lines s @ [''Child. Line:10'']\<rparr>"

definition deliver :: "signal \<Rightarrow> fork_state \<Rightarrow> fork_state" where
  "deliver sig s =
     (if ended (child s) \<noteq> None then s
      else case disposition (child s) sig of
             SIG_DFL \<Rightarrow> s\<lparr>child := terminate (signal_number sig) (child s)\<rparr>
           | SIG_IGN \<Rightarrow> s
           | ChildHandler \<Rightarrow> child_handler s)"

definition child_step :: "fork_state \<Rightarrow> fork_state" where
  "child_step s =
     (if ended (child s) \<noteq> None then s
      else case child_at s of
             Installs \<Rightarrow> s\<lparr>child := sigaction SIGTERM ChildHandler (child s), child_at := Tests\<rparr>
           | Tests \<Rightarrow> if sigtermInvoked s then s\<lparr>child_at := Says\<rparr> else s
           | Says \<Rightarrow> s\<lparr>child_lines := child_lines s @ [''Child. Line:32''], child_at := Returns\<rparr>
           | Returns \<Rightarrow> s\<lparr>child := terminate 0 (child s)\<rparr>)"

definition parent_step :: "int \<Rightarrow> int \<Rightarrow> fork_state \<Rightarrow> fork_state" where
  "parent_step f getpid s =
     (case parent_at s of
        SaysChild \<Rightarrow> s\<lparr>parent_lines := parent_lines s @ [''Child pid: '' @ to_string f], parent_at := SaysParent\<rparr>
      | SaysParent \<Rightarrow> s\<lparr>parent_lines := parent_lines s @ [''Parent pid: '' @ to_string getpid], parent_at := Waits\<rparr>
      | Waits \<Rightarrow>
          (case ended (child s) of
             None \<Rightarrow> s
           | Some w \<Rightarrow> s\<lparr>parent_lines := parent_lines s @ [''Returned status from child: '' @ to_string w], parent_at := Done\<rparr>)
      | Done \<Rightarrow> s)"

datatype fork_event = Child_Runs | Parent_Runs | Signal signal

fun fork_step :: "int \<Rightarrow> int \<Rightarrow> fork_event \<Rightarrow> fork_state \<Rightarrow> fork_state" where
  "fork_step f getpid Child_Runs s = child_step s"
| "fork_step f getpid Parent_Runs s = parent_step f getpid s"
| "fork_step f getpid (Signal sig) s = deliver sig s"

definition fork_init :: fork_state where
  "fork_init = \<lparr>child = \<lparr>disposition = \<lambda>_. SIG_DFL, ended = None\<rparr>, child_at = Installs, sigtermInvoked = False,
     parent_at = SaysChild, child_lines = [], parent_lines = []\<rparr>"

definition fork_run :: "int \<Rightarrow> int \<Rightarrow> fork_event list \<Rightarrow> fork_state" where
  "fork_run f getpid es = fold (fork_step f getpid) es fork_init"

text \<open>\<open>main\<close>: the error line and the status after a failed \<open>fork\<close>, else the run of both processes.\<close>

definition fork_main :: "int \<Rightarrow> int \<Rightarrow> int \<Rightarrow> fork_event list \<Rightarrow> (string \<times> int) + fork_state" where
  "fork_main f errno getpid es =
     (if f = - 1 then Inl (''Error during fork: '' @ to_string errno, - 1) else Inr (fork_run f getpid es))"

section \<open>The process that ignores signals\<close>

text \<open>The steps of \<open>main\<close>: the two calls, then the loop; and a signal at the process.\<close>

datatype unkillable_pc = Ignores_Term | Ignores_Int | Loops
datatype unkillable_event = Runs | Receives signal

definition receive :: "signal \<Rightarrow> process \<Rightarrow> process" where
  "receive sig p = (if disposition p sig = SIG_DFL \<and> ended p = None then terminate (signal_number sig) p else p)"

fun unkillable_step :: "unkillable_event \<Rightarrow> process \<times> unkillable_pc \<Rightarrow> process \<times> unkillable_pc" where
  "unkillable_step (Receives sig) (p, pc) = (receive sig p, pc)"
| "unkillable_step Runs (p, pc) =
     (if ended p \<noteq> None then (p, pc)
      else case pc of
             Ignores_Term \<Rightarrow> (sigaction SIGTERM SIG_IGN p, Ignores_Int)
           | Ignores_Int \<Rightarrow> (sigaction SIGINT SIG_IGN p, Loops)
           | Loops \<Rightarrow> (p, Loops))"

definition unkillable_main :: "unkillable_event list \<Rightarrow> process \<times> unkillable_pc" where
  "unkillable_main es = fold unkillable_step es (\<lparr>disposition = \<lambda>_. SIG_DFL, ended = None\<rparr>, Ignores_Term)"


section \<open>What the programs do\<close>

subsection \<open>The forked child\<close>

lemma fork_run_snoc: "fork_run f pid (es @ [e]) = fork_step f pid e (fork_run f pid es)"
  by (simp add: fork_run_def)

text \<open>The dispositions of the child follow from whether it has passed its call of \<open>sigaction\<close>.\<close>

definition fork_inv :: "fork_state \<Rightarrow> bool" where
  "fork_inv s \<longleftrightarrow>
     disposition (child s) = (if child_at s = Installs then \<lambda>_. SIG_DFL else (\<lambda>_. SIG_DFL)(SIGTERM := ChildHandler)) \<and>
     (child_at s \<in> {Says, Returns} \<longrightarrow> sigtermInvoked s) \<and> (ended (child s) = Some 0 \<longrightarrow> sigtermInvoked s) \<and>
     (sigtermInvoked s \<longrightarrow> child_at s \<noteq> Installs)"

lemma child_step_inv: "fork_inv s \<Longrightarrow> fork_inv (child_step s)"
  by (cases "child_at s") (auto simp: fork_inv_def child_step_def sigaction_def terminate_def)

lemma deliver_inv: "fork_inv s \<Longrightarrow> fork_inv (deliver sig s)"
  by (cases sig) (auto simp: fork_inv_def deliver_def child_handler_def terminate_def)

lemma parent_step_child: "child (parent_step f pid s) = child s" "child_at (parent_step f pid s) = child_at s"
    "sigtermInvoked (parent_step f pid s) = sigtermInvoked s"
  by (auto simp: parent_step_def split: parent_pc.splits option.splits)

lemma parent_step_inv: "fork_inv s \<Longrightarrow> fork_inv (parent_step f pid s)"
  by (simp add: fork_inv_def parent_step_child)

lemma fork_run_inv: "fork_inv (fork_run f pid es)"
proof (induction es rule: rev_induct)
  case Nil
  show ?case by (simp add: fork_run_def fork_init_def fork_inv_def)
next
  case (snoc e es)
  then show ?case
    by (cases e) (auto simp: fork_run_snoc intro: child_step_inv deliver_inv parent_step_inv)
qed

text \<open>The child is before its call of \<open>sigaction\<close> as long as it has not run or was ended before.\<close>

lemma ended_deliver: "ended (child s) \<noteq> None \<Longrightarrow> deliver sig s = s"
  by (simp add: deliver_def)

text \<open>
  What is behind a status: a \<open>SIGTERM\<close> after the first step of the child, which installs the
  handler, or a signal that the child does not handle when it comes.
\<close>

definition handled :: "fork_event list \<Rightarrow> bool" where
  "handled es \<longleftrightarrow> (\<exists>xs ys. es = xs @ Signal SIGTERM # ys \<and> Child_Runs \<in> set xs)"

definition unhandled :: "signal \<Rightarrow> fork_event list \<Rightarrow> bool" where
  "unhandled sig es \<longleftrightarrow> (\<exists>xs ys. es = xs @ Signal sig # ys \<and> (sig = SIGTERM \<longrightarrow> Child_Runs \<notin> set xs))"

lemma handled_snoc: "handled es \<Longrightarrow> handled (es @ [e])" "Child_Runs \<in> set es \<Longrightarrow> handled (es @ [Signal SIGTERM])"
  by (force simp: handled_def)+

lemma unhandled_snoc:
  "unhandled sig es \<Longrightarrow> unhandled sig (es @ [e])"
  "(sig = SIGTERM \<longrightarrow> Child_Runs \<notin> set es) \<Longrightarrow> unhandled sig (es @ [Signal sig])"
proof -
  show "unhandled sig (es @ [e])" if "unhandled sig es"
  proof -
    from that obtain xs ys where "es @ [e] = xs @ Signal sig # (ys @ [e])" "sig = SIGTERM \<longrightarrow> Child_Runs \<notin> set xs"
      by (auto simp: unhandled_def)
    then show ?thesis unfolding unhandled_def by blast
  qed
  show "unhandled sig (es @ [Signal sig])" if "sig = SIGTERM \<longrightarrow> Child_Runs \<notin> set es"
    using that unfolding unhandled_def by blast
qed

definition caused :: "fork_event list \<Rightarrow> fork_state \<Rightarrow> bool" where
  "caused es s \<longleftrightarrow>
     (child_at s \<noteq> Installs \<longrightarrow> Child_Runs \<in> set es) \<and>
     (child_at s = Installs \<longrightarrow> ended (child s) = None \<longrightarrow> Child_Runs \<notin> set es) \<and>
     (sigtermInvoked s \<longrightarrow> handled es) \<and>
     (\<forall>w. ended (child s) = Some w \<longrightarrow> w \<noteq> 0 \<longrightarrow> (\<exists>sig. w = signal_number sig \<and> unhandled sig es))"

lemma caused_step:
  assumes "caused es s" "fork_inv s"
  shows "caused (es @ [e]) (fork_step f pid e s)"
proof (cases e)
  case Child_Runs
  then show ?thesis using assms
    by (cases "child_at s")
      (auto simp: caused_def child_step_def fork_inv_def terminate_def sigaction_def intro: handled_snoc unhandled_snoc)
next
  case Parent_Runs
  then show ?thesis using assms by (auto simp: caused_def parent_step_child intro: handled_snoc unhandled_snoc)
next
  case (Signal sig)
  show ?thesis
  proof (cases "ended (child s)")
    case None
    show ?thesis
    proof (cases "sig = SIGTERM \<and> child_at s \<noteq> Installs")
      case True
      then show ?thesis using assms None Signal
        by (auto simp: caused_def deliver_def fork_inv_def child_handler_def intro: handled_snoc)
    next
      case False
      then have "unhandled sig (es @ [Signal sig])" using assms(1) None by (auto simp: caused_def intro: unhandled_snoc)
      moreover have "deliver sig s = s\<lparr>child := terminate (signal_number sig) (child s)\<rparr>"
        using False assms(2) None by (auto simp: deliver_def fork_inv_def)
      ultimately show ?thesis using assms None Signal
        by (cases "child_at s = Installs") (auto simp: caused_def terminate_def intro: handled_snoc)
    qed
  next
    case (Some w)
    then show ?thesis using assms Signal
      by (auto simp: caused_def ended_deliver intro: handled_snoc unhandled_snoc)
  qed
qed

lemma fork_run_caused: "caused es (fork_run f pid es)"
proof (induction es rule: rev_induct)
  case Nil
  show ?case by (simp add: fork_run_def fork_init_def caused_def)
next
  case (snoc e es)
  then show ?case using caused_step [OF snoc fork_run_inv] by (simp add: fork_run_snoc)
qed

text \<open>Once the handler is set, \<open>SIGTERM\<close> and three steps of the child end it with the status 0.\<close>

lemma child_terminates:
  assumes "fork_inv s" "ended (child s) = None" "child_at s = Tests"
  shows "ended (child (child_step (child_step (child_step (deliver SIGTERM s))))) = Some 0"
  using assms by (auto simp: fork_inv_def deliver_def child_step_def child_handler_def terminate_def)

text \<open>The parent passes \<open>waitpid\<close> only after the end of the child, and then reports its status.\<close>

definition parent_ok :: "int \<Rightarrow> int \<Rightarrow> fork_state \<Rightarrow> bool" where
  "parent_ok f pid s \<longleftrightarrow>
     (let out = [''Child pid: '' @ to_string f, ''Parent pid: '' @ to_string pid] in
      case parent_at s of
        SaysChild \<Rightarrow> parent_lines s = []
      | SaysParent \<Rightarrow> parent_lines s = take 1 out
      | Waits \<Rightarrow> parent_lines s = out
      | Done \<Rightarrow> (\<exists>w. ended (child s) = Some w \<and> parent_lines s = out @ [''Returned status from child: '' @ to_string w]))"

lemma child_step_parent:
  "parent_at (child_step s) = parent_at s" "parent_lines (child_step s) = parent_lines s"
  "ended (child s) = Some w \<Longrightarrow> ended (child (child_step s)) = Some w"
  by (auto simp: child_step_def split: child_pc.splits)

lemma deliver_parent:
  "parent_at (deliver sig s) = parent_at s" "parent_lines (deliver sig s) = parent_lines s"
  "ended (child s) = Some w \<Longrightarrow> ended (child (deliver sig s)) = Some w"
  by (auto simp: deliver_def child_handler_def split: sa_handler.splits)

lemma parent_step_ok: "parent_ok f pid s \<Longrightarrow> parent_ok f pid (parent_step f pid s)"
  by (cases "parent_at s"; cases "ended (child s)") (auto simp: parent_ok_def parent_step_def)

lemma fork_run_parent: "parent_ok f pid (fork_run f pid es)"
proof (induction es rule: rev_induct)
  case Nil
  show ?case by (simp add: fork_run_def fork_init_def parent_ok_def)
next
  case (snoc e es)
  show ?case
  proof (cases e)
    case Parent_Runs
    with snoc show ?thesis by (simp add: fork_run_snoc parent_step_ok)
  qed (use snoc in \<open>auto simp: fork_run_snoc parent_ok_def child_step_parent deliver_parent split: parent_pc.splits\<close>)
qed

text \<open>
  Property C37. The forked child, for every schedule of its steps, the parent's steps and
  signals at the child: it ends with the status 0 only after a \<open>SIGTERM\<close> that its handler has
  taken, and else with the number of a signal that no handler was set for, which for \<open>SIGTERM\<close>
  means that the signal came before the child's first step. The parent's last line is the status of the
  child, and is written only after the child has ended. As the parent sends no signal, a schedule without
  signals from elsewhere never ends: the child tests its flag and the parent waits.
\<close>

theorem simple_fork_status:
  fixes f pid :: int and es :: "fork_event list"
  defines "s \<equiv> fork_run f pid es"
  shows "(\<forall>w. ended (child s) = Some w \<longrightarrow>
       w = 0 \<and> handled es \<or> (\<exists>sig. w = signal_number sig \<and> unhandled sig es)) \<and>
    (parent_at s = Done \<longrightarrow> (\<exists>w. ended (child s) = Some w \<and>
       parent_lines s = [''Child pid: '' @ to_string f, ''Parent pid: '' @ to_string pid, ''Returned status from child: '' @ to_string w])) \<and>
    ((\<forall>sig. Signal sig \<notin> set es) \<longrightarrow> ended (child s) = None \<and> parent_at s \<noteq> Done)"
proof -
  have inv: "fork_inv s" and why: "caused es s" and par: "parent_ok f pid s"
    by (simp_all add: s_def fork_run_inv fork_run_caused fork_run_parent)
  have status: "w = 0 \<and> handled es \<or> (\<exists>sig. w = signal_number sig \<and> unhandled sig es)" if "ended (child s) = Some w" for w
    using that inv why by (cases "w = 0") (auto simp: fork_inv_def caused_def)
  have out: "\<exists>w. ended (child s) = Some w \<and>
      parent_lines s = [''Child pid: '' @ to_string f, ''Parent pid: '' @ to_string pid, ''Returned status from child: '' @ to_string w]"
    if "parent_at s = Done" using that par by (simp add: parent_ok_def)
  have "ended (child s) = None" if "\<forall>sig. Signal sig \<notin> set es"
  proof (cases "ended (child s)")
    case (Some w)
    from status [OF this] that show ?thesis by (auto simp: handled_def unhandled_def)
  qed
  with status out show ?thesis by fastforce
qed

theorem simple_fork_status_witness:
  "\<exists>w. ended (child (fork_run 7 6 [Child_Runs, Signal SIGTERM, Child_Runs, Child_Runs, Child_Runs, Parent_Runs, Parent_Runs, Parent_Runs])) = Some w \<and>
    parent_lines (fork_run 7 6 [Child_Runs, Signal SIGTERM, Child_Runs, Child_Runs, Child_Runs, Parent_Runs, Parent_Runs, Parent_Runs]) =
      [''Child pid: '' @ to_string 7, ''Parent pid: '' @ to_string 6, ''Returned status from child: '' @ to_string w]"
proof -
  let ?es = "[Child_Runs, Signal SIGTERM, Child_Runs, Child_Runs, Child_Runs, Parent_Runs, Parent_Runs, Parent_Runs]"
  have "parent_at (fork_run 7 6 ?es) = Done"
    by (simp add: fork_run_def fork_init_def child_step_def sigaction_def deliver_def child_handler_def terminate_def parent_step_def)
  with simple_fork_status [of 7 6 ?es] show ?thesis by blast
qed

text \<open>
  A \<open>SIGTERM\<close> at a child that has set its handler and has seen no other signal: three more steps of the child and the
  steps of the parent bring the report of the status 0.
\<close>

lemma fork_quiet:
  assumes "\<forall>sig. Signal sig \<notin> set es" "Child_Runs \<in> set es"
  shows "child_at (fork_run f pid es) = Tests" "ended (child (fork_run f pid es)) = None"
proof -
  show e: "ended (child (fork_run f pid es)) = None" 
    using fork_run_caused [of es f pid] fork_run_inv [of f pid es] assms(1)
    by (cases "ended (child (fork_run f pid es))") (auto simp: caused_def fork_inv_def handled_def unhandled_def)
  show "child_at (fork_run f pid es) = Tests"
    using fork_run_caused [of es f pid] fork_run_inv [of f pid es] assms e
    by (cases "child_at (fork_run f pid es)") (auto simp: caused_def fork_inv_def handled_def)
qed

lemma simple_fork_sigterm:
  assumes "\<forall>sig. Signal sig \<notin> set es" "Child_Runs \<in> set es"
  shows "ended (child (fork_run f pid (es @ [Signal SIGTERM, Child_Runs, Child_Runs, Child_Runs]))) = Some 0"
  using child_terminates [OF fork_run_inv] fork_quiet [OF assms] by (simp add: fork_run_def)

subsection \<open>The process that ignores signals\<close>

text \<open>After its two calls nothing but \<open>SIGKILL\<close> ends the process, and \<open>SIGKILL\<close> does.\<close>

lemma unkillable_ignores:
  assumes "ended p = None" "disposition p SIGTERM = SIG_IGN" "disposition p SIGINT = SIG_IGN" "Receives SIGKILL \<notin> set es"
  shows "fold unkillable_step es (p, Loops) = (p, Loops)"
  using assms(4)
proof (induction es)
  case (Cons e es)
  have "unkillable_step e (p, Loops) = (p, Loops)"
  proof (cases e)
    case (Receives sig)
    with Cons.prems assms show ?thesis by (cases sig) (auto simp: receive_def)
  qed (use assms in simp)
  with Cons show ?case by simp
qed simp

theorem unkillable_process:
  assumes "Receives SIGKILL \<notin> set es"
  shows "ended (fst (unkillable_main ([Runs, Runs] @ es))) = None"
    "ended (fst (unkillable_main ([Runs, Runs] @ es @ [Receives SIGKILL]))) = Some 9"
proof -
  let ?p = "\<lparr>disposition = (\<lambda>_. SIG_DFL)(SIGTERM := SIG_IGN, SIGINT := SIG_IGN), ended = None\<rparr>"
  have "unkillable_main ([Runs, Runs] @ es) = (?p, Loops)"
    using assms unkillable_ignores [of ?p es] by (simp add: unkillable_main_def sigaction_def)
  then show "ended (fst (unkillable_main ([Runs, Runs] @ es))) = None"
    "ended (fst (unkillable_main ([Runs, Runs] @ es @ [Receives SIGKILL]))) = Some 9"
    by (simp_all add: unkillable_main_def receive_def terminate_def)
qed

text \<open>Before its calls it can be ended by the signals it is meant to ignore.\<close>

lemma unkillable_window: "ended (fst (unkillable_main (Receives SIGTERM # es))) = Some 15"
proof -
  have step: "unkillable_step e (p, pc) = (p, pc)" if "ended p \<noteq> None" for e p pc
    using that by (cases e) (auto simp: receive_def)
  have "fold unkillable_step es (p, pc) = (p, pc)" if "ended p \<noteq> None" for p pc
    by (induction es) (simp_all add: step [OF that])
  then show ?thesis by (simp add: unkillable_main_def receive_def terminate_def)
qed

end
