(* ===== verification/Message_Queues.thy ===== *)
theory Message_Queues
  imports Net_Common
begin

text \<open>
  \<open>unix_ipc/sysv_msg_queue.cpp\<close> and \<open>unix_ipc/posix_msg_queue.cpp\<close>: a child sends its parent a
  message through a queue of the kernel. In the first program parent and child run concurrently,
  and are a step relation; in the second the parent waits for the child first, and \<open>main\<close>
  is a function. The error number of a call is an argument, zero for success.
\<close>

section \<open>Queues\<close>

text \<open>
  What both kinds of queue promise: a message that is put is in the queue, a message that is got was in
  it and is one the receiver asked for, and a receiver waits only if there is none.
\<close>

locale message_queue =
  fixes put :: "'m \<Rightarrow> 'm list \<Rightarrow> 'm list"
    and get :: "'m list \<Rightarrow> ('m \<times> 'm list) option"
    and wanted :: "'m \<Rightarrow> bool"
  assumes mset_put: "mset (put m q) = add_mset m (mset q)"
    and get_None: "get q = None \<longleftrightarrow> (\<forall>m \<in> set q. \<not> wanted m)"
    and get_Some: "get q = Some (m, q') \<Longrightarrow> wanted m \<and> mset q = add_mset m (mset q')"
begin

lemma get_put_only:
  assumes "\<forall>x \<in> set q. \<not> wanted x" "wanted m"
  obtains q' where "get (put m q) = Some (m, q')" "mset q' = mset q"
proof -
  have in_put: "x \<in> set (put m q) \<longleftrightarrow> x = m \<or> x \<in> set q" for x
    using arg_cong [OF mset_put [of m q], of set_mset] by auto
  then have "get (put m q) \<noteq> None" using assms(2) by (auto simp: get_None)
  then obtain x q' where g: "get (put m q) = Some (x, q')" by auto
  from get_Some [OF g] have x: "wanted x" "mset (put m q) = add_mset x (mset q')" by auto
  then have "x \<in># mset (put m q)" by simp
  then have "x = m" using in_put x(1) assms(1) by auto
  with g x(2) mset_put [of m q] that show thesis by simp
qed

end

type_synonym message = "int \<times> byte list"

text \<open>A System V queue: messages are taken by their type, in the order in which they were sent.\<close>

definition msgsnd :: "message \<Rightarrow> message list \<Rightarrow> message list" where
  "msgsnd m q = q @ [m]"

definition msgrcv :: "int \<Rightarrow> message list \<Rightarrow> (message \<times> message list) option" where
  "msgrcv mtype q =
     (case dropWhile (\<lambda>m. fst m \<noteq> mtype) q of
        [] \<Rightarrow> None
      | m # r \<Rightarrow> Some (m, takeWhile (\<lambda>m. fst m \<noteq> mtype) q @ r))"

text \<open>A POSIX queue: the highest priority comes first, equal ones in the order in which they were sent.\<close>

definition mq_insert :: "message \<Rightarrow> message list \<Rightarrow> message list" where
  "mq_insert m q = takeWhile (\<lambda>x. fst m \<le> fst x) q @ m # dropWhile (\<lambda>x. fst m \<le> fst x) q"

definition mq_first :: "message list \<Rightarrow> (message \<times> message list) option" where
  "mq_first q = (case q of [] \<Rightarrow> None | m # r \<Rightarrow> Some (m, r))"

lemma mset_split: "mset (takeWhile P q) + mset (dropWhile P q) = mset q"
  by (metis mset_append takeWhile_dropWhile_id)

interpretation sysv: message_queue msgsnd "msgrcv mtype" "\<lambda>m. fst m = mtype" for mtype
proof unfold_locales
  fix m :: message and q q' :: "message list"
  show "mset (msgsnd m q) = add_mset m (mset q)" by (simp add: msgsnd_def)
  show "msgrcv mtype q = None \<longleftrightarrow> (\<forall>m \<in> set q. fst m \<noteq> mtype)"
  proof -
    have "msgrcv mtype q = None \<longleftrightarrow> dropWhile (\<lambda>m. fst m \<noteq> mtype) q = []"
      unfolding msgrcv_def by (split list.split) simp
    then show ?thesis by simp
  qed
  show "fst m = mtype \<and> mset q = add_mset m (mset q')" if got: "msgrcv mtype q = Some (m, q')"
  proof -
    obtain r where r: "dropWhile (\<lambda>m. fst m \<noteq> mtype) q = m # r" "q' = takeWhile (\<lambda>m. fst m \<noteq> mtype) q @ r"
      using got by (auto simp: msgrcv_def split: list.splits)
    then have "fst m = mtype" using hd_dropWhile [of "\<lambda>m. fst m \<noteq> mtype" q] by simp
    moreover have "mset q = add_mset m (mset q')"
      using mset_split [of "\<lambda>m. fst m \<noteq> mtype" q] r by simp
    ultimately show ?thesis by simp
  qed
qed

interpretation posix: message_queue mq_insert mq_first "\<lambda>_. True"
proof unfold_locales
  fix m :: message and q q' :: "message list"
  show "mset (mq_insert m q) = add_mset m (mset q)" using mset_split [of "\<lambda>x. fst m \<le> fst x" q] by (simp add: mq_insert_def)
  show "mq_first q = None \<longleftrightarrow> (\<forall>m \<in> set q. \<not> True)" by (cases q) (auto simp: mq_first_def)
  show "True \<and> mset q = add_mset m (mset q')" if "mq_first q = Some (m, q')"
    using that by (cases q) (auto simp: mq_first_def)
qed

section \<open>The System V program\<close>

datatype sysv_parent = SFork | SReceive | SWait | SRemove | SReturned int

text \<open>The child, and when it has ended the status that \<open>waitpid\<close> reports.\<close>

datatype sysv_child = SSend | SRaise | SEnded int

text \<open>The queue is \<open>None\<close> when it has been removed, or when \<open>msgget\<close> gave none.\<close>

record sysv_state =
  queue :: "message list option"
  parent :: sysv_parent
  child :: "sysv_child option"
  out :: "string list"
  errs :: "string list"

definition MSGMNB :: nat where "MSGMNB = 16384"
definition SIGTERM :: int where "SIGTERM = 15"
definition EINVAL :: int where "EINVAL = 22"

text \<open>\<open>Message{10, ...}\<close>: the text fills an array of 80 bytes, which is sent as a whole.\<close>

definition hello_message :: message where
  "hello_message = (10, ascii ''Hello from child'' @ replicate 64 0)"

definition has_room :: "message \<Rightarrow> message list \<Rightarrow> bool" where
  "has_room m q \<longleftrightarrow> sum_list (map (length \<circ> snd) (m # q)) \<le> MSGMNB"

definition failed_with :: "string \<Rightarrow> int \<Rightarrow> sysv_state \<Rightarrow> sysv_state" where
  "failed_with what status s = s\<lparr>errs := errs s @ [''Failed during '' @ what @ '': '' @ to_string status]\<rparr>"

text \<open>Calls on a queue that is not there fail. A failing \<open>msgsnd\<close> or \<open>msgrcv\<close> makes the program remove the queue.\<close>

definition sysv_child_step :: "int \<Rightarrow> sysv_state \<Rightarrow> sysv_state option" where
  "sysv_child_step status s =
     (case child s of
        Some SSend \<Rightarrow>
          (let status = (if queue s = None \<and> status = 0 then EINVAL else status) in
           if status \<noteq> 0 then Some (failed_with ''msgsnd'' status (s\<lparr>queue := None, child := Some (SEnded 256)\<rparr>))
           else if has_room hello_message (the (queue s)) then
             Some (s\<lparr>queue := Some (msgsnd hello_message (the (queue s))), child := Some SRaise\<rparr>)
           else None)
      | Some SRaise \<Rightarrow> Some (s\<lparr>child := Some (SEnded SIGTERM)\<rparr>)
      | _ \<Rightarrow> None)"

definition sysv_parent_step :: "int \<Rightarrow> sysv_state \<Rightarrow> sysv_state option" where
  "sysv_parent_step status s =
     (case parent s of
        SFork \<Rightarrow>
          if status \<noteq> 0 then Some (failed_with ''fork'' status (s\<lparr>parent := SReturned 1\<rparr>))
          else Some (s\<lparr>parent := SReceive, child := Some SSend\<rparr>)
      | SReceive \<Rightarrow>
          (let status = (if queue s = None \<and> status = 0 then EINVAL else status) in
           if status \<noteq> 0 then Some (failed_with ''msgrcv'' status (s\<lparr>queue := None, parent := SReturned 1\<rparr>))
           else case msgrcv 10 (the (queue s)) of
             None \<Rightarrow> None
           | Some (m, q) \<Rightarrow>
               Some (s\<lparr>queue := Some q, parent := SWait, out := out s @ [''Parent: '' @ text_of (c_string (snd m))]\<rparr>))
      | SWait \<Rightarrow> (case child s of Some (SEnded _) \<Rightarrow> Some (s\<lparr>parent := SRemove\<rparr>) | _ \<Rightarrow> None)
      | SRemove \<Rightarrow> Some (s\<lparr>queue := None, parent := SReturned 0\<rparr>)
      | SReturned _ \<Rightarrow> None)"

text \<open>
  The status of \<open>msgget\<close> is not checked: when it fails, the program goes on with the identifier \<open>-1\<close>. \<open>q\<close> is what
  the queue held before.
\<close>

definition sysv_init :: "int \<Rightarrow> message list \<Rightarrow> sysv_state" where
  "sysv_init msgget_status q = \<lparr>queue = (if msgget_status = 0 then Some q else None), parent = SFork, child = None, out = [], errs = []\<rparr>"

inductive sysv_step :: "sysv_state \<Rightarrow> sysv_state \<Rightarrow> bool" where
  parent: "sysv_parent_step status s = Some s' \<Longrightarrow> sysv_step s s'"
| child: "sysv_child_step status s = Some s' \<Longrightarrow> sysv_step s s'"

inductive_cases sysv_stepE: "sysv_step s s'"

subsection \<open>Every run\<close>

definition hello_line :: string where "hello_line = ''Parent: Hello from child''"

lemma hello_text: "''Parent: '' @ text_of (c_string (snd hello_message)) = hello_line"
proof -
  have "c_string (snd hello_message) = ascii ''Hello from child''"
    unfolding hello_message_def snd_conv by (subst c_string_take) (simp_all add: ascii_def c_string_def)
  then show ?thesis by (simp add: text_of_ascii hello_line_def)
qed

text \<open>What holds at each point of the parent, when the queue held no message of type 10 before.\<close>

definition sysv_inv :: "message list \<Rightarrow> sysv_state \<Rightarrow> bool" where
  "sysv_inv q s \<longleftrightarrow>
     (case parent s of
        SFork \<Rightarrow> child s = None \<and> queue s = Some q \<and> out s = [] \<and> errs s = []
      | SReceive \<Rightarrow> out s = [] \<and>
          ((child s = Some SSend \<and> queue s = Some q \<and> errs s = []) \<or>
           (child s \<in> {Some SRaise, Some (SEnded SIGTERM)} \<and> queue s = Some (msgsnd hello_message q) \<and> errs s = []) \<or>
           (child s = Some (SEnded 256) \<and> queue s = None \<and> errs s \<noteq> []))
      | SWait \<Rightarrow> out s = [hello_line] \<and> child s \<in> {Some SRaise, Some (SEnded SIGTERM)} \<and> queue s = Some q \<and> errs s = []
      | SRemove \<Rightarrow> out s = [hello_line] \<and> child s = Some (SEnded SIGTERM) \<and> queue s = Some q \<and> errs s = []
      | SReturned v \<Rightarrow>
          (v = 0 \<and> out s = [hello_line] \<and> child s = Some (SEnded SIGTERM) \<and> queue s = None \<and> errs s = []) \<or>
          (v = 1 \<and> out s = [] \<and> (child s \<noteq> None \<longrightarrow> queue s = None) \<and> errs s \<noteq> []))"

definition sysv_remaining :: "sysv_state \<Rightarrow> nat" where
  "sysv_remaining s =
     (case parent s of SFork \<Rightarrow> 6 | SReceive \<Rightarrow> 3 | SWait \<Rightarrow> 2 | SRemove \<Rightarrow> 1 | SReturned _ \<Rightarrow> 0) +
     (case child s of Some SSend \<Rightarrow> 2 | Some SRaise \<Rightarrow> 1 | _ \<Rightarrow> 0)"

lemma msgrcv_old: "\<forall>m \<in> set q. fst m \<noteq> 10 \<Longrightarrow> msgrcv 10 q = None"
  by (simp add: sysv.get_None)

lemma msgrcv_hello: "\<forall>m \<in> set q. fst m \<noteq> 10 \<Longrightarrow> msgrcv 10 (msgsnd hello_message q) = Some (hello_message, q)"
  by (simp add: msgrcv_def msgsnd_def hello_message_def dropWhile_append2 takeWhile_append2)

lemma EINVAL_nonzero [simp]: "EINVAL \<noteq> 0"
  by (simp add: EINVAL_def)

lemma failed_with_simps [simp]:
  "queue (failed_with w e s) = queue s" "parent (failed_with w e s) = parent s" "child (failed_with w e s) = child s"
  "out (failed_with w e s) = out s" "errs (failed_with w e s) \<noteq> []"
  by (simp_all add: failed_with_def)

lemma sysv_child_inv:
  assumes "sysv_child_step status s = Some s'" "sysv_inv q s"
  shows "sysv_inv q s' \<and> sysv_remaining s' < sysv_remaining s"
proof (cases "child s")
  case (Some c)
  with assms show ?thesis
    by (cases c; cases "parent s")
      (auto simp: sysv_child_step_def sysv_inv_def sysv_remaining_def Let_def split: if_splits)
qed (use assms(1) in \<open>simp add: sysv_child_step_def\<close>)

lemma sysv_parent_inv:
  assumes "sysv_parent_step status s = Some s'" "sysv_inv q s" "\<forall>m \<in> set q. fst m \<noteq> 10"
  shows "sysv_inv q s' \<and> sysv_remaining s' < sysv_remaining s"
  using assms(1,2) msgrcv_old [OF assms(3)] msgrcv_hello [OF assms(3)] hello_text
  by (cases "parent s") (auto simp: sysv_parent_step_def sysv_inv_def sysv_remaining_def Let_def
      split: if_splits option.splits sysv_child.splits)

interpretation sysv_bounded: bounded_run sysv_step "\<lambda>s. s = sysv_init 0 q \<and> (\<forall>m \<in> set q. fst m \<noteq> 10)"
  "\<lambda>s. sysv_inv q s \<and> (\<forall>m \<in> set q. fst m \<noteq> 10)" sysv_remaining for q
  by unfold_locales (auto simp: sysv_inv_def sysv_init_def elim!: sysv_stepE dest: sysv_child_inv sysv_parent_inv)

text \<open>Without a queue both calls fail: the parent prints nothing, reports an error and returns 1.\<close>

definition sysv_failed :: "sysv_state \<Rightarrow> bool" where
  "sysv_failed s \<longleftrightarrow> queue s = None \<and> out s = [] \<and> child s \<in> {None, Some SSend, Some (SEnded 256)} \<and>
     (case parent s of SFork \<Rightarrow> child s = None | SReceive \<Rightarrow> child s \<noteq> None | SReturned v \<Rightarrow> v = 1 \<and> errs s \<noteq> [] | _ \<Rightarrow> False)"

lemma sysv_failed_step:
  assumes "sysv_step s s'" "sysv_failed s"
  shows "sysv_failed s' \<and> sysv_remaining s' < sysv_remaining s"
  using assms(1)
proof cases
  case (parent status)
  then show ?thesis using assms(2)
    by (cases "parent s") (auto simp: sysv_parent_step_def sysv_failed_def sysv_remaining_def Let_def split: if_splits)
next
  case (child status)
  then show ?thesis using assms(2)
    by (cases "parent s") (auto simp: sysv_child_step_def sysv_failed_def sysv_remaining_def Let_def split: if_splits)
qed

interpretation sysv_no_queue: bounded_run sysv_step "\<lambda>s. \<exists>e q. e \<noteq> 0 \<and> s = sysv_init e q" sysv_failed sysv_remaining
  by unfold_locales (auto simp: sysv_failed_def sysv_init_def dest: sysv_failed_step)

lemma sysv_failed_progress:
  assumes "sysv_failed s" "sysv_parent_step 0 s = None"
  shows "parent s = SReturned 1"
  using assms by (cases "parent s") (auto simp: sysv_failed_def sysv_parent_step_def Let_def)

lemma sysv_progress:
  assumes "sysv_inv q s" "\<forall>m \<in> set q. fst m \<noteq> 10" "has_room hello_message q"
    and "sysv_parent_step 0 s = None" "sysv_child_step 0 s = None"
  shows "\<exists>v. parent s = SReturned v"
  using assms msgrcv_hello [OF assms(2)]
  by (cases "parent s") (auto simp: sysv_inv_def sysv_parent_step_def sysv_child_step_def Let_def split: if_splits)


text \<open>A run given by its choices: whether the parent moves, with successful calls.\<close>

fun sysv_exec :: "bool list \<Rightarrow> sysv_state \<Rightarrow> sysv_state option" where
  "sysv_exec [] s = Some s"
| "sysv_exec (p # ps) s = Option.bind (if p then sysv_parent_step 0 s else sysv_child_step 0 s) (sysv_exec ps)"

lemma sysv_exec_steps: "sysv_exec ps s = Some s' \<Longrightarrow> (sysv_step ^^ length ps) s s'"
proof (induction ps s rule: sysv_exec.induct)
  case (2 p ps s)
  then obtain s1 where s1: "(if p then sysv_parent_step 0 s else sysv_child_step 0 s) = Some s1" "sysv_exec ps s1 = Some s'"
    by (auto split: bind_splits)
  then have "sysv_step s s1" using sysv_step.intros by (auto split: if_splits)
  then show ?case using 2 s1 relpowp_Suc_I2 by fastforce
qed simp

definition sysv_schedule :: "bool list" where
  "sysv_schedule = [True, False, True, False, True, True]"


section \<open>The POSIX program\<close>

definition O_RDONLY :: int where "O_RDONLY = 0"
definition O_CREAT :: int where "O_CREAT = 64"
definition EBADF :: int where "EBADF = 9"
definition ENOENT :: int where "ENOENT = 2"
definition kMsgSize :: nat where "kMsgSize = 8192"
definition kMaxMsg :: nat where "kMaxMsg = 10"

text \<open>
  \<open>mq_open\<close>, \<open>mq_send\<close> and \<open>mq_receive\<close> on the one queue of the program, \<open>None\<close> when there is no
  such queue. A call succeeds, fails with an error number, or blocks. A descriptor is the flags it was opened with;
  its two lowest bits are the access mode.
\<close>

datatype 'a mq_result = Success 'a | Failure int | Blocks

definition mq_open :: "int \<Rightarrow> int \<Rightarrow> message list option \<Rightarrow> (int \<times> message list option) mq_result" where
  "mq_open flags status mq =
     (if status \<noteq> 0 then Failure status
      else if mq = None then if flags AND O_CREAT \<noteq> 0 then Success (flags, Some []) else Failure ENOENT
      else Success (flags, mq))"

definition mq_send :: "int \<Rightarrow> byte list \<Rightarrow> int \<Rightarrow> int \<Rightarrow> message list option \<Rightarrow> message list option mq_result" where
  "mq_send d msg prio status mq =
     (if d AND 3 = 0 then Failure EBADF
      else if status \<noteq> 0 then Failure status
      else case mq of None \<Rightarrow> Failure EBADF
        | Some q \<Rightarrow> if length q < kMaxMsg then Success (Some (mq_insert (prio, msg) q)) else Blocks)"

definition mq_receive :: "int \<Rightarrow> int \<Rightarrow> message list option \<Rightarrow> (byte list \<times> message list option) mq_result" where
  "mq_receive d status mq =
     (if status \<noteq> 0 then Failure status
      else case mq of None \<Rightarrow> Failure EBADF
        | Some q \<Rightarrow> (case mq_first q of None \<Rightarrow> Blocks | Some (m, q') \<Rightarrow> Success (snd m, Some q')))"

text \<open>What a process has printed, and how it ends.\<close>

record posix_io =
  mqueue :: "message list option"
  printed_lines :: "string list"
  error_lines :: "string list"

definition posix_error :: "string \<Rightarrow> int \<Rightarrow> posix_io \<Rightarrow> posix_io" where
  "posix_error what status s = s\<lparr>error_lines := error_lines s @ [''Failed during '' @ what @ '': '' @ to_string status]\<rparr>"

definition posix_print :: "string \<Rightarrow> posix_io \<Rightarrow> posix_io" where
  "posix_print line s = s\<lparr>printed_lines := printed_lines s @ [line]\<rparr>"

datatype posix_end = PReturns int | PWaits | PUndefined cpp_error

text \<open>The child; \<open>sizeof(msg)\<close> is the size of a pointer. A queue that exists is opened as it is.\<close>

definition posix_child :: "int \<Rightarrow> int \<Rightarrow> posix_io \<Rightarrow> posix_end \<times> posix_io" where
  "posix_child open_status send_status s =
     (case mq_open (O_RDONLY OR O_CREAT) open_status (mqueue s) of
        Success (mq_id, mq) \<Rightarrow>
          (let s = s\<lparr>mqueue := mq\<rparr> in
           case mq_send mq_id (take 8 (ascii ''Hello from child'')) 20 send_status (mqueue s) of
             Success mq \<Rightarrow> (PReturns 0, posix_print ''Child. Line: 61'' (s\<lparr>mqueue := mq\<rparr>))
           | Failure e \<Rightarrow> (PReturns 1, posix_error ''mq_send'' e s)
           | Blocks \<Rightarrow> (PWaits, s))
      | Failure e \<Rightarrow> (PReturns 1, posix_error ''mqopen'' e s)
      | Blocks \<Rightarrow> (PWaits, s))"

text \<open>The parent after \<open>waitpid\<close>, which stores the exit code of the child times 256.\<close>

definition posix_parent :: "int \<Rightarrow> int \<Rightarrow> int \<Rightarrow> posix_io \<Rightarrow> posix_end \<times> posix_io" where
  "posix_parent exit_code open_status receive_status s =
     (let return_value = exit_code * 256 in
      if return_value = 1 then (PReturns 1, s\<lparr>error_lines := error_lines s @ [''Parent: error in child'']\<rparr>)
      else
        let s = posix_print ''Parent. Line: 70'' s in
        case mq_open O_RDONLY open_status (mqueue s) of
          Success (mq_id, mq) \<Rightarrow>
            (case mq_receive mq_id receive_status mq of
               Success (msg, mq) \<Rightarrow>
                 (let msg = msg @ replicate (kMsgSize - length msg) 0 in
                  if 0 \<in> set msg then (PReturns 0, (posix_print (''Parent: '' @ text_of (c_string msg)) s)\<lparr>mqueue := None\<rparr>)
                  else (PUndefined OutOfBounds, s\<lparr>mqueue := mq\<rparr>))
             | Failure e \<Rightarrow> (PReturns 0, (posix_error ''msgrcv'' e s)\<lparr>mqueue := None\<rparr>)
             | Blocks \<Rightarrow> (PWaits, s\<lparr>mqueue := mq\<rparr>))
        | Failure e \<Rightarrow> (PReturns 1, posix_error ''mqopen'' e s)
        | Blocks \<Rightarrow> (PWaits, s))"

record posix_calls =
  fork_status :: int
  child_open :: int
  child_send :: int
  parent_open :: int
  parent_receive :: int

definition posix_main :: "posix_calls \<Rightarrow> posix_io \<Rightarrow> posix_end \<times> posix_io" where
  "posix_main c s =
     (if fork_status c \<noteq> 0 then (PReturns 1, posix_error ''fork'' (fork_status c) s)
      else case posix_child (child_open c) (child_send c) s of
        (PReturns code, s) \<Rightarrow> posix_parent code (parent_open c) (parent_receive c) s
      | (p, s) \<Rightarrow> (p, s))"

text \<open>
  Property C38. The POSIX program does not deliver the child's message: when no call fails for a
  reason of its own, the child's \<open>mq_send\<close> fails because the queue was opened for reading only, the parent
  does not notice that the child has failed, and on a queue that is new or empty the parent waits for
  ever for a message; if the queue held messages before, the parent prints the first of these.
\<close>

theorem posix_queue_hangs:
  assumes "fork_status c = 0" "child_open c = 0" "parent_open c = 0" "parent_receive c = 0"
    and "q = (case mqueue s of None \<Rightarrow> [] | Some q \<Rightarrow> q)"
    and "posix_main c s = (p, s')"
  shows "error_lines s' = error_lines s @ [''Failed during mq_send: 9''] \<and>
    (if q = [] then p = PWaits \<and> mqueue s' = Some [] \<and> printed_lines s' = printed_lines s @ [''Parent. Line: 70'']
     else length (snd (hd q)) < kMsgSize \<longrightarrow> p = PReturns 0 \<and> mqueue s' = None \<and>
       printed_lines s' = printed_lines s @ [''Parent. Line: 70'', ''Parent: '' @ text_of (c_string (snd (hd q)))])"
proof -
  have flags: "(O_RDONLY OR O_CREAT) AND O_CREAT \<noteq> 0" "(O_RDONLY OR O_CREAT) AND 3 = 0" "to_string EBADF = ''9''"
    by (simp_all add: O_RDONLY_def O_CREAT_def EBADF_def, code_simp)
  have op: "mq_open (O_RDONLY OR O_CREAT) (child_open c) (mqueue s) = Success (O_RDONLY OR O_CREAT, Some q)"
    using flags(1) assms(2,5) by (auto simp: mq_open_def)
  let ?s = "posix_error ''mq_send'' EBADF (s\<lparr>mqueue := Some q\<rparr>)"
  have main: "posix_main c s = posix_parent 1 0 0 ?s"
    using assms(1,3,4) by (simp add: posix_main_def posix_child_def op mq_send_def flags(2) Let_def)
  have pad: "c_string (m @ replicate (kMsgSize - length m) 0) = c_string m"
    and zero: "0 \<in> set (m @ replicate (kMsgSize - length m) 0)" if "length m < kMsgSize" for m
    using that by (auto simp: c_string_def takeWhile_append intro: takeWhile_eq_all_conv [THEN iffD2, symmetric])
  show ?thesis
  proof (cases q)
    case Nil
    then show ?thesis using assms(6) unfolding main
      by (auto simp: posix_parent_def posix_print_def posix_error_def mq_open_def mq_receive_def mq_first_def flags(3))
  next
    case (Cons m r)
    have "error_lines s' = error_lines s @ [''Failed during mq_send: 9'']"
      using assms(6) Cons unfolding main
      by (auto simp: posix_parent_def posix_print_def posix_error_def mq_open_def mq_receive_def mq_first_def flags(3) Let_def
          split: if_splits)
    moreover have "p = PReturns 0 \<and> mqueue s' = None \<and>
       printed_lines s' = printed_lines s @ [''Parent. Line: 70'', ''Parent: '' @ text_of (c_string (snd m))]"
      if "length (snd m) < kMsgSize"
      using assms(6) Cons pad [OF that] zero [OF that] unfolding main
      by (auto simp: posix_parent_def posix_print_def posix_error_def mq_open_def mq_receive_def mq_first_def Let_def)
    ultimately show ?thesis using Cons by simp
  qed
qed

theorem posix_queue_hangs_witness:
  "fst (posix_main \<lparr>fork_status = 0, child_open = 0, child_send = 0, parent_open = 0, parent_receive = 0\<rparr>
     \<lparr>mqueue = None, printed_lines = [], error_lines = []\<rparr>) = PWaits"
proof -
  let ?c = "\<lparr>fork_status = 0, child_open = 0, child_send = 0, parent_open = 0, parent_receive = 0\<rparr>"
  let ?s = "\<lparr>mqueue = None, printed_lines = [], error_lines = []\<rparr>"
  obtain p s' where main: "posix_main ?c ?s = (p, s')" by fastforce
  from posix_queue_hangs [OF _ _ _ _ refl main] main show ?thesis by simp
qed

end
