(* ===== verification/Semaphores.thy ===== *)
theory Semaphores
  imports Text_IO
begin

text \<open>
  \<open>unix_ipc/sysv_semaphore.cpp\<close> and \<open>unix_ipc/posix_semaphore.cpp\<close>. A set of System V semaphores
  is the list of its values; \<open>semop\<close> performs all its operations or none.
\<close>

definition SEMS_CNT :: nat where "SEMS_CNT = 16"
definition SEMVMX :: int where "SEMVMX = 32767"
definition ERANGE :: int where "ERANGE = 34"

record sembuf =
  sem_num :: nat
  sem_op :: int
  sem_flg :: int

text \<open>One operation: a positive one adds, zero waits for the value zero, a negative one takes away.\<close>

datatype 'a sem_result = Done 'a | Error int | Wait

definition sem_one :: "sembuf \<Rightarrow> int list \<Rightarrow> int list sem_result" where
  "sem_one b sems =
     (let v = sems ! sem_num b in
      if sem_op b = 0 then if v = 0 then Done sems else Wait
      else if v + sem_op b < 0 then Wait
      else if SEMVMX < v + sem_op b then Error ERANGE
      else Done (sems[sem_num b := v + sem_op b]))"

fun semop :: "sembuf list \<Rightarrow> int list \<Rightarrow> int list sem_result" where
  "semop [] sems = Done sems"
| "semop (b # bs) sems =
     (if length sems \<le> sem_num b then Error 27
      else case sem_one b sems of Done sems \<Rightarrow> semop bs sems | r \<Rightarrow> r)"

text \<open>The loop over \<open>idx\<close>.\<close>

definition fill_buffers :: "sembuf list" where
  "fill_buffers = map (\<lambda>idx. \<lparr>sem_num = idx, sem_op = int idx, sem_flg = 0\<rparr>) [0..<SEMS_CNT]"

text \<open>How \<open>main\<close> ends, with the line it prints; and the set after it.\<close>

datatype sem_end = SemReturns int "string list" | SemWaits

definition sem_main :: "int \<Rightarrow> int list option \<Rightarrow> sem_end \<times> int list option" where
  "sem_main status sems_set =
     (if status \<noteq> 0 then (SemReturns (-1) [''failed semget: '' @ to_string status], sems_set)
      else
        let sems = (case sems_set of None \<Rightarrow> replicate SEMS_CNT 0 | Some sems \<Rightarrow> sems) in
        case semop fill_buffers sems of
          Done sems \<Rightarrow> (SemReturns 0 [], Some sems)
        | Error e \<Rightarrow> (SemReturns (-1) [''failed semop: '' @ to_string e], Some sems)
        | Wait \<Rightarrow> (SemWaits, Some sems))"

text \<open>The program run \<open>k\<close> times, one after the other: how the last run ends.\<close>

fun sem_runs :: "nat \<Rightarrow> int list option \<Rightarrow> sem_end \<times> int list option" where
  "sem_runs 0 sems_set = (SemReturns 0 [], sems_set)"
| "sem_runs (Suc k) sems_set = sem_main 0 (snd (sem_runs k sems_set))"

text \<open>The POSIX program: the semaphore keeps its value when it exists, and is made with the value 66 otherwise.\<close>

definition posix_sem_main :: "int \<Rightarrow> int option \<Rightarrow> int \<times> int option" where
  "posix_sem_main status sem = (0, if status \<noteq> 0 then sem else if sem = None then Some 66 else sem)"

section \<open>What the runs leave behind\<close>

definition multiples :: "nat \<Rightarrow> int list" where
  "multiples k = map (\<lambda>idx. int (k * idx)) [0..<SEMS_CNT]"

lemma sem_one_next:
  assumes "sems ! j = int (k * j)"
  shows "sem_one \<lparr>sem_num = j, sem_op = int j, sem_flg = 0\<rparr> sems =
    (if int (Suc k * j) \<le> SEMVMX then Done (sems[j := int (Suc k * j)]) else Error ERANGE)"
proof -
  have neg: "(int j + int j * int k < 0) = False" by (simp add: not_less)
  have "sems[0 := 0] = sems" if "j = 0"
  proof -
    have "sems ! 0 = 0" using assms that by simp
    then show ?thesis by (metis list_update_id)
  qed
  then show ?thesis using assms by (auto simp: sem_one_def Let_def algebra_simps SEMVMX_def neg)
qed

text \<open>The operations from semaphore \<open>j\<close> on, when the ones before have been done.\<close>

lemma semop_from:
  assumes "j \<le> n" "length sems = n" "\<forall>i. j \<le> i \<longrightarrow> i < n \<longrightarrow> sems ! i = int (k * i) \<and> int (Suc k * i) \<le> SEMVMX"
  shows "semop (map (\<lambda>idx. \<lparr>sem_num = idx, sem_op = int idx, sem_flg = 0\<rparr>) [j..<n]) sems =
    Done (take j sems @ map (\<lambda>i. int (Suc k * i)) [j..<n])"
  using assms
proof (induction "n - j" arbitrary: j sems)
  case 0
  then show ?case by simp
next
  case (Suc d)
  then have j: "j < n" "sems ! j = int (k * j)" "int (Suc k * j) \<le> SEMVMX" by auto
  let ?b = "\<lparr>sem_num = j, sem_op = int j, sem_flg = 0\<rparr>"
  let ?sems = "sems[j := int (Suc k * j)]"
  have "sem_one ?b sems = Done ?sems"
    using j sem_one_next [of sems j k] by simp
  moreover have "semop (map (\<lambda>idx. \<lparr>sem_num = idx, sem_op = int idx, sem_flg = 0\<rparr>) [Suc j..<n]) ?sems =
      Done (take (Suc j) ?sems @ map (\<lambda>i. int (Suc k * i)) [Suc j..<n])"
    using Suc.hyps(2) Suc.prems j(1) by (intro Suc.hyps(1)) auto
  moreover have "take (Suc j) ?sems = take j sems @ [int (Suc k * j)]"
    using j(1) Suc.prems(2) by (simp add: take_Suc_conv_app_nth)
  ultimately show ?case using j(1) Suc.prems(2) by (simp add: upt_conv_Cons del: of_nat_mult)
qed

lemma semop_overflow:
  assumes "j \<le> n" "length sems = n" "\<forall>i. j \<le> i \<longrightarrow> i < n \<longrightarrow> sems ! i = int (k * i)"
    and "SEMVMX < int (Suc k * (n - 1))" "j < n" "1 < n" "0 < k"
  shows "semop (map (\<lambda>idx. \<lparr>sem_num = idx, sem_op = int idx, sem_flg = 0\<rparr>) [j..<n]) sems = Error ERANGE"
  using assms
proof (induction "n - j" arbitrary: j sems)
  case (Suc d)
  then have j: "j < n" "sems ! j = int (k * j)" by auto
  let ?b = "\<lparr>sem_num = j, sem_op = int j, sem_flg = 0\<rparr>"
  show ?case
  proof (cases "SEMVMX < int (Suc k * j)")
    case True
    have "sem_one ?b sems = Error ERANGE" using True j sem_one_next [of sems j k] by simp
    then show ?thesis using j Suc.prems(2) by (simp add: upt_conv_Cons)
  next
    case False
    let ?sems = "sems[j := int (Suc k * j)]"
    have "sem_one ?b sems = Done ?sems"
      using False j sem_one_next [of sems j k] by simp
    moreover have "Suc j < n" using False Suc.prems(4) j(1) by (cases "j = n - 1") auto
    moreover have "semop (map (\<lambda>idx. \<lparr>sem_num = idx, sem_op = int idx, sem_flg = 0\<rparr>) [Suc j..<n]) ?sems = Error ERANGE"
      using Suc.hyps(2) Suc.prems \<open>Suc j < n\<close> by (intro Suc.hyps(1)) auto
    ultimately show ?thesis using j(1) Suc.prems(2) by (simp add: upt_conv_Cons del: of_nat_mult)
  qed
qed simp

lemma sem_main_next:
  assumes "int (Suc k * 15) \<le> SEMVMX" "multiples k = (case s of None \<Rightarrow> replicate SEMS_CNT 0 | Some sems \<Rightarrow> sems)"
  shows "sem_main 0 s = (SemReturns 0 [], Some (multiples (Suc k)))"
proof -
  have "int (Suc k * i) \<le> SEMVMX" if "i < SEMS_CNT" for i
  proof -
    have "Suc k * i \<le> Suc k * 15" using that by (intro mult_le_mono2) (simp add: SEMS_CNT_def)
    then show ?thesis using assms(1) by linarith
  qed
  then have "semop fill_buffers (multiples k) = Done (take 0 (multiples k) @ map (\<lambda>i. int (Suc k * i)) [0..<SEMS_CNT])"
    unfolding fill_buffers_def by (intro semop_from) (auto simp: multiples_def)
  then have "semop fill_buffers (multiples k) = Done (multiples (Suc k))" by (simp add: multiples_def)
  then show ?thesis unfolding sem_main_def Let_def assms(2) [symmetric] by simp
qed

text \<open>
  Property C40. The System V semaphore program can be run 2184 times: after the \<open>k\<close>-th run every
  semaphore \<open>i\<close> has the value \<open>k\<close> times \<open>i\<close>, and the run returns zero without output. Every later
  run fails because semaphore 15 would exceed the largest value 32767; it reports that and changes no semaphore.
\<close>

theorem semaphore_runs:
  "sem_runs k None =
     (if k = 0 then (SemReturns 0 [], None)
      else if k \<le> 2184 then (SemReturns 0 [], Some (multiples k))
      else (SemReturns (-1) [''failed semop: 34''], Some (multiples 2184)))"
proof (induction k)
  case (Suc k)
  have old: "multiples k = (case snd (sem_runs k None) of None \<Rightarrow> replicate SEMS_CNT 0 | Some sems \<Rightarrow> sems)" if "k \<le> 2184"
    using that Suc by (cases "k = 0") (auto simp: multiples_def map_replicate_const)
  show ?case
  proof (cases "Suc k \<le> 2184")
    case True
    then have "int (Suc k * 15) \<le> SEMVMX" by (simp add: SEMVMX_def)
    with sem_main_next [of k, OF this old] True show ?thesis by simp
  next
    case False
    then have s: "snd (sem_runs k None) = Some (multiples 2184)" using Suc by (cases "k = 2184") auto
    have "semop fill_buffers (multiples 2184) = Error ERANGE"
      unfolding fill_buffers_def by (intro semop_overflow) (auto simp: multiples_def SEMS_CNT_def SEMVMX_def)
    moreover have "to_string ERANGE = ''34''" by (simp add: ERANGE_def, code_simp)
    ultimately show ?thesis using False s by (simp add: sem_main_def)
  qed
qed simp

end
