(* ===== verification/Boost_Asio.thy ===== *)
theory Boost_Asio
  imports Prelude
begin

text \<open>
  \<open>asynchronous_network/boost_asio_server.cpp\<close>. A \<open>Session\<close> is a number, its address; \<open>heap\<close> has the array
  \<open>data_\<close> of every session that has not been deleted. An asynchronous operation is pending until
  \<open>io_service\<close> completes it, and then its handler is called, once: which operation completes, and how,
  is chosen by the environment. The bytes that were received and sent are recorded for every session.
\<close>

datatype operation = Accepting nat | Reading nat | Writing nat "byte list"

datatype completion = Ok "byte list" | Err nat

record asio =
  heap :: "nat \<Rightarrow> byte list option"
  fresh :: nat
  pending :: "operation list"
  received :: "nat \<Rightarrow> byte list"
  echoed :: "nat \<Rightarrow> byte list"

definition kMaxLength :: nat where "kMaxLength = 1024"

section \<open>\<open>Session\<close>\<close>

text \<open>\<open>async_read_some\<close> and \<open>async_write\<close> use the socket of the session.\<close>

definition start_operation :: "nat \<Rightarrow> (byte list \<Rightarrow> operation) \<Rightarrow> asio \<Rightarrow> asio result" where
  "start_operation this op s =
     (case heap s this of
        None \<Rightarrow> Inl UseAfterFree
      | Some data \<Rightarrow> Inr (s\<lparr>pending := pending s @ [op data]\<rparr>))"

definition Start :: "nat \<Rightarrow> asio \<Rightarrow> asio result" where
  "Start this s = start_operation this (\<lambda>_. Reading this) s"

definition delete :: "nat \<Rightarrow> asio \<Rightarrow> asio result" where
  "delete this s = (if heap s this = None then Inl UseAfterFree else Inr (s\<lparr>heap := (heap s)(this := None)\<rparr>))"

definition HandleRead :: "nat \<Rightarrow> bool \<Rightarrow> nat \<Rightarrow> asio \<Rightarrow> asio result" where
  "HandleRead this error bytes_transferred s =
     (if \<not> error then start_operation this (\<lambda>data. Writing this (take bytes_transferred data)) s else delete this s)"

definition HandleWrite :: "nat \<Rightarrow> bool \<Rightarrow> asio \<Rightarrow> asio result" where
  "HandleWrite this error s = (if \<not> error then Start this s else delete this s)"

section \<open>\<open>Server\<close>\<close>

definition NewAsyncAccept :: "asio \<Rightarrow> asio result" where
  "NewAsyncAccept s =
     (let new_session = fresh s in
      Inr (s\<lparr>heap := (heap s)(new_session := Some (replicate kMaxLength 0)), fresh := fresh s + 1,
             pending := pending s @ [Accepting new_session]\<rparr>))"

definition HandleAccept :: "nat \<Rightarrow> bool \<Rightarrow> asio \<Rightarrow> asio result" where
  "HandleAccept new_session error s =
     (if \<not> error then bindE (Start new_session s) NewAsyncAccept else delete new_session s)"

section \<open>\<open>io_service\<close>\<close>

text \<open>
  The operation with index \<open>i\<close> completes. A read puts its bytes into \<open>data_\<close>; a write that fails
  may have sent a part.
\<close>

definition complete :: "nat \<Rightarrow> completion \<Rightarrow> asio \<Rightarrow> asio result" where
  "complete i c s =
     (if i < length (pending s) then
        let op = pending s ! i; s = s\<lparr>pending := take i (pending s) @ drop (Suc i) (pending s)\<rparr> in
        case op of
          Accepting sid \<Rightarrow> HandleAccept sid (case c of Ok _ \<Rightarrow> False | Err _ \<Rightarrow> True) s
        | Reading sid \<Rightarrow>
            (case c of
               Err _ \<Rightarrow> HandleRead sid True 0 s
             | Ok bs \<Rightarrow>
                 (case heap s sid of
                    None \<Rightarrow> Inl UseAfterFree
                  | Some data \<Rightarrow>
                      if length data < length bs then Inl OutOfBounds
                      else HandleRead sid False (length bs)
                        (s\<lparr>heap := (heap s)(sid := Some (bs @ drop (length bs) data)),
                           received := (received s)(sid := received s sid @ bs)\<rparr>)))
        | Writing sid out \<Rightarrow>
            (let sent = (case c of Ok _ \<Rightarrow> out | Err k \<Rightarrow> take k out) in
             HandleWrite sid (case c of Ok _ \<Rightarrow> False | Err _ \<Rightarrow> True) (s\<lparr>echoed := (echoed s)(sid := echoed s sid @ sent)\<rparr>))
      else Inr s)"

fun run_service :: "(nat \<times> completion) list \<Rightarrow> asio \<Rightarrow> asio result" where
  "run_service [] s = Inr s"
| "run_service ((i, c) # cs) s = bindE (complete i c s) (run_service cs)"

text \<open>
  The constructor of \<open>Server\<close>: its member \<open>acceptor_\<close> opens, binds and listens, and throws when one of these fails
  (\<open>bound\<close> is false), before anything is accepted. \<open>main\<close> does not catch the exception.
\<close>

definition Server :: "bool \<Rightarrow> asio result" where
  "Server bound =
     (if \<not> bound then Inl SystemError
      else NewAsyncAccept \<lparr>heap = \<lambda>_. None, fresh = 0, pending = [], received = \<lambda>_. [], echoed = \<lambda>_. []\<rparr>)"

definition asio_main :: "bool \<Rightarrow> (nat \<times> completion) list \<Rightarrow> asio result" where
  "asio_main bound cs = bindE (Server bound) (run_service cs)"

section \<open>One operation for every session\<close>

fun session_of :: "operation \<Rightarrow> nat" where
  "session_of (Accepting sid) = sid"
| "session_of (Reading sid) = sid"
| "session_of (Writing sid out) = sid"

text \<open>What a pending operation says about the bytes of its session.\<close>

fun accounted :: "operation \<Rightarrow> asio \<Rightarrow> bool" where
  "accounted (Accepting sid) s = (received s sid = [] \<and> echoed s sid = [])"
| "accounted (Reading sid) s = (echoed s sid = received s sid)"
| "accounted (Writing sid out) s = (received s sid = echoed s sid @ out)"

definition is_accept :: "operation \<Rightarrow> bool" where
  "is_accept op \<longleftrightarrow> (case op of Accepting _ \<Rightarrow> True | _ \<Rightarrow> False)"

text \<open>
  The invariant, relative to the sessions \<open>busy\<close> whose handler is running: every other session that
  has not been deleted has exactly one pending operation.
\<close>

definition sessions_ok :: "nat set \<Rightarrow> asio \<Rightarrow> bool" where
  "sessions_ok busy s \<longleftrightarrow> distinct (map session_of (pending s)) \<and> busy \<inter> session_of ` set (pending s) = {} \<and>
     dom (heap s) = busy \<union> session_of ` set (pending s) \<and> (\<forall>data \<in> ran (heap s). length data = kMaxLength) \<and>
     (\<forall>sid \<in> dom (heap s). sid < fresh s) \<and>
     (\<forall>sid \<ge> fresh s. received s sid = [] \<and> echoed s sid = []) \<and>
     (\<forall>op \<in> set (pending s). accounted op s) \<and> (\<forall>sid. \<exists>rest. received s sid = echoed s sid @ rest) \<and>
     length (filter is_accept (pending s)) \<le> 1"

lemma delete_ok:
  assumes "sessions_ok {sid} s"
  shows "\<exists>s'. delete sid s = Inr s' \<and> sessions_ok {} s' \<and> pending s' = pending s"
proof -
  have live: "heap s sid \<noteq> None" using assms by (auto simp: sessions_ok_def)
  have "accounted op (s\<lparr>heap := h\<rparr>) = accounted op s" for op h by (cases op) auto
  then show ?thesis using assms live by (auto simp: delete_def sessions_ok_def ran_def)
qed

lemma accounted_pending [simp]: "accounted op (s\<lparr>pending := ps\<rparr>) = accounted op s" "accounted op (s\<lparr>heap := h\<rparr>) = accounted op s"
    "accounted op (s\<lparr>fresh := k\<rparr>) = accounted op s"
  by (cases op; simp)+

lemma start_operation_ok:
  assumes "sessions_ok {sid} s" "heap s sid = Some data" "session_of (op data) = sid" "accounted (op data) s" "\<not> is_accept (op data)"
  shows "\<exists>s'. start_operation sid op s = Inr s' \<and> sessions_ok {} s' \<and> pending s' = pending s @ [op data]"
  using assms by (auto simp: start_operation_def sessions_ok_def)

lemma NewAsyncAccept_ok:
  assumes "sessions_ok {} s" "filter is_accept (pending s) = []"
  shows "\<exists>s'. NewAsyncAccept s = Inr s' \<and> sessions_ok {} s'"
proof -
  have "fresh s \<notin> dom (heap s)" using assms(1) by (auto simp: sessions_ok_def)
  then show ?thesis using assms by (auto simp: NewAsyncAccept_def Let_def sessions_ok_def is_accept_def less_Suc_eq ran_def split: if_splits)
qed

lemma take_out:
  assumes "sessions_ok {} s" "i < length (pending s)"
  defines "rest \<equiv> take i (pending s) @ drop (Suc i) (pending s)"
  shows "sessions_ok {session_of (pending s ! i)} (s\<lparr>pending := rest\<rparr>)" "accounted (pending s ! i) s"
    and "is_accept (pending s ! i) \<Longrightarrow> filter is_accept rest = []"
proof -
  let ?op = "pending s ! i"
  have ps: "pending s = take i (pending s) @ ?op # drop (Suc i) (pending s)" using assms(2) by (rule id_take_nth_drop)
  have d: "distinct (map session_of (take i (pending s) @ ?op # drop (Suc i) (pending s)))"
    and f: "length (filter is_accept (take i (pending s) @ ?op # drop (Suc i) (pending s))) \<le> 1"
    using assms(1) ps by (simp_all add: sessions_ok_def)
  have set: "set (pending s) = insert ?op (set rest)"
    using arg_cong [OF ps, of set] by (simp add: rest_def)
  show "accounted ?op s" using assms(1) set by (simp add: sessions_ok_def)
  show "is_accept ?op \<Longrightarrow> filter is_accept rest = []" using f by (simp add: rest_def)
  have "distinct (map session_of rest)" "session_of ?op \<notin> session_of ` set rest" using d by (auto simp: rest_def)
  moreover have "length (filter is_accept rest) \<le> 1" using f by (auto simp: rest_def split: if_splits)
  ultimately show "sessions_ok {session_of ?op} (s\<lparr>pending := rest\<rparr>)" using assms(1) set by (auto simp: sessions_ok_def)
qed

lemma log_ok:
  assumes "sessions_ok {sid} s" "\<exists>rest. r = e @ rest" "sid < fresh s" "heap s sid = Some d" "length data = kMaxLength"
  shows "sessions_ok {sid} (s\<lparr>heap := (heap s)(sid := Some data), received := (received s)(sid := r), echoed := (echoed s)(sid := e)\<rparr>)"
    (is "sessions_ok _ ?s")
proof -
  have eq: "accounted op ?s = accounted op s" if "session_of op \<noteq> sid" for op using that by (cases op) auto
  have "sid \<notin> session_of ` set (pending s)" "\<forall>op \<in> set (pending s). accounted op s"
    using assms(1) by (simp_all add: sessions_ok_def)
  then have "\<forall>op \<in> set (pending s). accounted op ?s" using eq by (metis imageI)
  moreover have "ran (heap ?s) \<subseteq> insert data (ran (heap s))" by (auto simp: ran_def)
  moreover have "dom (heap ?s) = dom (heap s)" using assms(4) by auto
  ultimately show ?thesis using assms(1,2,3,5) by (auto simp: sessions_ok_def)
qed

lemma complete_ok:
  assumes "sessions_ok {} s" "\<forall>bs. c = Ok bs \<longrightarrow> length bs \<le> kMaxLength"
  shows "\<exists>s'. complete i c s = Inr s' \<and> sessions_ok {} s'"
proof (cases "i < length (pending s)")
  case True
  let ?op = "pending s ! i"
  define t where "t = s\<lparr>pending := take i (pending s) @ drop (Suc i) (pending s)\<rparr>"
  note out = take_out [OF assms(1) True, folded t_def]
  have acc: "accounted ?op t" using out(2) by (simp add: t_def)
  have fresh: "session_of ?op < fresh t" "heap t (session_of ?op) \<noteq> None" using out(1) by (auto simp: sessions_ok_def)
  show ?thesis
  proof (cases ?op)
    case (Accepting sid)
    then have busy: "sessions_ok {sid} t" using out(1) by simp
    show ?thesis
    proof (cases c)
      case (Ok bs)
      obtain data where h: "heap t sid = Some data" using fresh Accepting by auto
      obtain t1 where t1: "Start sid t = Inr t1" "sessions_ok {} t1" "pending t1 = pending t @ [Reading sid]"
        using start_operation_ok [OF busy h, of "\<lambda>_. Reading sid"] acc Accepting by (auto simp: Start_def is_accept_def)
      have "filter is_accept (pending t1) = []" using out(3) Accepting t1(3) by (simp add: t_def is_accept_def)
      from NewAsyncAccept_ok [OF t1(2) this] show ?thesis
        using True Accepting Ok t1(1) by (simp add: complete_def HandleAccept_def t_def [symmetric] Let_def)
    next
      case (Err k)
      then show ?thesis using True Accepting delete_ok [OF busy] by (auto simp: complete_def HandleAccept_def t_def [symmetric] Let_def)
    qed
  next
    case (Reading sid)
    then have busy: "sessions_ok {sid} t" using out(1) by simp
    show ?thesis
    proof (cases c)
      case (Ok bs)
      obtain data where h: "heap t sid = Some data" using fresh Reading by auto
      have len: "length data = kMaxLength" using busy h by (auto simp: sessions_ok_def ran_def)
      have bs: "length bs \<le> kMaxLength" using assms(2) Ok by simp
      let ?t = "t\<lparr>heap := (heap t)(sid := Some (bs @ drop (length bs) data)), received := (received t)(sid := received t sid @ bs)\<rparr>"
      have "echoed t = (echoed t)(sid := echoed t sid)" by simp
      then have "sessions_ok {sid} ?t"
        using log_ok [OF busy, of "received t sid @ bs" "echoed t sid"] acc Reading fresh h len bs by simp
      from start_operation_ok [OF this, of "bs @ drop (length bs) data" "\<lambda>data. Writing sid (take (length bs) data)"]
      show ?thesis using True Reading Ok h acc len bs
        by (auto simp: complete_def HandleRead_def t_def [symmetric] Let_def is_accept_def)
    next
      case (Err k)
      then show ?thesis using True Reading delete_ok [OF busy] by (auto simp: complete_def HandleRead_def t_def [symmetric] Let_def)
    qed
  next
    case (Writing sid bs)
    then have busy: "sessions_ok {sid} t" using out(1) by simp
    obtain data where h: "heap t sid = Some data" using fresh Writing by auto
    have len: "length data = kMaxLength" using busy h by (auto simp: sessions_ok_def ran_def)
    have log: "sessions_ok {sid} (t\<lparr>echoed := (echoed t)(sid := echoed t sid @ sent)\<rparr>)" if "\<exists>rest. bs = sent @ rest" for sent
    proof -
      have "heap t = (heap t)(sid := Some data)" "received t = (received t)(sid := received t sid)" using h by auto
      then show ?thesis using log_ok [OF busy, of "received t sid" "echoed t sid @ sent" data data] acc Writing fresh h that len by auto
    qed
    show ?thesis
    proof (cases c)
      case (Ok x)
      from start_operation_ok [OF log, of bs data "\<lambda>_. Reading sid"] h acc Writing
      show ?thesis using True Ok by (auto simp: complete_def HandleWrite_def Start_def t_def [symmetric] Let_def is_accept_def)
    next
      case (Err k)
      have "\<exists>rest. bs = take k bs @ rest" by (rule exI [of _ "drop k bs"]) simp
      from delete_ok [OF log [OF this]] show ?thesis using True Writing Err
        by (auto simp: complete_def HandleWrite_def t_def [symmetric] Let_def)
    qed
  qed
qed (use assms in \<open>simp add: complete_def\<close>)

lemma run_service_ok:
  assumes "sessions_ok {} s" "\<forall>x \<in> set cs. \<forall>bs. snd x = Ok bs \<longrightarrow> length bs \<le> kMaxLength"
  shows "\<exists>s'. run_service cs s = Inr s' \<and> sessions_ok {} s'"
  using assms
proof (induction cs arbitrary: s)
  case (Cons x cs)
  obtain i c where x: "x = (i, c)" by fastforce
  then obtain s1 where "complete i c s = Inr s1" "sessions_ok {} s1" using complete_ok [of s c i] Cons.prems by auto
  with x Cons show ?case by auto
qed simp

text \<open>
  Property C35. The server on Boost.Asio manages its sessions correctly: whatever operations complete,
  in whatever order, with errors or not, as long as a read delivers at most what the array holds,
  no deleted session is used or deleted again and no array is overrun; every session that exists has
  exactly one pending operation, and every pending operation a session, so that no session is left behind; at most one
  operation waits for a connection; and the bytes sent to a connection are the first of the bytes
  received from it, all of them whenever the session waits for more. When the acceptor cannot be bound, the program ends with
  the exception of its constructor and nothing is run.
\<close>

theorem asio_sessions_safe:
  assumes "\<forall>x \<in> set cs. \<forall>bs. snd x = Ok bs \<longrightarrow> length bs \<le> kMaxLength"
  shows "(\<exists>s. asio_main True cs = Inr s \<and> distinct (map session_of (pending s)) \<and>
      dom (heap s) = session_of ` set (pending s) \<and> length (filter is_accept (pending s)) \<le> 1 \<and>
      (\<forall>sid. \<exists>rest. received s sid = echoed s sid @ rest) \<and>
      (\<forall>sid. Reading sid \<in> set (pending s) \<longrightarrow> echoed s sid = received s sid)) \<and>
    asio_main False cs = Inl SystemError"
proof -
  let ?s = "\<lparr>heap = \<lambda>_. None, fresh = 0, pending = [], received = \<lambda>_. [], echoed = \<lambda>_. []\<rparr> :: asio"
  obtain s1 where s1: "NewAsyncAccept ?s = Inr s1" "sessions_ok {} s1"
    using NewAsyncAccept_ok [of ?s] by (auto simp: sessions_ok_def)
  from run_service_ok [OF this(2) assms] obtain s where s: "run_service cs s1 = Inr s" "sessions_ok {} s" by blast
  have "echoed s sid = received s sid" if "Reading sid \<in> set (pending s)" for sid
  proof -
    have "accounted (Reading sid) s" using s(2) that unfolding sessions_ok_def by blast
    then show ?thesis by simp
  qed
  then show ?thesis using s s1(1) by (auto simp: asio_main_def Server_def sessions_ok_def)
qed

theorem asio_sessions_safe_witness:
  "\<exists>s. asio_main True [(0, Ok []), (0, Ok [104, 105]), (1, Ok []), (1, Ok [33])] = Inr s \<and> echoed s 0 = [104, 105] \<and>
     received s 0 = [104, 105, 33] \<and> dom (heap s) = session_of ` set (pending s)"
proof -
  let ?cs = "[(0, Ok []), (0, Ok [104, 105]), (1, Ok []), (1, Ok [33])]"
  have "\<forall>x \<in> set ?cs. \<forall>bs. snd x = Ok bs \<longrightarrow> length bs \<le> kMaxLength" by (auto simp: kMaxLength_def)
  from asio_sessions_safe [OF this] obtain s where s: "asio_main True ?cs = Inr s" "dom (heap s) = session_of ` set (pending s)" by blast
  moreover have "map_sum id (\<lambda>s. (echoed s 0, received s 0)) (asio_main True ?cs) = Inr ([104, 105], [104, 105, 33])"
    by (simp add: asio_main_def Server_def NewAsyncAccept_def complete_def HandleAccept_def Start_def start_operation_def HandleRead_def
        HandleWrite_def kMaxLength_def Let_def)
  ultimately show ?thesis by simp
qed

text \<open>After an accept that failed no connection is accepted any more.\<close>

lemma delete_pending: "delete sid s = Inr s' \<Longrightarrow> pending s' = pending s"
  by (auto simp: delete_def split: if_splits)

lemma start_operation_pending: "start_operation sid op s = Inr s' \<Longrightarrow> \<exists>data. pending s' = pending s @ [op data]"
  by (auto simp: start_operation_def split: option.splits)

lemma accept_failure_is_final:
  assumes "\<forall>op \<in> set (pending s). \<not> is_accept op" "complete i c s = Inr s'"
  shows "\<forall>op \<in> set (pending s'). \<not> is_accept op"
proof (cases "i < length (pending s)")
  case True
  define rest where "rest = take i (pending s) @ drop (Suc i) (pending s)"
  have rest: "\<forall>op \<in> set rest. \<not> is_accept op" using assms(1) by (auto simp: rest_def dest: in_set_takeD in_set_dropD)
  have op: "\<not> is_accept (pending s ! i)" using assms(1) True by simp
  have "pending s' = rest \<or> (\<exists>op. pending s' = rest @ [op] \<and> \<not> is_accept op)"
    using assms(2) True op
    by (cases "pending s ! i"; cases c)
      (auto simp: complete_def rest_def Let_def is_accept_def HandleRead_def HandleWrite_def Start_def
        dest!: delete_pending start_operation_pending split: option.splits if_splits)
  with rest show ?thesis by auto
qed (use assms in \<open>simp add: complete_def\<close>)

end
