(* ===== verification/Event_Callbacks.thy ===== *)
theory Event_Callbacks
  imports Net_Common
begin

text \<open>
  The echo servers of \<open>asynchronous_network/\<close> in C: \<open>libev_server.c\<close>, \<open>libuv_server.c\<close> and
  \<open>libevent_server.c\<close>. Each consists of callbacks of an event loop that is not part of the repository:
  the loop is a list of events, and for each the callback is called that the program registered
  for it. Memory that is released is never given out again.
\<close>

unbundle bit_operations_syntax

section \<open>libev\<close>

text \<open>The watchers of the connections, by their descriptors.\<close>

record ev_server = io +
  watchers :: "int list"

definition ev_read_cb :: "os \<Rightarrow> int \<Rightarrow> ev_server \<Rightarrow> ev_server" where
  "ev_read_cb sys fd s =
     (let (r, s) = call sys (Recv fd 1024) s;
          s = s\<lparr>buffer := bytes r @ drop (length (bytes r)) (buffer s)\<rparr> in
      if ret r < 0 then s
      else if ret r = 0 then s\<lparr>watchers := remove1 fd (watchers s)\<rparr>
      else snd (call sys (Send fd (nat (ret r)) (take (nat (ret r)) (buffer s))) s))"

text \<open>The result of \<open>accept\<close> is not checked.\<close>

definition ev_accept_cb :: "os \<Rightarrow> int \<Rightarrow> ev_server \<Rightarrow> ev_server" where
  "ev_accept_cb sys fd s =
     (let (r, s) = call sys (Accept fd) s in s\<lparr>watchers := watchers s @ [ret r]\<rparr>)"

text \<open>The descriptors that become readable, one after the other.\<close>

fun ev_loop :: "os \<Rightarrow> int \<Rightarrow> int list \<Rightarrow> ev_server \<Rightarrow> ev_server" where
  "ev_loop sys sd [] s = s"
| "ev_loop sys sd (fd # ready) s =
     ev_loop sys sd ready (if fd = sd then ev_accept_cb sys sd s else if fd \<in> set (watchers s) then ev_read_cb sys fd s else s)"

definition ev_addr :: "byte list" where
  "ev_addr = [2, 0, 48, 57, 0, 0, 0, 0, 0, 0, 0, 0, 0, 0, 0, 0]"

definition ev_main :: "os \<Rightarrow> int list \<Rightarrow> ev_server \<Rightarrow> ev_server" where
  "ev_main sys ready s =
     (let (r, s) = call sys (Socket \<lparr>ai_family = 2, ai_socktype = 1, ai_protocol = 6, ai_addr = ev_addr\<rparr>) s; sd = ret r;
          (_, s) = call sys (Bind sd ev_addr) s;
          (_, s) = call sys (Listen sd SOMAXCONN) s
      in ev_loop sys sd ready (s\<lparr>watchers := []\<rparr>))"

section \<open>libuv\<close>

text \<open>
  The blocks of memory, the streams the loop reads from, and the writes that are not finished: the
  request, the buffer and the number of bytes that are still to be sent.
\<close>

record uv_server =
  blocks :: "nat \<Rightarrow> byte list option"
  next_block :: nat
  streams :: "nat list"
  writes :: "(nat \<times> nat \<times> nat) list"
  uv_sent :: "(nat \<times> byte list) list"

definition malloc :: "byte list \<Rightarrow> uv_server \<Rightarrow> nat \<times> uv_server" where
  "malloc contents s = (next_block s, s\<lparr>blocks := (blocks s)(next_block s := Some contents), next_block := next_block s + 1\<rparr>)"

definition free :: "nat \<Rightarrow> uv_server \<Rightarrow> uv_server result" where
  "free p s = (if blocks s p = None then Inl UseAfterFree else Inr (s\<lparr>blocks := (blocks s)(p := None)\<rparr>))"

definition alloc_buffer :: "nat \<Rightarrow> uv_server \<Rightarrow> (nat \<times> nat) \<times> uv_server" where
  "alloc_buffer len s = (let (base, s) = malloc (replicate len 0) s in ((base, len), s))"

text \<open>
  \<open>uv_write\<close> sends what it can at once, \<open>now\<close> bytes, and keeps the request for the loop. It is asked
  for the whole buffer, the length that \<open>alloc_buffer\<close> has set.
\<close>

definition uv_write :: "nat \<Rightarrow> nat \<Rightarrow> nat \<times> nat \<Rightarrow> nat \<Rightarrow> uv_server \<Rightarrow> uv_server result" where
  "uv_write req stream buf now s =
     (case (blocks s req, blocks s stream, blocks s (fst buf)) of
        (Some _, Some _, Some data) \<Rightarrow>
          Inr (s\<lparr>writes := writes s @ [(req, fst buf, snd buf - now)],
                 uv_sent := uv_sent s @ [(stream, take now (take (snd buf) data))]\<rparr>)
      | _ \<Rightarrow> Inl UseAfterFree)"

definition uv_read_cb :: "nat \<Rightarrow> int \<Rightarrow> nat \<times> nat \<Rightarrow> nat \<Rightarrow> uv_server \<Rightarrow> uv_server result" where
  "uv_read_cb stream n buf now s =
     (if n \<le> 0 then bindE (free stream s) (free (fst buf))
      else
        let (req, s) = malloc [] s in
        bindE (uv_write req stream buf now s) (\<lambda>s. bindE (free (fst buf) s) (free req)))"

definition connection_cb :: "uv_server \<Rightarrow> uv_server" where
  "connection_cb s = (let (client, s) = malloc [] s in s\<lparr>streams := streams s @ [client]\<rparr>)"

text \<open>
  What the loop does: a connection; data on a stream, for which it asks for a buffer of
  \<open>len\<close> bytes, or the end of a stream; the completion of a write, which uses the request.
\<close>

datatype uv_event = Connection | Data nat nat "byte list" nat | End nat nat | Written nat

definition uv_step :: "uv_event \<Rightarrow> uv_server \<Rightarrow> uv_server result" where
  "uv_step e s =
     (case e of
        Connection \<Rightarrow> Inr (connection_cb s)
      | Data stream len bs now \<Rightarrow>
          if stream \<notin> set (streams s) then Inr s
          else if blocks s stream = None then Inl UseAfterFree
          else
            let (buf, s) = alloc_buffer len s in
            uv_read_cb stream (int (length bs)) buf now
              (s\<lparr>blocks := (blocks s)(fst buf := Some (bs @ drop (length bs) (replicate len 0)))\<rparr>)
      | End stream len \<Rightarrow>
          if stream \<notin> set (streams s) then Inr s
          else if blocks s stream = None then Inl UseAfterFree
          else let (buf, s) = alloc_buffer len s in uv_read_cb stream (- 4095) buf 0 s
      | Written i \<Rightarrow>
          if length (writes s) \<le> i then Inr s
          else if blocks s (fst (writes s ! i)) = None then Inl UseAfterFree
          else Inr (s\<lparr>writes := take i (writes s) @ drop (Suc i) (writes s)\<rparr>))"

fun uv_run :: "uv_event list \<Rightarrow> uv_server \<Rightarrow> uv_server result" where
  "uv_run [] s = Inr s"
| "uv_run (e # es) s = bindE (uv_step e s) (uv_run es)"

definition uv_start :: uv_server where
  "uv_start = \<lparr>blocks = \<lambda>_. None, next_block = 0, streams = [], writes = [], uv_sent = []\<rparr>"

section \<open>libevent\<close>

record bufferevent =
  in_buf :: "byte list"
  out_buf :: "byte list"

record event_base =
  bevs :: "nat \<Rightarrow> bufferevent option"
  next_bev :: nat
  event_lines :: "byte list list"
  perrors :: nat

definition BEV_EVENT_EOF :: int where "BEV_EVENT_EOF = 16"
definition BEV_EVENT_ERROR :: int where "BEV_EVENT_ERROR = 32"

text \<open>The copy of the input that is printed as a string has no final zero of its own.\<close>

definition echo_read_cb :: "nat \<Rightarrow> event_base \<Rightarrow> event_base result" where
  "echo_read_cb bev s =
     (case bevs s bev of
        None \<Rightarrow> Inl UseAfterFree
      | Some b \<Rightarrow>
          if 0 \<in> set (in_buf b) then
            Inr (s\<lparr>event_lines := event_lines s @ [ascii ''data: '' @ c_string (in_buf b)],
                   bevs := (bevs s)(bev := Some (b\<lparr>out_buf := out_buf b @ in_buf b, in_buf := []\<rparr>))\<rparr>)
          else Inl OutOfBounds)"

definition bufferevent_free :: "nat \<Rightarrow> event_base \<Rightarrow> event_base result" where
  "bufferevent_free bev s = (if bevs s bev = None then Inl UseAfterFree else Inr (s\<lparr>bevs := (bevs s)(bev := None)\<rparr>))"

definition echo_event_cb :: "nat \<Rightarrow> int \<Rightarrow> event_base \<Rightarrow> event_base result" where
  "echo_event_cb bev events s =
     bindE (if events AND BEV_EVENT_ERROR \<noteq> 0 then bufferevent_free bev (s\<lparr>perrors := perrors s + 1\<rparr>) else Inr s) (\<lambda>s.
     if events AND BEV_EVENT_EOF \<noteq> 0 then bufferevent_free bev s else Inr s)"

definition accept_conn_cb :: "event_base \<Rightarrow> event_base" where
  "accept_conn_cb s = s\<lparr>bevs := (bevs s)(next_bev s := Some \<lparr>in_buf = [], out_buf = []\<rparr>), next_bev := next_bev s + 1\<rparr>"

definition accept_error_cb :: "int \<Rightarrow> string \<Rightarrow> event_base \<Rightarrow> event_base" where
  "accept_error_cb e msg s =
     s\<lparr>event_lines := event_lines s @ [ascii (''ERROR = '' @ to_string e @ '' = \"'' @ msg @ ''\"'')]\<rparr>"

text \<open>\<open>event_base_dispatch\<close>: the loop, which ends after an error of the listener.\<close>

datatype bev_event = Connected | Arrived nat "byte list" | Happened nat int | ListenerFailed int string

fun event_base_dispatch :: "bev_event list \<Rightarrow> event_base \<Rightarrow> event_base result" where
  "event_base_dispatch [] s = Inr s"
| "event_base_dispatch (Connected # es) s = event_base_dispatch es (accept_conn_cb s)"
| "event_base_dispatch (Arrived bev bs # es) s =
     (case bevs s bev of
        None \<Rightarrow> event_base_dispatch es s
      | Some b \<Rightarrow>
          bindE (echo_read_cb bev (s\<lparr>bevs := (bevs s)(bev := Some (b\<lparr>in_buf := in_buf b @ bs\<rparr>))\<rparr>)) (event_base_dispatch es))"
| "event_base_dispatch (Happened bev events # es) s =
     (if bevs s bev = None then event_base_dispatch es s
      else bindE (echo_event_cb bev events s) (event_base_dispatch es))"
| "event_base_dispatch (ListenerFailed e msg # es) s = Inr (accept_error_cb e msg s)"

definition event_main :: "bev_event list \<Rightarrow> event_base result" where
  "event_main es = event_base_dispatch es \<lparr>bevs = \<lambda>_. None, next_bev = 0, event_lines = [], perrors = 0\<rparr>"

section \<open>What the callbacks do\<close>

subsection \<open>libev\<close>

text \<open>The bytes received are sent back, in two calls.\<close>

lemma ev_read_cb_echoes:
  assumes "sys (history s) (Recv fd 1024) = r" "ret r = int (length (bytes r))" "0 < length (bytes r)"
  shows "map fst (history (ev_read_cb sys fd s)) = [Send fd (length (bytes r)) (bytes r), Recv fd 1024] @ map fst (history s)"
  using assms by (simp add: ev_read_cb_def Let_def split_beta)

text \<open>No descriptor is ever closed, also when its watcher is released at the end of a connection.\<close>

lemma ev_read_cb_live: "live (history (ev_read_cb sys fd s)) = live (history s)"
  by (simp add: ev_read_cb_def Let_def split_beta)

lemma ev_accept_cb_live: "live (history s) \<subseteq> live (history (ev_accept_cb sys fd s))"
  by (auto simp: ev_accept_cb_def Let_def split_beta)

theorem libev_never_closes: "live (history s) \<subseteq> live (history (ev_loop sys sd ready s))"
proof (induction ready arbitrary: s)
  case (Cons fd ready)
  let ?s = "if fd = sd then ev_accept_cb sys sd s else if fd \<in> set (watchers s) then ev_read_cb sys fd s else s"
  have "live (history s) \<subseteq> live (history ?s)" using ev_read_cb_live ev_accept_cb_live by simp
  also have "\<dots> \<subseteq> live (history (ev_loop sys sd ready ?s))" by (rule Cons)
  finally show ?case by simp
qed simp

subsection \<open>libuv\<close>

text \<open>What every run keeps: the blocks are below the next one, and every unfinished write has lost its memory.\<close>

definition uv_inv :: "uv_server \<Rightarrow> bool" where
  "uv_inv s \<longleftrightarrow> (\<forall>p \<ge> next_block s. blocks s p = None) \<and> (\<forall>st \<in> set (streams s). st < next_block s) \<and>
     (\<forall>(req, base, n) \<in> set (writes s). req < next_block s \<and> base < next_block s \<and> blocks s req = None \<and> blocks s base = None)"

text \<open>One read of data: what is sent at once, and what is left.\<close>

lemma uv_data:
  assumes "uv_inv s" "stream \<in> set (streams s)" "blocks s stream \<noteq> None" "0 < length bs" "length bs \<le> len"
  defines "base \<equiv> next_block s"
  shows "\<exists>s'. uv_step (Data stream len bs now) s = Inr s' \<and> uv_inv s' \<and> streams s' = streams s \<and>
    uv_sent s' = uv_sent s @ [(stream, take now (bs @ replicate (len - length bs) 0))] \<and>
    writes s' = writes s @ [(base + 1, base, len - now)]"
proof -
  have old: "stream < base" using assms(1,2) by (auto simp: uv_inv_def base_def)
  obtain d where d: "blocks s stream = Some d" using assms(3) by auto
  let ?data = "bs @ replicate (len - length bs) 0"
  let ?s = "s\<lparr>blocks := (blocks s)(base := None, base + 1 := None), next_block := base + 2,
      writes := writes s @ [(base + 1, base, len - now)], uv_sent := uv_sent s @ [(stream, take now ?data)]\<rparr>"
  have "uv_step (Data stream len bs now) s = Inr ?s"
    using assms(2,4,5) old d
    by (simp add: uv_step_def alloc_buffer_def malloc_def uv_read_cb_def uv_write_def free_def Let_def base_def fun_upd_twist)
  moreover have "uv_inv ?s" using assms(1) by (force simp: uv_inv_def base_def)
  ultimately show ?thesis by auto
qed

lemma uv_inv_free:
  assumes "uv_inv s" "stream \<in> set (streams s)"
  shows "uv_inv (s\<lparr>blocks := (blocks s)(stream := None, next_block s := None), next_block := next_block s + 1\<rparr>)"
  using assms by (fastforce simp: uv_inv_def)

lemma uv_end:
  assumes "uv_inv s" "stream \<in> set (streams s)" "blocks s stream \<noteq> None" "n \<le> 0"
  shows "\<exists>s'. uv_read_cb stream n (next_block s, len) now (s\<lparr>blocks := (blocks s)(next_block s := Some data), next_block := next_block s + 1\<rparr>) =
      Inr s' \<and> uv_inv s'"
proof -
  have "stream < next_block s" using assms(1,2) by (auto simp: uv_inv_def)
  then have "uv_read_cb stream n (next_block s, len) now (s\<lparr>blocks := (blocks s)(next_block s := Some data), next_block := next_block s + 1\<rparr>) =
      Inr (s\<lparr>blocks := (blocks s)(stream := None, next_block s := None), next_block := next_block s + 1\<rparr>)"
    using assms(3,4) by (simp add: uv_read_cb_def free_def fun_upd_twist)
  with uv_inv_free [OF assms(1,2)] show ?thesis by simp
qed

definition data_ok :: "uv_event \<Rightarrow> bool" where
  "data_ok e \<longleftrightarrow> (case e of Data stream len bs now \<Rightarrow> length bs \<le> len | _ \<Rightarrow> True)"

lemma uv_step_inv:
  assumes "uv_inv s" "uv_step e s = Inr s'" "data_ok e"
  shows "uv_inv s'"
proof (cases e)
  case Connection
  have "s' = s\<lparr>blocks := (blocks s)(next_block s := Some []), next_block := next_block s + 1, streams := streams s @ [next_block s]\<rparr>"
    using assms(2) Connection by (simp add: uv_step_def connection_cb_def malloc_def)
  then show ?thesis using assms(1) by (fastforce simp: uv_inv_def)
next
  case (Data stream len bs now)
  consider "stream \<notin> set (streams s)" | "stream \<in> set (streams s)" "blocks s stream \<noteq> None"
    using assms(2) Data by (force simp: uv_step_def)
  then show ?thesis
  proof cases
    case 1
    then show ?thesis using assms(1,2) Data by (simp add: uv_step_def)
  next
    case 2
    show ?thesis
    proof (cases "bs = []")
      case True
      have swap: "s\<lparr>next_block := k, blocks := b\<rparr> = s\<lparr>blocks := b, next_block := k\<rparr>" for k b by simp
      show ?thesis using uv_end [OF assms(1) 2, of 0 len now "replicate len 0"] assms(2) Data 2 True
        by (auto simp: uv_step_def alloc_buffer_def malloc_def swap)
    next
      case False
      then show ?thesis using uv_data [OF assms(1) 2, of bs len now] assms(2,3) Data by (auto simp: data_ok_def)
    qed
  qed
next
  case (End stream len)
  consider "stream \<notin> set (streams s)" | "stream \<in> set (streams s)" "blocks s stream \<noteq> None"
    using assms(2) End by (force simp: uv_step_def)
  then show ?thesis
  proof cases
    case 1
    then show ?thesis using assms(1,2) End by (simp add: uv_step_def)
  next
    case 2
    then show ?thesis using uv_end [OF assms(1) 2, of "- 4095" len 0 "replicate len 0"] assms(2) End
      by (auto simp: uv_step_def alloc_buffer_def malloc_def)
  qed
next
  case (Written i)
  have "\<not> i < length (writes s)"
  proof
    assume i: "i < length (writes s)"
    obtain req base n where w: "writes s ! i = (req, base, n)" by (cases "writes s ! i")
    with nth_mem [OF i] assms(1) have "blocks s req = None" by (auto simp: uv_inv_def)
    with i w assms(2) Written show False by (simp add: uv_step_def)
  qed
  then have "s' = s" using assms(2) Written by (simp add: uv_step_def)
  then show ?thesis using assms(1) by simp
qed

lemma uv_run_inv: "uv_inv s \<Longrightarrow> uv_run es s = Inr s' \<Longrightarrow> \<forall>e \<in> set es. data_ok e \<Longrightarrow> uv_inv s'"
  by (induction es arbitrary: s) (auto simp: bindE_Inr_iff intro: uv_step_inv)

text \<open>
  The server on libuv: whatever has happened before, when data arrives on a connection it is
  answered with the whole buffer the loop has provided, the data followed by zeros, as far as it can
  be sent at once; and the request and the buffer are released while the write is unfinished, so
  that its completion uses released memory.
\<close>

theorem libuv_echo:
  assumes "uv_run es uv_start = Inr s" "\<forall>e \<in> set es. data_ok e"
    and "stream \<in> set (streams s)" "blocks s stream \<noteq> None" "0 < length bs" "length bs \<le> len"
  shows "\<exists>s'. uv_step (Data stream len bs now) s = Inr s' \<and>
    uv_sent s' = uv_sent s @ [(stream, take now (bs @ replicate (len - length bs) 0))] \<and>
    uv_step (Written (length (writes s))) s' = Inl UseAfterFree"
proof -
  have "uv_inv uv_start" by (simp add: uv_inv_def uv_start_def)
  from uv_run_inv [OF this assms(1,2)] have "uv_inv s" .
  from uv_data [OF this assms(3-6), of now] obtain s' where
    s': "uv_step (Data stream len bs now) s = Inr s'" "uv_inv s'"
      "uv_sent s' = uv_sent s @ [(stream, take now (bs @ replicate (len - length bs) 0))]"
      "writes s' = writes s @ [(next_block s + 1, next_block s, len - now)]" by blast
  then have "blocks s' (next_block s + 1) = None" by (auto simp: uv_inv_def)
  with s'(4) have "uv_step (Written (length (writes s))) s' = Inl UseAfterFree" by (simp add: uv_step_def)
  with s' show ?thesis by blast
qed

theorem libuv_echo_witness:
  "\<exists>s s'. uv_run [Connection] uv_start = Inr s \<and> uv_step (Data 0 4 [104, 105] 4) s = Inr s' \<and>
     uv_sent s' = [(0, [104, 105, 0, 0])] \<and> uv_step (Written 0) s' = Inl UseAfterFree"
proof -
  obtain s where s: "uv_run [Connection] uv_start = Inr s" "streams s = [0]" "blocks s 0 \<noteq> None" "writes s = []" "uv_sent s = []"
    by (simp add: uv_step_def connection_cb_def malloc_def uv_start_def)
  have ok: "\<forall>e \<in> set [Connection]. data_ok e" by (simp add: data_ok_def)
  have "0 \<in> set (streams s)" using s(2) by simp
  from libuv_echo [OF s(1) ok this s(3), of "[104, 105]" 4 4] s show ?thesis by (auto simp: numeral_2_eq_2)
qed

subsection \<open>libevent\<close>

text \<open>Data is appended to the output exactly when the printed copy contains a zero; else the output reads past its end.\<close>

lemma libevent_read:
  assumes "bevs s bev = Some b"
  shows "event_base_dispatch [Arrived bev bs] s =
    (if 0 \<in> set (in_buf b @ bs) then
       Inr (s\<lparr>event_lines := event_lines s @ [ascii ''data: '' @ c_string (in_buf b @ bs)],
              bevs := (bevs s)(bev := Some (b\<lparr>out_buf := out_buf b @ in_buf b @ bs, in_buf := []\<rparr>))\<rparr>)
     else Inl OutOfBounds)"
  using assms by (simp add: echo_read_cb_def)

text \<open>A connection that reports its end together with an error is released twice.\<close>

lemma libevent_double_free:
  assumes "bevs s bev \<noteq> None" "events AND BEV_EVENT_ERROR \<noteq> 0" "events AND BEV_EVENT_EOF \<noteq> 0"
  shows "echo_event_cb bev events s = Inl UseAfterFree"
  using assms by (simp add: echo_event_cb_def bufferevent_free_def)

end
