(* ===== verification/Spec2Isabelle.thy ===== *)
theory Spec2Isabelle
  imports Allocator Derivative Prefix_Sum Matrix_Det Pthread_Mutex Pthread_Rwlock
    Pthread_Easy Pthread_Wait Pthread_Cancel Select_Poll Epoll_Kqueue
    Chat Tcp_Server Addresses Bash_Commands Channels Signals Message_Queues Semaphores
    Boost_Asio Event_Callbacks
begin

text \<open>
  \<^bold>\<open>Verification of the unix-programming repository.\<close>

  The repository is a collection of programs in C++ and C on memory and containers, OpenMP,
  POSIX threads, sockets and multiplexing, asynchronous servers, processes with pipes and signals,
  message queues and semaphores. The programs do not call each
  other; they meet in the operating system (a client and a server, a parent and a child), and five
  echo servers and a chat server share the text of their helpers. Every theory models one program
  or a family of programs with the same parts.

  \<^bold>\<open>Conventions.\<close> A statement that can throw or be undefined returns \<open>Inl\<close> of a \<open>cpp_error\<close>
  (\<open>Prelude\<close>); the machine's \<open>int\<close> is an \<open>int\<close> with checked range, \<open>unsigned int\<close> a 32-bit word,
  \<open>size_t\<close> a \<open>nat\<close> with the reduction modulo \<open>2 ^ 64\<close> written out, a byte an 8-bit word.
  \<open>std::set\<close> and \<open>std::map\<close> are key-sorted lists. Stateful code passes a record. The system calls
  of the network programs are answered by a parameter \<open>sys\<close>, a function of all calls and replies so far
  (\<open>Net_Common\<close>); every theorem about them holds for all such systems, under the named
  promises \<open>fresh_fds\<close> (a new descriptor is not in use), \<open>recv_ok\<close>, \<open>read_ok\<close>, \<open>fork_ok\<close> where
  it needs them. Threads are step relations in which a step is one access to shared state or one blocking
  call, with the status of the call as an argument, so that all interleavings and all failures are
  covered.

  \<^bold>\<open>Parts.\<close>

  \<^item> \<open>Prelude\<close>: failures, machine integers, ordered containers (locale \<open>ordered_container\<close>,
    interpreted on the sorted lists), and the locales for step relations: \<open>inductive_invariant\<close>,
    \<open>lock_protocol\<close>, \<open>bounded_run\<close>, \<open>possible_end\<close>. \<open>Text_IO\<close>: decimal numbers and white space.

  \<^item> \<open>Allocator\<close>: \<open>containers_allocators/allocator.cpp\<close>. \<open>Alloc\<close>, \<open>ReAlloc\<close>, \<open>Free\<close> of
    \<open>SmallAllocator\<close> on the record \<open>small_allocator\<close>, and the test program. The invariant of all
    reachable allocators, the exact behaviour of \<open>Alloc\<close> on disjoint blocks (first uncovered byte), refinement of a
    map of live blocks, disjointness under last-in first-out use, the exact condition under which a block is
    placed over a live one, and the test program's silence.

  \<^item> \<open>Derivative\<close>: \<open>containers_allocators/containers.cpp\<close>. The regular expression with a
    backtracking matcher, the loops over the matches and over the map; the matcher equals a direct
    scanner, \<open>derivative\<close> returns within the bounds of \<open>int\<close>, the text it returns denotes the
    formal derivative, and the assertions of \<open>main\<close> hold.

  \<^item> \<open>Prefix_Sum\<close>, \<open>Determinant\<close>, \<open>Matrix_Det\<close>: \<open>parallel_programming/\<close>. Both prefix-sum
    versions, for any order of the iterations of the OpenMP loop; both eliminations over an ordered
    field with a rounding function and any schedule; in exact arithmetic the result is the
    determinant (locale \<open>determinant_laws\<close>, interpreted on the Laplace expansion), and with any
    rounding the parallel result is the sequential one when the critical sections are entered in order. Both
    \<open>main\<close> functions with their files.

  \<^item> \<open>Pthread_Mutex\<close>, \<open>Pthread_Rwlock\<close>: \<open>posix_threads/pthread_mutex.cpp\<close>. Mutual exclusion, the
    printed values, termination within 32 steps without deadlock; conservation of the elements
    between producer and consumer, the end can always be reached, and the defect by which an element is lost.

  \<^item> \<open>Data_Race\<close>: actions of threads on a shared variable, happens-before as the closure of program order and of the
    creating and joining of threads, and data races. \<open>Pthread_Easy\<close>, \<open>Pthread_Wait\<close>, \<open>Pthread_Cancel\<close>: the other programs of
    \<open>posix_threads/\<close>. All ends of the runs of the unsynchronised increments (at most 12 steps), with their data race, and of
    the threads at the condition variable (at most 9 steps), which end in a failed assertion after a data race or in the
    undefined call of \<open>pthread_cond_wait\<close>; a cancellation in time is honoured and its line printed.

  \<^item> \<open>Net_Common\<close>: system calls, \<open>set_nonblock\<close>, the listening socket and \<open>echo\<close> of
    \<open>sockets_multiplexing/\<close>, and the loop of a server (locale \<open>multiplexer\<close>: what an iteration
    keeps, the loop keeps). \<open>Select_Poll\<close>, \<open>Epoll_Kqueue\<close>: the five echo servers. \<open>echo\<close> returns exactly the
    bytes received; the servers on select and kqueue never use a descriptor that is not open; the
    poll server does what the select server does; the bounds of \<open>fd_set\<close> and of the array of
    \<open>poll\<close>; the \<open>recv\<close> on a socket just closed by the server on epoll.

    The helpers of the five files have the same text; the abbreviations such as \<open>echo_epoll\<close> and
    \<open>get_socket_fd_poll\<close> name the copy of each file, with its port, its \<open>print_errno\<close> and the values of \<open>EAGAIN\<close> and
    \<open>O_NONBLOCK\<close> of its system (Linux, or BSD for the servers on kqueue).

  \<^item> \<open>Chat\<close>: \<open>chat.cpp\<close>. An event of a connection in full: its message goes to every connection
    once, or, under the exact condition given, is written outside the arrays.

  \<^item> \<open>Tcp_Server\<close>: \<open>tcp_server/\<close>. The server with its children and the signal handler, and the
    client; every connection gets its greeting, no descriptor and no ended child is left over, and
    the client prints what the child has sent.

  \<^item> \<open>Bash_Commands\<close>: \<open>processes_channels_signals/bash_commands.cpp\<close>. Reading back a printed line
    of commands; the descriptors of every child; the program is the composition of its commands,
    or hangs, decided by the capacity of a pipe.

  \<^item> \<open>Channels\<close>: \<open>fifo_channel.cpp\<close> and \<open>socketpair.cpp\<close>. What is read is written, in order, and
    the pipes are removed at the end; what the parent prints of the child's message.

  \<^item> \<open>Addresses\<close>: \<open>showip.c\<close> and \<open>sockaddr.c\<close>. Dotted addresses are read back as printed;
    \<open>showip\<close> prints bytes of pointers.

  \<^item> \<open>Signals\<close>: \<open>simple_fork.cpp\<close> and \<open>unkillable_process.cpp\<close> as schedules of the processes' steps and
    of signals: what is behind every status the parent can report; only \<open>SIGKILL\<close> ends the second program
    after its two calls.

  \<^item> \<open>Message_Queues\<close>, \<open>Semaphores\<close>: \<open>unix_ipc/\<close>. The queues of the kernel satisfy the locale
    \<open>message_queue\<close>; the System V program delivers in every interleaving or reports an error, within 6
    steps; the POSIX program never delivers. What repeated runs leave in the semaphores.

  \<^item> \<open>Boost_Asio\<close>, \<open>Event_Callbacks\<close>: \<open>asynchronous_network/\<close>. The libraries are not part of the
    repository; a run is the list of the events that the library reports, in any order. The sessions of the
    Boost.Asio server are never used after their deletion and echo in order; the server on libev never closes a
    descriptor; the one on libuv answers with its whole buffer and releases it too early; the one on
    libevent prints an unterminated string and may release a connection twice.

  \<^bold>\<open>Bounds and fuel.\<close> The loops \<open>while (true)\<close> of the servers and of \<open>fifo_channel\<close> are \<open>server_loop\<close>
    with a number of iterations; the theorems hold for every number, and \<open>Next\<close> says that the loop
    still runs. \<open>tcp_run\<close> takes the list of connections and ended children. All other loops are
    functions with termination proofs, and the runs of the threads have proved bounds.

  \<^bold>\<open>Not modelled.\<close> Rounding of \<open>float\<close> is an arbitrary function. Time: \<open>sleep\<close> is a point at
  which other threads may run. Signals other than \<open>SIGCHLD\<close>, \<open>SIGTERM\<close>, \<open>SIGINT\<close> and \<open>SIGKILL\<close>. Failures of
  \<open>pipe\<close>, \<open>dup2\<close> and \<open>open\<close> in \<open>bash_commands.cpp\<close>, where a pipe holds 65536 bytes and a command is a function of its
  input; and output buffered at a \<open>fork\<close>. In \<open>tcp_server/server.c\<close> the signal \<open>SIGCHLD\<close> is taken between two iterations of the loop:
  its handler keeps \<open>errno\<close>, touches nothing of the loop and calls \<open>waitpid\<close> until no ended child is left, and \<open>accept\<close> is
  restarted after it, so that a delivery inside an iteration, or one delivery for several ended children, has
  the same effect. In \<open>simple_fork.cpp\<close> the flag, which is not volatile, is read anew in every round. The accesses of
  \<open>easy_pthreads.cpp\<close> and \<open>wait_pthread.cpp\<close> are interleaved steps although their race leaves the behaviour undefined; the
  theorems say so. For \<open>float\<close> values, the extraction from text is a parameter of which \<open>reads_as\<close> states what is used. The insides of the resolver and of the
  event libraries. \<open>main\<close> of \<open>pthread_mutex.cpp\<close> only calls the two parts one after the other, which
  are modelled apart. \<open>get_max_socket\<close> in the server
  files that contain but do not call it.

  \<^bold>\<open>Plan.\<close> Next: the servers on epoll and kqueue from their \<open>main\<close> functions on, as for select.
\<close>

end
